(* ===== verification/Prelude.thy ===== *)
theory Prelude
  imports Main "HOL-Library.Word"
begin

text \<open>
  Shared vocabulary of the development: the widths of the C integer types, the
  address type, and the generic facts on lists, options and words that the
  component theories use. Nothing here models a line of the source: the lemmas
  are about library constants and about \<open>linked\<close>, which says that a pointer map
  leads through a list.
\<close>

unbundle bit_operations_syntax

type_synonym u8 = "8 word"
type_synonym u16 = "16 word"
type_synonym u32 = "32 word"
type_synonym u64 = "64 word"

text \<open>A kernel or user address; 0 is the C null pointer.\<close>

type_synonym addr = u64

abbreviation NULL :: addr where
  "NULL \<equiv> 0"

text \<open>A C string: its bytes up to, and without, the terminating NUL.\<close>

type_synonym cstr = "u8 list"

named_theorems word_conv \<open>moving word arithmetic to the natural numbers\<close>

section \<open>Words\<close>

lemma unat_lt_2p: "unat (w :: 'a :: len word) < 2 ^ LENGTH('a)"
  by (rule unsigned_less)

lemma unat_plus_no_wrap [word_conv]:
  fixes a b :: "'a :: len word"
  assumes "unat a + unat b < 2 ^ LENGTH('a)"
  shows "unat (a + b) = unat a + unat b"
  using assms by (simp add: unat_word_ariths)

lemma unat_times_no_wrap [word_conv]:
  fixes a b :: "'a :: len word"
  assumes "unat a * unat b < 2 ^ LENGTH('a)"
  shows "unat (a * b) = unat a * unat b"
  using assms by (simp add: unat_word_ariths)

lemma unat_minus_no_wrap [word_conv]:
  fixes a b :: "'a :: len word"
  assumes "unat b \<le> unat a"
  shows "unat (a - b) = unat a - unat b"
  using assms by (simp add: unat_sub word_le_nat_alt)

lemma unat_of_nat_small [word_conv]:
  assumes "n < 2 ^ LENGTH('a)"
  shows "unat (of_nat n :: 'a :: len word) = n"
  using assms by (simp add: unat_of_nat)

lemma unat_ucast_small [word_conv]:
  fixes w :: "'a :: len word"
  assumes "unat w < 2 ^ LENGTH('b)"
  shows "unat (ucast w :: 'b :: len word) = unat w"
  using assms by (simp add: unsigned_ucast_eq take_bit_nat_eq_self)

lemma unat_ucast_up [word_conv]:
  fixes w :: "'a :: len word"
  assumes "LENGTH('a) \<le> LENGTH('b)"
  shows "unat (ucast w :: 'b :: len word) = unat w"
proof (rule unat_ucast_small)
  have "unat w < 2 ^ LENGTH('a)" by (rule unat_lt_2p)
  also have "\<dots> \<le> 2 ^ LENGTH('b)" using assms by (simp add: power_increasing)
  finally show "unat w < 2 ^ LENGTH('b)" .
qed

text \<open>Rounding down to, and offset from, a multiple of a power of two.\<close>

lemma unat_and_not_mask [word_conv]:
  fixes w :: "'a :: len word"
  shows "unat (w AND NOT (mask k)) = unat w div 2 ^ k * 2 ^ k"
proof -
  have eq: "w AND NOT (mask k) = push_bit k (drop_bit k w)"
    by (rule bit_word_eqI) (auto simp: bit_simps)
  have "unat w div 2 ^ k * 2 ^ k < 2 ^ LENGTH('a)"
    by (rule le_less_trans [OF _ unat_lt_2p [of w]]) simp
  then have "take_bit LENGTH('a) (push_bit k (drop_bit k (unat w))) = unat w div 2 ^ k * 2 ^ k"
    by (simp add: drop_bit_eq_div push_bit_eq_mult take_bit_nat_eq_self)
  then show ?thesis
    unfolding eq unsigned_push_bit_eq unsigned_drop_bit_eq
    by (simp add: take_bit_nat_eq_self unat_lt_2p)
qed

lemma unat_and_mask [word_conv]:
  fixes w :: "'a :: len word"
  shows "unat (w AND mask k) = unat w mod 2 ^ k"
proof -
  have "unat (take_bit k w) = take_bit k (unat w)" by (rule unsigned_take_bit_eq)
  then show ?thesis by (metis take_bit_eq_mask take_bit_eq_mod)
qed

text \<open>
  The bit test, set and clear idioms \<open>w & (1 << n)\<close>, \<open>w |= 1 << n\<close>, \<open>w &= ~(1 << n)\<close>.
  The simplifier turns \<open>push_bit n 1\<close> into \<open>2 ^ n\<close>, so they are stated in that form.
\<close>

named_theorems bit_idioms \<open>testing, setting and clearing one bit\<close>

lemma and_shift1_zero [bit_idioms]:
  "(w :: 'a :: len word) AND 2 ^ n = 0 \<longleftrightarrow> \<not> bit w n"
  by (simp add: and_exp_eq_0_iff_not_bit)

lemma bit_or_shift1 [bit_idioms]:
  fixes w :: "'a :: len word"
  assumes "n < LENGTH('a)"
  shows "bit (w OR 2 ^ n) m \<longleftrightarrow> bit w m \<or> m = n"
  using assms by (auto simp: bit_simps)

lemma bit_and_not_shift1 [bit_idioms]:
  fixes w :: "'a :: len word"
  shows "bit (w AND NOT (2 ^ n)) m \<longleftrightarrow> bit w m \<and> m \<noteq> n"
  by (auto simp: bit_simps dest: bit_imp_le_length)

lemma word_all_ones_iff:
  fixes w :: "'a :: len word"
  shows "w = - 1 \<longleftrightarrow> (\<forall>n < LENGTH('a). bit w n)"
  by (auto simp: bit_eq_iff dest: bit_imp_le_length)

lemma bit_word_unat: "bit (w :: 'a :: len word) n \<longleftrightarrow> odd (unat w div 2 ^ n)"
proof -
  have "bit w n \<longleftrightarrow> bit (unat w) n"
    by (auto simp: bit_simps dest: bit_imp_le_length)
  then show ?thesis by (simp add: bit_iff_odd)
qed

lemma not_bit_if_dvd:
  assumes "2 ^ k dvd unat (w :: 'a :: len word)" and "n < k"
  shows "\<not> bit w n"
proof -
  from assms(2) obtain j where k: "k = n + Suc j" by (metis less_imp_Suc_add add_Suc_right)
  from assms(1) obtain c where "unat w = 2 ^ k * c" by (elim dvdE)
  then have "unat w div 2 ^ n = 2 ^ Suc j * c" using k by (simp add: power_add)
  then show ?thesis by (simp add: bit_word_unat)
qed

lemma not_bit_if_small:
  assumes "unat (w :: 'a :: len word) < 2 ^ k" and "k \<le> n"
  shows "\<not> bit w n"
proof -
  have "unat w < 2 ^ n"
    using assms by (meson less_le_trans one_le_numeral power_increasing)
  then show ?thesis by (simp add: bit_word_unat)
qed

section \<open>Lists\<close>

lemma filter_change_one:
  assumes "distinct xs" and "x \<in> set xs" and "P x" and "\<not> Q x"
    and "\<And>y. y \<in> set xs \<Longrightarrow> y \<noteq> x \<Longrightarrow> Q y = P y"
  shows "length (filter P xs) = Suc (length (filter Q xs))"
  using assms
proof (induction xs)
  case (Cons a xs)
  show ?case
  proof (cases "a = x")
    case True
    with Cons.prems(1) have "x \<notin> set xs" by simp
    with Cons.prems(5) have "filter P xs = filter Q xs"
      by (intro filter_cong) auto
    with True Cons.prems show ?thesis by simp
  next
    case False
    with Cons show ?thesis by simp
  qed
qed simp

lemma length_filter_upt_pos:
  assumes "p < n" and "P p"
  shows "0 < length (filter P [0..<n])"
proof -
  have "p \<in> set (filter P [0..<n])" using assms by simp
  then show ?thesis by (metis length_pos_if_in_set)
qed

text \<open>A pointer map \<open>f\<close> leads through the list, element by element.\<close>

fun linked :: "('a \<Rightarrow> 'a) \<Rightarrow> 'a list \<Rightarrow> bool" where
  "linked f (x # y # zs) \<longleftrightarrow> f x = y \<and> linked f (y # zs)"
| "linked f _ \<longleftrightarrow> True"

lemma linked_append_Cons:
  "linked f (xs @ y # ys) \<longleftrightarrow> linked f (xs @ [y]) \<and> linked f (y # ys)"
  by (induction f xs rule: linked.induct) (cases ys; simp)+

lemma linked_upd_notin [simp]:
  "u \<notin> set (butlast xs) \<Longrightarrow> linked (f(u := v)) xs \<longleftrightarrow> linked f xs"
  by (induction f xs rule: linked.induct) auto

end
