(* ===== verification/Physmem.thy ===== *)
theory Physmem
  imports Prelude
begin

text \<open>
  The physical page allocator of \<^verbatim>\<open>kernel/mm/memory.c\<close>: a bitmap with one bit per
  4 KiB page, a free-page counter, an allocation hint and a 16-bit reference
  count per page for copy-on-write sharing. The spinlocks make each operation
  atomic, so each C function is one state transformer here.
\<close>

definition PAGE_SIZE :: u64 where
  "PAGE_SIZE = 0x1000"

text \<open>
  The fields of \<^verbatim>\<open>mm_state\<close> the allocator touches. \<open>physical_bitmap\<close> has
  \<^verbatim>\<open>bitmap_size / sizeof(uint32_t)\<close> words; \<open>page_refcounts\<close> is \<open>None\<close> for the
  null pointer it holds until the array has been placed.
\<close>

record mm_state =
  physical_bitmap :: "u32 list"
  total_pages :: u64
  free_pages :: u64
  memory_start :: u64
  memory_end :: u64
  page_refcounts :: "u16 list option"
  g_alloc_hint :: u64

section \<open>Bitmap primitives\<close>

definition set_page_bit :: "u64 \<Rightarrow> mm_state \<Rightarrow> mm_state" where
  "set_page_bit page s =
     (let index = unat (page div 32); b = unat (page mod 32)
      in if index < length (physical_bitmap s)
         then s\<lparr>physical_bitmap := (physical_bitmap s)
                   [index := (physical_bitmap s ! index) OR push_bit b 1]\<rparr>
         else s)"

definition clear_page_bit :: "u64 \<Rightarrow> mm_state \<Rightarrow> mm_state" where
  "clear_page_bit page s =
     (let index = unat (page div 32); b = unat (page mod 32)
      in if index < length (physical_bitmap s)
         then s\<lparr>physical_bitmap := (physical_bitmap s)
                   [index := (physical_bitmap s ! index) AND NOT (push_bit b 1)]\<rparr>
         else s)"

definition is_page_allocated :: "mm_state \<Rightarrow> u64 \<Rightarrow> bool" where
  "is_page_allocated s page =
     (let index = unat (page div 32); b = unat (page mod 32)
      in if index < length (physical_bitmap s)
         then (physical_bitmap s ! index) AND push_bit b 1 \<noteq> 0
         else True)"

section \<open>The search for a free page\<close>

text \<open>The inner loop over the 32 bits of a word, from \<open>b\<close> on.\<close>

function find_zero_bit :: "u32 \<Rightarrow> nat \<Rightarrow> nat option" where
  "find_zero_bit w b =
     (if b < 32
      then if w AND push_bit b 1 = 0 then Some b else find_zero_bit w (Suc b)
      else None)"
  by pat_completeness auto
termination
  by (relation "measure (\<lambda>(w, b). 32 - b)") auto

declare find_zero_bit.simps [simp del]

text \<open>The outer loop over the words \<open>i, ..., n - 1\<close>: the page number found.\<close>

function find_free_word :: "u32 list \<Rightarrow> nat \<Rightarrow> nat \<Rightarrow> nat option" where
  "find_free_word bm i n =
     (if i < n
      then if bm ! i \<noteq> 0xFFFFFFFF
           then case find_zero_bit (bm ! i) 0 of
                  Some b \<Rightarrow> Some (i * 32 + b)
                | None \<Rightarrow> find_free_word bm (Suc i) n
           else find_free_word bm (Suc i) n
      else None)"
  by pat_completeness auto
termination
  by (relation "measure (\<lambda>(bm, i, n). n - i)") auto

declare find_free_word.simps [simp del]

text \<open>
  \<open>find_free_page\<close>: from the hint's word to the end, then from the start to the
  hint's word. The C value \<open>(uint64_t)-1\<close> is \<open>None\<close>.
\<close>

definition find_free_page :: "mm_state \<Rightarrow> u64 option \<times> mm_state" where
  "find_free_page s =
     (let num_words = length (physical_bitmap s);
          start = unat (g_alloc_hint s div 32)
      in case find_free_word (physical_bitmap s) start num_words of
           Some page \<Rightarrow> (Some (of_nat page), s\<lparr>g_alloc_hint := of_nat page + 1\<rparr>)
         | None \<Rightarrow>
             (case find_free_word (physical_bitmap s) 0 start of
                Some page \<Rightarrow> (Some (of_nat page), s\<lparr>g_alloc_hint := of_nat page + 1\<rparr>)
              | None \<Rightarrow> (None, s)))"

section \<open>Single pages\<close>

definition clear_refcount :: "u64 \<Rightarrow> mm_state \<Rightarrow> mm_state" where
  "clear_refcount page s =
     (case page_refcounts s of
        None \<Rightarrow> s
      | Some rc \<Rightarrow> s\<lparr>page_refcounts := Some (rc[unat page := 0])\<rparr>)"

definition mm_allocate_physical_page :: "mm_state \<Rightarrow> u64 \<times> mm_state" where
  "mm_allocate_physical_page s =
     (if free_pages s = 0 then (0, s)
      else case find_free_page s of
             (None, s1) \<Rightarrow> (0, s1)
           | (Some page, s1) \<Rightarrow>
               (let s2 = set_page_bit page s1;
                    s3 = s2\<lparr>free_pages := free_pages s2 - 1\<rparr>;
                    phys = memory_start s3 + page * PAGE_SIZE
                in (phys, clear_refcount page s3)))"

definition mm_free_physical_page :: "u64 \<Rightarrow> mm_state \<Rightarrow> mm_state" where
  "mm_free_physical_page physical_address s =
     (if physical_address < memory_start s \<or> physical_address \<ge> memory_end s then s
      else let page = (physical_address - memory_start s) div PAGE_SIZE
           in if \<not> is_page_allocated s page then s
              else let s1 = clear_page_bit page s;
                       s2 = s1\<lparr>free_pages := free_pages s1 + 1\<rparr>;
                       s3 = (if page < g_alloc_hint s2 then s2\<lparr>g_alloc_hint := page\<rparr> else s2)
                   in clear_refcount page s3)"

definition reserve_physical_page :: "u64 \<Rightarrow> mm_state \<Rightarrow> mm_state" where
  "reserve_physical_page phys_addr s =
     (if phys_addr < memory_start s \<or> phys_addr \<ge> memory_end s then s
      else let page = (phys_addr - memory_start s) div PAGE_SIZE
           in if page < total_pages s \<and> \<not> is_page_allocated s page
              then let s1 = set_page_bit page s in s1\<lparr>free_pages := free_pages s1 - 1\<rparr>
              else s)"

section \<open>Contiguous runs\<close>

text \<open>The check loop: no page of \<open>start_page + i, ..., start_page + n - 1\<close> is allocated.\<close>

fun range_is_free :: "mm_state \<Rightarrow> u64 \<Rightarrow> nat \<Rightarrow> nat \<Rightarrow> bool" where
  "range_is_free s start_page i 0 = True"
| "range_is_free s start_page i (Suc n) =
     (if is_page_allocated s (start_page + of_nat i) then False
      else range_is_free s start_page (Suc i) n)"

fun take_range :: "u64 \<Rightarrow> nat \<Rightarrow> nat \<Rightarrow> mm_state \<Rightarrow> mm_state" where
  "take_range start_page i 0 s = s"
| "take_range start_page i (Suc n) s =
     (let s1 = set_page_bit (start_page + of_nat i) s
      in take_range start_page (Suc i) n (s1\<lparr>free_pages := free_pages s1 - 1\<rparr>))"

text \<open>The outer loop tries \<open>start_page, start_page + 1, ...\<close>; \<open>k\<close> candidates are left.\<close>

fun find_contiguous :: "mm_state \<Rightarrow> nat \<Rightarrow> u64 \<Rightarrow> nat \<Rightarrow> u64 option" where
  "find_contiguous s page_count start_page 0 = None"
| "find_contiguous s page_count start_page (Suc k) =
     (if range_is_free s start_page 0 page_count then Some start_page
      else find_contiguous s page_count (start_page + 1) k)"

definition mm_allocate_contiguous_pages :: "u64 \<Rightarrow> mm_state \<Rightarrow> u64 \<times> mm_state" where
  "mm_allocate_contiguous_pages page_count s =
     (if page_count = 0 then (0, s)
      else if free_pages s < page_count then (0, s)
      else if page_count > total_pages s then (0, s)
      else case find_contiguous s (unat page_count) 0 (Suc (unat (total_pages s - page_count))) of
             None \<Rightarrow> (0, s)
           | Some start_page \<Rightarrow>
               (memory_start s + start_page * PAGE_SIZE,
                take_range start_page 0 (unat page_count) s))"

fun free_run :: "u64 \<Rightarrow> nat \<Rightarrow> nat \<Rightarrow> mm_state \<Rightarrow> mm_state" where
  "free_run physical_address i 0 s = s"
| "free_run physical_address i (Suc n) s =
     free_run physical_address (Suc i) n
       (mm_free_physical_page (physical_address + of_nat i * PAGE_SIZE) s)"

definition mm_free_contiguous_pages :: "u64 \<Rightarrow> u64 \<Rightarrow> mm_state \<Rightarrow> mm_state" where
  "mm_free_contiguous_pages physical_address page_count s =
     free_run physical_address 0 (unat page_count) s"

section \<open>Reference counts for copy-on-write\<close>

definition page_to_index :: "mm_state \<Rightarrow> u64 \<Rightarrow> u64 option" where
  "page_to_index s phys_addr =
     (if phys_addr < memory_start s \<or> phys_addr \<ge> memory_end s then None
      else Some ((phys_addr - memory_start s) div PAGE_SIZE))"

text \<open>
  The counting functions dereference \<^verbatim>\<open>page_refcounts\<close> without a null check;
  before the array is placed that is a fault, the value \<open>None\<close> here.
\<close>

definition mm_incref_page :: "u64 \<Rightarrow> mm_state \<Rightarrow> mm_state option" where
  "mm_incref_page phys_addr s =
     (case page_to_index s phys_addr of
        None \<Rightarrow> Some s
      | Some idx \<Rightarrow>
          (case page_refcounts s of
             None \<Rightarrow> None
           | Some rc \<Rightarrow>
               (let old = rc ! unat idx
                in Some (if old < 0xFFFF
                         then s\<lparr>page_refcounts := Some (rc[unat idx := old + 1])\<rparr>
                         else s))))"

definition mm_decref_page :: "u64 \<Rightarrow> mm_state \<Rightarrow> (bool \<times> mm_state) option" where
  "mm_decref_page phys_addr s =
     (case page_to_index s phys_addr of
        None \<Rightarrow> Some (False, s)
      | Some idx \<Rightarrow>
          (case page_refcounts s of
             None \<Rightarrow> None
           | Some rc \<Rightarrow>
               (let current = rc ! unat idx
                in Some (if current = 0 then (True, s)
                         else (current = 1,
                               s\<lparr>page_refcounts := Some (rc[unat idx := current - 1])\<rparr>)))))"

definition mm_get_page_refcount :: "mm_state \<Rightarrow> u64 \<Rightarrow> u16 option" where
  "mm_get_page_refcount s phys_addr =
     (case page_to_index s phys_addr of
        None \<Rightarrow> Some 0
      | Some idx \<Rightarrow> map_option (\<lambda>rc. rc ! unat idx) (page_refcounts s))"


section \<open>The bitmap as a set of pages\<close>

text \<open>Page number \<open>p\<close> is marked in use; numbers outside the bitmap count as used.\<close>

definition page_used :: "mm_state \<Rightarrow> nat \<Rightarrow> bool" where
  "page_used s p =
     (p div 32 < length (physical_bitmap s) \<longrightarrow> bit (physical_bitmap s ! (p div 32)) (p mod 32))"

abbreviation num_bits :: "mm_state \<Rightarrow> nat" where
  "num_bits s \<equiv> 32 * length (physical_bitmap s)"

lemma div32_less_iff: "p div 32 < n \<longleftrightarrow> p < 32 * (n :: nat)"
  by (simp add: div_less_iff_less_mult mult.commute)

lemma page_used_beyond [simp]: "num_bits s \<le> p \<Longrightarrow> page_used s p"
  by (simp add: page_used_def div32_less_iff)

lemma unat_div_mod_32 [simp]:
  "unat ((page :: u64) div 32) = unat page div 32"
  "unat ((page :: u64) mod 32) = unat page mod 32"
  by (simp_all add: unat_div unat_mod)

lemma is_page_allocated_iff: "is_page_allocated s page \<longleftrightarrow> page_used s (unat page)"
  by (simp add: is_page_allocated_def page_used_def Let_def bit_idioms)

lemma set_page_bit_frame [simp]:
  "length (physical_bitmap (set_page_bit page s)) = length (physical_bitmap s)"
  "total_pages (set_page_bit page s) = total_pages s"
  "free_pages (set_page_bit page s) = free_pages s"
  "memory_start (set_page_bit page s) = memory_start s"
  "memory_end (set_page_bit page s) = memory_end s"
  "page_refcounts (set_page_bit page s) = page_refcounts s"
  "g_alloc_hint (set_page_bit page s) = g_alloc_hint s"
  by (simp_all add: set_page_bit_def Let_def)

lemma clear_page_bit_frame [simp]:
  "length (physical_bitmap (clear_page_bit page s)) = length (physical_bitmap s)"
  "total_pages (clear_page_bit page s) = total_pages s"
  "free_pages (clear_page_bit page s) = free_pages s"
  "memory_start (clear_page_bit page s) = memory_start s"
  "memory_end (clear_page_bit page s) = memory_end s"
  "page_refcounts (clear_page_bit page s) = page_refcounts s"
  "g_alloc_hint (clear_page_bit page s) = g_alloc_hint s"
  by (simp_all add: clear_page_bit_def Let_def)

lemma clear_refcount_frame [simp]:
  "physical_bitmap (clear_refcount page s) = physical_bitmap s"
  "total_pages (clear_refcount page s) = total_pages s"
  "free_pages (clear_refcount page s) = free_pages s"
  "memory_start (clear_refcount page s) = memory_start s"
  "memory_end (clear_refcount page s) = memory_end s"
  "g_alloc_hint (clear_refcount page s) = g_alloc_hint s"
  by (simp_all add: clear_refcount_def split: option.split)

lemma same_div_mod_32: "p div 32 = q div 32 \<Longrightarrow> p mod 32 = q mod 32 \<Longrightarrow> p = (q :: nat)"
  by (metis div_mult_mod_eq)

lemma page_used_set [simp]:
  "page_used (set_page_bit page s) p \<longleftrightarrow> page_used s p \<or> p = unat page"
proof (cases "unat page div 32 < length (physical_bitmap s)")
  case True
  then show ?thesis
    by (auto simp: page_used_def set_page_bit_def Let_def nth_list_update bit_idioms
        dest: same_div_mod_32)
next
  case False
  then show ?thesis by (auto simp: page_used_def set_page_bit_def Let_def)
qed

lemma page_used_clear [simp]:
  "page_used (clear_page_bit page s) p \<longleftrightarrow>
     page_used s p \<and> (p = unat page \<longrightarrow> num_bits s \<le> p)"
proof (cases "unat page div 32 < length (physical_bitmap s)")
  case True
  then show ?thesis
    by (auto simp: page_used_def clear_page_bit_def Let_def nth_list_update bit_idioms
        div32_less_iff dest: same_div_mod_32)
next
  case False
  then show ?thesis
    by (auto simp: page_used_def clear_page_bit_def Let_def div32_less_iff)
qed

lemma page_used_cong:
  "physical_bitmap s = physical_bitmap t \<Longrightarrow> page_used s p = page_used t p"
  by (simp add: page_used_def)

lemma page_used_upd [simp]:
  "page_used (s\<lparr>free_pages := x\<rparr>) p = page_used s p"
  "page_used (s\<lparr>g_alloc_hint := x\<rparr>) p = page_used s p"
  "page_used (s\<lparr>page_refcounts := r\<rparr>) p = page_used s p"
  "page_used (clear_refcount page s) p = page_used s p"
  by (simp_all add: page_used_def)

text \<open>The free pages, as a list and by their number.\<close>

definition free_list :: "mm_state \<Rightarrow> nat list" where
  "free_list s = filter (\<lambda>p. \<not> page_used s p) [0..<num_bits s]"

lemma set_free_list: "p \<in> set (free_list s) \<longleftrightarrow> \<not> page_used s p"
  by (auto simp: free_list_def intro: ccontr [of "p < num_bits s"])

lemma distinct_free_list [simp]: "distinct (free_list s)"
  by (simp add: free_list_def)

lemma free_list_set_bit:
  assumes "\<not> page_used s (unat page)"
  shows "length (free_list s) = Suc (length (free_list (set_page_bit page s)))"
proof -
  have "unat page < num_bits s"
    using assms by (meson leI page_used_beyond)
  then show ?thesis
    unfolding free_list_def set_page_bit_frame
    using assms by (intro filter_change_one [where x = "unat page"]) auto
qed

lemma free_list_clear_bit:
  assumes "page_used s (unat page)" and "unat page < num_bits s"
  shows "length (free_list (clear_page_bit page s)) = Suc (length (free_list s))"
  unfolding free_list_def clear_page_bit_frame
  using assms by (intro filter_change_one [where x = "unat page"]) auto

section \<open>The search is sound and complete\<close>

lemma find_zero_bit_Some:
  assumes "find_zero_bit w b = Some c"
  shows "b \<le> c \<and> c < 32 \<and> \<not> bit w c"
  using assms
proof (induction w b rule: find_zero_bit.induct)
  case (1 w b)
  then show ?case
    by (subst (asm) (2) find_zero_bit.simps)
      (auto simp: bit_idioms split: if_splits dest: Suc_leD)
qed

lemma find_zero_bit_None:
  assumes "find_zero_bit w b = None" and "b \<le> c" and "c < 32"
  shows "bit w c"
  using assms
proof (induction w b rule: find_zero_bit.induct)
  case (1 w b)
  from "1.prems" have b: "b < 32" and nz: "w AND push_bit b 1 \<noteq> 0"
    and rest: "find_zero_bit w (Suc b) = None"
    by (auto simp: find_zero_bit.simps [of w b] split: if_splits)
  show ?case
  proof (cases "c = b")
    case True
    with nz show ?thesis by (simp add: bit_idioms)
  next
    case False
    with "1.prems" have "Suc b \<le> c" by simp
    with "1.IH" b nz rest "1.prems" show ?thesis by simp
  qed
qed

lemma find_free_word_Some:
  assumes "find_free_word bm i n = Some p"
  shows "i \<le> p div 32 \<and> p div 32 < n \<and> \<not> bit (bm ! (p div 32)) (p mod 32)"
  using assms
proof (induction bm i n rule: find_free_word.induct)
  case (1 bm i n)
  then show ?case
    by (subst (asm) (2) find_free_word.simps)
      (auto split: if_splits option.splits dest!: find_zero_bit_Some dest: Suc_leD)
qed

lemma word32_all_ones: "w = (0xFFFFFFFF :: u32) \<longleftrightarrow> (\<forall>b < 32. bit w b)"
proof -
  have ones: "(0xFFFFFFFF :: u32) = - 1" by simp
  show ?thesis unfolding ones using word_all_ones_iff [of w] by simp
qed

lemma find_free_word_None:
  assumes "find_free_word bm i n = None" and "i \<le> p div 32" and "p div 32 < n"
  shows "bit (bm ! (p div 32)) (p mod 32)"
  using assms
proof (induction bm i n rule: find_free_word.induct)
  case (1 bm i n)
  have lt: "i < n" using "1.prems" by linarith
  have full: "\<forall>b < 32. bit (bm ! i) b"
    using "1.prems"(1) lt
    by (auto simp: find_free_word.simps [of bm i n] word32_all_ones
        split: if_splits option.splits intro: find_zero_bit_None)
  have rest: "find_free_word bm (Suc i) n = None"
    using "1.prems"(1) lt
    by (auto simp: find_free_word.simps [of bm i n] split: if_splits option.splits)
  show ?case
  proof (cases "p div 32 = i")
    case True
    with full show ?thesis by simp
  next
    case False
    with "1.prems" have ge: "Suc i \<le> p div 32" by simp
    have "bm ! i = 0xFFFFFFFF" using full by (simp add: word32_all_ones)
    with "1.IH"(2) lt rest ge "1.prems"(3) show ?thesis by simp
  qed
qed


section \<open>The allocator's invariant\<close>

text \<open>
  What initialisation establishes (\<^verbatim>\<open>mm_initialize_physical_memory\<close> starts with every
  bit set, manages at most 16 GiB from 32 MiB up and frees usable pages only):
  the counter counts the clear bits, clear bits are below \<open>total_pages\<close>, every
  managed page lies below \<open>memory_end\<close> in the range a page-table entry can address,
  page addresses are aligned, and the hint stays inside the bitmap.
\<close>

definition phys_inv :: "mm_state \<Rightarrow> bool" where
  "phys_inv s \<longleftrightarrow>
     num_bits s < 2 ^ 40 \<and>
     unat (total_pages s) \<le> num_bits s \<and>
     (\<forall>p \<ge> unat (total_pages s). page_used s p) \<and>
     unat (free_pages s) = length (free_list s) \<and>
     unat (g_alloc_hint s) \<le> num_bits s \<and>
     0 < unat (memory_start s) \<and> 4096 dvd unat (memory_start s) \<and>
     unat (memory_end s) \<le> 2 ^ 52 \<and>
     unat (memory_start s) + unat (total_pages s) * 4096 \<le> unat (memory_end s) \<and>
     (\<forall>rc. page_refcounts s = Some rc \<longrightarrow> length rc = unat (total_pages s))"

text \<open>The physical address of page \<open>p\<close>, and the pages handed out.\<close>

definition page_addr :: "mm_state \<Rightarrow> nat \<Rightarrow> u64" where
  "page_addr s p = memory_start s + of_nat p * PAGE_SIZE"

lemma unat_PAGE_SIZE [simp]: "unat PAGE_SIZE = 4096"
  by (simp add: PAGE_SIZE_def)

lemma unat_page_addr:
  assumes "phys_inv s" and "p < unat (total_pages s)"
  shows "unat (page_addr s p) = unat (memory_start s) + p * 4096"
proof -
  have bound: "unat (memory_start s) + p * 4096 < 2 ^ 64"
    using assms unat_lt_2p [of "memory_end s"] unfolding phys_inv_def by simp
  then have p: "unat (of_nat p :: u64) = p" by (intro unat_of_nat_small) simp
  with bound have m: "unat (of_nat p * PAGE_SIZE) = p * 4096"
    by (subst unat_times_no_wrap) auto
  with bound show ?thesis
    unfolding page_addr_def by (subst unat_plus_no_wrap) auto
qed

lemma page_addr_managed:
  assumes "phys_inv s" and "p < unat (total_pages s)"
  shows "\<not> page_addr s p < memory_start s" and "page_addr s p < memory_end s"
    and "page_addr s p \<noteq> 0"
    and "unat ((page_addr s p - memory_start s) div PAGE_SIZE) = p"
proof -
  note u = unat_page_addr [OF assms]
  have "unat (memory_start s) + p * 4096 < unat (memory_end s)"
    using assms unfolding phys_inv_def by simp
  with u show "\<not> page_addr s p < memory_start s" and "page_addr s p < memory_end s"
    by (simp_all add: word_less_nat_alt)
  show "page_addr s p \<noteq> 0"
    using u assms unfolding phys_inv_def by auto
  have "unat (page_addr s p - memory_start s) = p * 4096"
    using u by (subst unat_minus_no_wrap) auto
  then show "unat ((page_addr s p - memory_start s) div PAGE_SIZE) = p"
    by (simp add: unat_div)
qed

lemma page_addr_inj:
  assumes "phys_inv s" and "p < unat (total_pages s)" and "q < unat (total_pages s)"
    and "page_addr s p = page_addr s q"
  shows "p = q"
  using page_addr_managed(4) assms by metis

lemma free_page_less:
  assumes "phys_inv s" and "\<not> page_used s p"
  shows "p < unat (total_pages s)"
  using assms unfolding phys_inv_def by (meson leI)

lemma find_free_page_None:
  assumes "phys_inv s" and "fst (find_free_page s) = None"
  shows "page_used s p"
proof (cases "p < num_bits s")
  case True
  from assms(2) have
    "find_free_word (physical_bitmap s) (unat (g_alloc_hint s) div 32) (length (physical_bitmap s)) = None"
    "find_free_word (physical_bitmap s) 0 (unat (g_alloc_hint s) div 32) = None"
    by (auto simp: find_free_page_def Let_def split: option.splits)
  then show ?thesis
    using find_free_word_None True unfolding page_used_def div32_less_iff [symmetric]
    by (metis le0 leI)
qed simp

lemma find_free_page_Some:
  assumes "phys_inv s" and "find_free_page s = (Some page, s')"
  shows "\<not> page_used s (unat page) \<and> s' = s\<lparr>g_alloc_hint := page + 1\<rparr>"
proof -
  have hint: "unat (g_alloc_hint s) div 32 \<le> length (physical_bitmap s)"
    and small: "num_bits s < 2 ^ 40"
    using assms(1) unfolding phys_inv_def by auto
  obtain p where p: "page = of_nat p" "p div 32 < length (physical_bitmap s)"
      "\<not> bit (physical_bitmap s ! (p div 32)) (p mod 32)"
    and s': "s' = s\<lparr>g_alloc_hint := page + 1\<rparr>"
    using assms(2) hint
    by (auto simp: find_free_page_def Let_def split: option.splits
        dest!: find_free_word_Some)
  from p(2) small have "p < 2 ^ 64" unfolding div32_less_iff by simp
  then have "unat page = p" using p(1) by (simp add: unat_of_nat)
  with p s' show ?thesis by (simp add: page_used_def)
qed

lemma free_list_cong: "physical_bitmap s = physical_bitmap t \<Longrightarrow> free_list s = free_list t"
  unfolding free_list_def by (simp cong: page_used_cong add: page_used_def)

lemma no_free_page_iff:
  assumes "phys_inv s"
  shows "free_pages s = 0 \<longleftrightarrow> (\<forall>p. page_used s p)"
proof -
  have "free_pages s = 0 \<longleftrightarrow> free_list s = []"
    using assms unfolding phys_inv_def by (metis length_0_conv unat_eq_zero)
  also have "\<dots> \<longleftrightarrow> (\<forall>p. page_used s p)"
    using set_free_list [of _ s] by (metis empty_iff empty_set list.set_intros(1) neq_Nil_conv)
  finally show ?thesis .
qed

text \<open>One allocation step, in terms of the page taken.\<close>

lemma allocate_step:
  assumes "phys_inv s" and "free_pages s \<noteq> 0"
  obtains page where "\<not> page_used s (unat page)"
    and "mm_allocate_physical_page s =
      (page_addr s (unat page),
       clear_refcount page ((set_page_bit page (s\<lparr>g_alloc_hint := page + 1\<rparr>))
          \<lparr>free_pages := free_pages s - 1\<rparr>))"
proof -
  have "fst (find_free_page s) \<noteq> None"
    using assms no_free_page_iff find_free_page_None by metis
  then obtain page s' where f: "find_free_page s = (Some page, s')"
    by (cases "find_free_page s") auto
  from find_free_page_Some [OF assms(1) f]
  have "\<not> page_used s (unat page)" and "s' = s\<lparr>g_alloc_hint := page + 1\<rparr>" by auto
  with f assms(2) show ?thesis
    by (intro that [of page])
      (simp_all add: mm_allocate_physical_page_def Let_def page_addr_def)
qed


lemma phys_inv_cong:
  assumes "physical_bitmap s = physical_bitmap t" "total_pages s = total_pages t"
    "free_pages s = free_pages t" "memory_start s = memory_start t" "memory_end s = memory_end t"
    "unat (g_alloc_hint s) \<le> num_bits s \<longleftrightarrow> unat (g_alloc_hint t) \<le> num_bits t"
    "map_option length (page_refcounts s) = map_option length (page_refcounts t)"
  shows "phys_inv s \<longleftrightarrow> phys_inv t"
proof -
  have "(\<forall>rc. page_refcounts s = Some rc \<longrightarrow> length rc = n) \<longleftrightarrow>
        (\<forall>rc. page_refcounts t = Some rc \<longrightarrow> length rc = n)" for n
    using assms(7) by (cases "page_refcounts s"; cases "page_refcounts t") auto
  then show ?thesis
    using assms page_used_cong [OF assms(1)] free_list_cong [OF assms(1)]
    unfolding phys_inv_def by simp
qed

lemma phys_inv_clear_refcount [simp]: "phys_inv (clear_refcount page s) \<longleftrightarrow> phys_inv s"
  by (rule phys_inv_cong) (simp_all add: clear_refcount_def split: option.split)

lemma phys_inv_hint:
  "unat h \<le> num_bits s \<Longrightarrow> phys_inv s \<Longrightarrow> phys_inv (s\<lparr>g_alloc_hint := h\<rparr>)"
  by (subst phys_inv_cong [where t = s]) (simp_all add: phys_inv_def)

lemma free_list_upd [simp]:
  "free_list (s\<lparr>free_pages := x\<rparr>) = free_list s"
  "free_list (s\<lparr>g_alloc_hint := h\<rparr>) = free_list s"
  by (rule free_list_cong; simp)+

text \<open>Taking a free page and giving back a used one keep the invariant.\<close>

lemma phys_inv_take:
  assumes "phys_inv s" and "\<not> page_used s (unat page)"
  shows "phys_inv ((set_page_bit page s)\<lparr>free_pages := free_pages s - 1\<rparr>)"
proof -
  have len: "length (free_list s) = Suc (length (free_list (set_page_bit page s)))"
    by (rule free_list_set_bit) fact
  moreover have "unat (free_pages s) = length (free_list s)"
    using assms(1) by (simp add: phys_inv_def)
  ultimately have "unat (free_pages s - 1) = length (free_list (set_page_bit page s))"
    by (subst unat_minus_no_wrap) auto
  with assms(1) show ?thesis unfolding phys_inv_def by auto
qed

lemma phys_inv_give:
  assumes "phys_inv s" and "page_used s (unat page)" and "unat page < unat (total_pages s)"
  shows "phys_inv ((clear_page_bit page s)\<lparr>free_pages := free_pages s + 1\<rparr>)"
proof -
  have nb: "unat page < num_bits s" and small: "num_bits s < 2 ^ 40"
    and cnt: "unat (free_pages s) = length (free_list s)"
    using assms unfolding phys_inv_def by auto
  have len: "length (free_list (clear_page_bit page s)) = Suc (length (free_list s))"
    using assms(2) nb by (rule free_list_clear_bit)
  have "length (free_list s) \<le> num_bits s"
    unfolding free_list_def by (metis length_filter_le length_upt diff_zero)
  with small cnt have "unat (free_pages s + 1) = Suc (unat (free_pages s))"
    by (subst unat_plus_no_wrap) auto
  with len cnt assms show ?thesis unfolding phys_inv_def by auto
qed

section \<open>Correctness of single-page allocation\<close>

lemma refcount_cleared:
  assumes "phys_inv s" and "p < unat (total_pages s)"
  shows "mm_get_page_refcount (clear_refcount (of_nat p) t) (page_addr s p) \<in> {None, Some 0}
    \<or> memory_start t \<noteq> memory_start s \<or> memory_end t \<noteq> memory_end s
    \<or> (\<exists>rc. page_refcounts t = Some rc \<and> length rc \<le> p)"
proof -
  note m = page_addr_managed [OF assms]
  have "num_bits s < 2 ^ 40" "unat (total_pages s) \<le> num_bits s"
    using assms(1) unfolding phys_inv_def by auto
  with assms(2) have "unat (of_nat p :: u64) = p"
    by (intro unat_of_nat_small) simp
  with m show ?thesis
    by (auto simp: mm_get_page_refcount_def page_to_index_def clear_refcount_def
        split: option.splits)
qed

lemma allocate_page_step:
  assumes "phys_inv s" and "mm_allocate_physical_page s = (pa, s')"
  shows "phys_inv s' \<and> (pa = 0 \<longleftrightarrow> (\<forall>p. page_used s p)) \<and> (pa = 0 \<longrightarrow> s' = s) \<and>
    (pa \<noteq> 0 \<longrightarrow> (\<exists>p. \<not> page_used s p \<and> pa = page_addr s p \<and>
       (\<forall>q. page_used s' q \<longleftrightarrow> page_used s q \<or> q = p) \<and>
       mm_get_page_refcount s' pa \<in> {None, Some 0}))"
proof (cases "free_pages s = 0")
  case True
  with assms show ?thesis
    using no_free_page_iff by (auto simp: mm_allocate_physical_page_def)
next
  case False
  from assms(1) False obtain page where free: "\<not> page_used s (unat page)"
    and eq: "mm_allocate_physical_page s = (page_addr s (unat page),
      clear_refcount page ((set_page_bit page (s\<lparr>g_alloc_hint := page + 1\<rparr>))
        \<lparr>free_pages := free_pages s - 1\<rparr>))"
    by (rule allocate_step)
  have lt: "unat page < unat (total_pages s)"
    using assms(1) free by (rule free_page_less)
  moreover have "unat (total_pages s) \<le> num_bits s" "num_bits s < 2 ^ 40"
    using assms(1) unfolding phys_inv_def by auto
  ultimately have "unat (page + 1) \<le> num_bits s"
    by (subst unat_plus_no_wrap) auto
  then have inv: "phys_inv s'"
    using phys_inv_take [of "s\<lparr>g_alloc_hint := page + 1\<rparr>" page] phys_inv_hint assms free eq
    by auto
  have nz: "page_addr s (unat page) \<noteq> 0"
    using page_addr_managed(3) [OF assms(1) lt] .
  have "page_refcounts s = Some rc \<Longrightarrow> unat page < length rc" for rc
    using assms(1) lt unfolding phys_inv_def by auto
  then have "mm_get_page_refcount s' pa \<in> {None, Some 0}"
    using refcount_cleared [OF assms(1) lt, of "(set_page_bit page (s\<lparr>g_alloc_hint := page + 1\<rparr>))
        \<lparr>free_pages := free_pages s - 1\<rparr>"] eq assms(2) by auto
  with inv nz free eq assms(2) show ?thesis by auto
qed

text \<open>
  C3: Single-page allocation is exact. Under the allocator's invariant it
  reports out of memory (address 0) exactly when no page is free; otherwise it
  returns the non-zero address of a page that was free, marks that page and no
  other, leaves it with reference count 0, and keeps the invariant.
\<close>

theorem mm_allocate_physical_page_correct:
  assumes "phys_inv s" and "mm_allocate_physical_page s = (pa, s')"
  shows "phys_inv s' \<and> (pa = 0 \<longleftrightarrow> (\<forall>p. page_used s p)) \<and> (pa = 0 \<longrightarrow> s' = s) \<and>
    (pa \<noteq> 0 \<longrightarrow> (\<exists>p. \<not> page_used s p \<and> pa = page_addr s p \<and>
       (\<forall>q. page_used s' q \<longleftrightarrow> page_used s q \<or> q = p) \<and>
       mm_get_page_refcount s' pa \<in> {None, Some 0}))"
  using allocate_page_step [OF assms] .

text \<open>A small machine: 64 pages from 1 MiB on, all free but page 0.\<close>

definition demo_phys :: mm_state where
  "demo_phys = \<lparr>physical_bitmap = [1, 0], total_pages = 64, free_pages = 63,
     memory_start = 0x100000, memory_end = 0x140000,
     page_refcounts = Some (replicate 64 0), g_alloc_hint = 0\<rparr>"


lemma demo_phys_inv: "phys_inv demo_phys"
proof -
  have "length (free_list demo_phys) = 63" by code_simp
  then show ?thesis by (simp add: phys_inv_def demo_phys_def)
qed

theorem mm_allocate_physical_page_correct_witness:
  "phys_inv (snd (mm_allocate_physical_page demo_phys)) \<and>
   fst (mm_allocate_physical_page demo_phys) = 0x101000"
proof -
  have v: "fst (mm_allocate_physical_page demo_phys) = 0x101000" by code_simp
  have "mm_allocate_physical_page demo_phys =
    (fst (mm_allocate_physical_page demo_phys), snd (mm_allocate_physical_page demo_phys))"
    by simp
  from mm_allocate_physical_page_correct [OF demo_phys_inv this] v show ?thesis by blast
qed

section \<open>Correctness of freeing a page\<close>

lemma free_physical_page_eq:
  assumes "phys_inv s" and "p < unat (total_pages s)"
  shows "\<exists>page h. unat page = p \<and> unat h \<le> num_bits s \<and>
    mm_free_physical_page (page_addr s p) s =
      (if page_used s p
       then clear_refcount page ((clear_page_bit page s)
              \<lparr>free_pages := free_pages s + 1, g_alloc_hint := h\<rparr>)
       else s)"
proof -
  define page where "page = (page_addr s p - memory_start s) div PAGE_SIZE"
  note m = page_addr_managed [OF assms]
  have up: "unat page = p" using m(4) by (simp add: page_def)
  have le: "unat (g_alloc_hint s) \<le> num_bits s" "p \<le> num_bits s"
    using assms unfolding phys_inv_def by auto
  show ?thesis
    using m up le
    by (rule_tac x = page in exI,
        rule_tac x = "if page < g_alloc_hint s then page else g_alloc_hint s" in exI)
      (auto simp: mm_free_physical_page_def Let_def is_page_allocated_iff page_def [symmetric]
        intro!: arg_cong [where f = "clear_refcount _"] mm_state.equality)
qed

lemma free_step:
  assumes "phys_inv s" and "p < unat (total_pages s)"
  shows "phys_inv (mm_free_physical_page (page_addr s p) s)"
    and "page_used (mm_free_physical_page (page_addr s p) s) q \<longleftrightarrow> page_used s q \<and> q \<noteq> p"
    and "page_used s p \<Longrightarrow> free_pages (mm_free_physical_page (page_addr s p) s) = free_pages s + 1"
proof -
  obtain page h where up: "unat page = p" and h: "unat h \<le> num_bits s"
    and eq: "mm_free_physical_page (page_addr s p) s = (if page_used s p
       then clear_refcount page ((clear_page_bit page s)
              \<lparr>free_pages := free_pages s + 1, g_alloc_hint := h\<rparr>)
       else s)"
    using free_physical_page_eq [OF assms] by metis
  have nb: "p < num_bits s" using assms unfolding phys_inv_def by auto
  have "page_used s p \<Longrightarrow> phys_inv ((clear_page_bit page s)\<lparr>free_pages := free_pages s + 1\<rparr>)"
    using phys_inv_give assms up by simp
  then show "phys_inv (mm_free_physical_page (page_addr s p) s)"
    using phys_inv_hint [of h "(clear_page_bit page s)\<lparr>free_pages := free_pages s + 1\<rparr>"]
      h eq assms(1) by simp
  show "page_used (mm_free_physical_page (page_addr s p) s) q \<longleftrightarrow> page_used s q \<and> q \<noteq> p"
    using eq up nb by auto
  show "page_used s p \<Longrightarrow>
      free_pages (mm_free_physical_page (page_addr s p) s) = free_pages s + 1"
    using eq by simp
qed

text \<open>
  Freeing the address of a managed page releases exactly that page: every
  other page keeps its state, the free counter and the rest of the invariant
  stay right, and freeing a page that is already free changes nothing at all.
\<close>

theorem mm_free_physical_page_correct:
  assumes "phys_inv s" and "p < unat (total_pages s)"
    and "mm_free_physical_page (page_addr s p) s = s'"
  shows "phys_inv s' \<and> (\<forall>q. page_used s' q \<longleftrightarrow> page_used s q \<and> q \<noteq> p) \<and>
    (\<not> page_used s p \<longrightarrow> s' = s) \<and>
    (page_used s p \<longrightarrow> free_pages s' = free_pages s + 1)"
proof -
  have "\<not> page_used s p \<Longrightarrow> s' = s"
    using free_physical_page_eq [OF assms(1,2)] assms(3) by auto
  with free_step [OF assms(1,2)] assms(3) show ?thesis by blast
qed

section \<open>Contiguous allocation\<close>

lemma unat_start_plus:
  assumes "m + i < 2 ^ 64"
  shows "unat ((of_nat m :: u64) + of_nat i) = m + i"
  using assms unat_of_nat_small [of "m + i", where 'a = 64] by simp

lemma range_is_free_iff:
  assumes "m + i + n < 2 ^ 64"
  shows "range_is_free s (of_nat m) i n \<longleftrightarrow> (\<forall>k < n. \<not> page_used s (m + i + k))"
  using assms
proof (induction n arbitrary: i)
  case (Suc n)
  have "range_is_free s (of_nat m) (Suc i) n \<longleftrightarrow> (\<forall>k < n. \<not> page_used s (m + i + Suc k))"
    using Suc.prems Suc.IH [of "Suc i"] by simp
  then show ?case
    using Suc.prems
    by (simp add: is_page_allocated_iff unat_start_plus All_less_Suc2)
qed simp


lemma take_range_frame [simp]:
  "length (physical_bitmap (take_range st i n s)) = length (physical_bitmap s)"
  "total_pages (take_range st i n s) = total_pages s"
  "memory_start (take_range st i n s) = memory_start s"
  "memory_end (take_range st i n s) = memory_end s"
  by (induction n arbitrary: i s) (simp_all add: Let_def)

lemma take_range_correct:
  assumes "phys_inv s" and "\<forall>k < n. \<not> page_used s (m + i + k)" and "m + i + n < 2 ^ 64"
  shows "phys_inv (take_range (of_nat m) i n s) \<and>
    (\<forall>q. page_used (take_range (of_nat m) i n s) q \<longleftrightarrow>
         page_used s q \<or> (m + i \<le> q \<and> q < m + i + n)) \<and>
    free_pages (take_range (of_nat m) i n s) = free_pages s - of_nat n"
  using assms
proof (induction n arbitrary: i s)
  case (Suc n)
  define s1 where "s1 = (set_page_bit (of_nat m + of_nat i) s)
    \<lparr>free_pages := free_pages s - 1\<rparr>"
  have u: "unat ((of_nat m :: u64) + of_nat i) = m + i"
    using Suc.prems(3) by (intro unat_start_plus) simp
  have free: "\<not> page_used s (m + i)" using Suc.prems(2) by (metis add_0_right zero_less_Suc)
  have inv: "phys_inv s1"
    unfolding s1_def using Suc.prems(1) free u by (intro phys_inv_take) simp_all
  have used: "page_used s1 q \<longleftrightarrow> page_used s q \<or> q = m + i" for q
    by (simp add: s1_def u)
  have fr: "\<forall>k < n. \<not> page_used s1 (m + Suc i + k)"
  proof (intro allI impI)
    fix k assume "k < n"
    then have "\<not> page_used s (m + i + Suc k)" using Suc.prems(2) by blast
    then show "\<not> page_used s1 (m + Suc i + k)" using used by simp
  qed
  have b: "m + Suc i + n < 2 ^ 64" using Suc.prems(3) by simp
  note IH = Suc.IH [OF inv fr b]
  have step: "take_range (of_nat m) i (Suc n) s = take_range (of_nat m) (Suc i) n s1"
    by (simp add: s1_def Let_def)
  have cnt: "free_pages s1 - of_nat n = free_pages s - of_nat (Suc n)"
    by (simp add: s1_def)
  have rng: "q = m + i \<or> (m + Suc i \<le> q \<and> q < m + Suc i + n) \<longleftrightarrow>
      m + i \<le> q \<and> q < m + i + Suc n" for q
    by linarith
  have "page_used (take_range (of_nat m) (Suc i) n s1) q \<longleftrightarrow>
      page_used s q \<or> (m + i \<le> q \<and> q < m + i + Suc n)" for q
    using IH used [of q] rng [of q] by blast
  with IH cnt show ?case unfolding step by simp
qed auto

lemma find_contiguous_Some:
  assumes "find_contiguous s n (of_nat m) k = Some st" and "m + k + n < 2 ^ 64"
  shows "\<exists>j. m \<le> j \<and> j < m + k \<and> st = of_nat j \<and> (\<forall>i < n. \<not> page_used s (j + i)) \<and>
    (\<forall>j' \<ge> m. j' < j \<longrightarrow> (\<exists>i < n. page_used s (j' + i)))"
  using assms
proof (induction k arbitrary: m)
  case (Suc k)
  show ?case
  proof (cases "range_is_free s (of_nat m) 0 n")
    case True
    with Suc.prems show ?thesis
      by (intro exI [of _ m]) (auto simp: range_is_free_iff)
  next
    case False
    with Suc.prems have rec: "find_contiguous s n (of_nat (Suc m)) k = Some st"
      by (simp add: add.commute)
    then obtain j where j: "Suc m \<le> j" "j < Suc m + k" "st = of_nat j"
        "\<forall>i < n. \<not> page_used s (j + i)"
        "\<forall>j' \<ge> Suc m. j' < j \<longrightarrow> (\<exists>i < n. page_used s (j' + i))"
      using Suc.IH [OF rec] Suc.prems(2) by auto
    moreover have "\<exists>i < n. page_used s (m + i)"
      using False Suc.prems(2) by (simp add: range_is_free_iff)
    ultimately show ?thesis
      by (intro exI [of _ j]) (auto simp: le_eq_less_or_eq [of m] Suc_le_eq)
  qed
qed simp

lemma find_contiguous_None:
  assumes "find_contiguous s n (of_nat m) k = None" and "m + k + n < 2 ^ 64"
    and "m \<le> j" and "j < m + k"
  shows "\<exists>i < n. page_used s (j + i)"
  using assms
proof (induction k arbitrary: m)
  case (Suc k)
  from Suc.prems have "\<not> range_is_free s (of_nat m) 0 n"
    and rec: "find_contiguous s n (of_nat (Suc m)) k = None"
    by (auto simp: add.commute split: if_splits)
  then have "\<exists>i < n. page_used s (m + i)"
    using Suc.prems(2) by (simp add: range_is_free_iff)
  with Suc.IH [OF rec] Suc.prems show ?case
    by (cases "j = m") auto
qed simp


text \<open>A run of \<open>n\<close> free pages starts at \<open>m\<close>.\<close>

definition free_run_at :: "mm_state \<Rightarrow> nat \<Rightarrow> nat \<Rightarrow> bool" where
  "free_run_at s m n \<longleftrightarrow> (\<forall>k < n. \<not> page_used s (m + k))"

lemma free_run_within:
  assumes "phys_inv s" and "free_run_at s m n" and "0 < n"
  shows "m + n \<le> unat (total_pages s)"
proof -
  from assms(2,3) have "\<not> page_used s (m + (n - 1))"
    unfolding free_run_at_def by (metis diff_less zero_less_one)
  with free_page_less assms(1) have "m + (n - 1) < unat (total_pages s)" by blast
  with assms(3) show ?thesis by simp
qed

lemma free_run_count:
  assumes "phys_inv s" and "free_run_at s m n"
  shows "n \<le> unat (free_pages s)"
proof -
  have "set [m..<m + n] \<subseteq> set (free_list s)"
  proof
    fix q assume "q \<in> set [m..<m + n]"
    then have "q = m + (q - m)" and "q - m < n" by auto
    with assms(2) show "q \<in> set (free_list s)"
      unfolding set_free_list free_run_at_def by metis
  qed
  then have "n \<le> length (free_list s)"
    by (metis List.finite_set card_mono distinct_card distinct_free_list distinct_upt
        length_upt add_diff_cancel_left')
  with assms(1) show ?thesis by (simp add: phys_inv_def)
qed

lemma contiguous_step:
  assumes "phys_inv s" and "mm_allocate_contiguous_pages page_count s = (pa, s')"
  shows "phys_inv s' \<and> (pa = 0 \<longrightarrow> s' = s) \<and>
    (pa = 0 \<longleftrightarrow> page_count = 0 \<or> \<not> (\<exists>m. free_run_at s m (unat page_count))) \<and>
    (pa \<noteq> 0 \<longrightarrow> (\<exists>m. pa = page_addr s m \<and> free_run_at s m (unat page_count) \<and>
       (\<forall>m' < m. \<not> free_run_at s m' (unat page_count)) \<and>
       (\<forall>q. page_used s' q \<longleftrightarrow> page_used s q \<or> (m \<le> q \<and> q < m + unat page_count)) \<and>
       free_pages s' = free_pages s - page_count))"
proof (cases "page_count = 0 \<or> free_pages s < page_count \<or> total_pages s < page_count")
  case True
  have "page_count = 0 \<or> \<not> (\<exists>m. free_run_at s m (unat page_count))"
  proof (rule ccontr)
    assume "\<not> ?thesis"
    then obtain m where nz: "page_count \<noteq> 0" and r: "free_run_at s m (unat page_count)" by auto
    have "unat page_count \<le> unat (free_pages s)" by (rule free_run_count [OF assms(1) r])
    moreover have "m + unat page_count \<le> unat (total_pages s)"
      using free_run_within [OF assms(1) r] nz by (simp add: unat_gt_0)
    ultimately show False using True nz by (auto simp: word_less_nat_alt)
  qed
  moreover have "pa = 0" "s' = s"
    using True assms(2) by (auto simp: mm_allocate_contiguous_pages_def split: if_splits)
  ultimately show ?thesis using assms(1) by simp
next
  case False
  define n where "n = unat page_count"
  define K where "K = Suc (unat (total_pages s - page_count))"
  have npos: "0 < n" using False by (simp add: n_def unat_gt_0)
  have le: "n \<le> unat (total_pages s)" using False by (simp add: n_def word_less_nat_alt)
  have K: "K = Suc (unat (total_pages s) - n)"
    unfolding K_def n_def using le by (simp add: unat_minus_no_wrap n_def)
  have small: "unat (total_pages s) < 2 ^ 40" using assms(1) unfolding phys_inv_def by auto
  have bound: "0 + K + n < 2 ^ 64" using K le small by simp
  have run: "(case find_contiguous s n (of_nat 0) K of
      None \<Rightarrow> (0, s)
    | Some start_page \<Rightarrow> (memory_start s + start_page * PAGE_SIZE, take_range start_page 0 n s))
    = (pa, s')"
    using assms(2) False unfolding mm_allocate_contiguous_pages_def n_def K_def
    by (simp del: find_contiguous.simps)
  show ?thesis
  proof (cases "find_contiguous s n (of_nat 0) K")
    case None
    have "\<not> free_run_at s m n" for m
    proof
      assume r: "free_run_at s m n"
      with free_run_within [OF assms(1) r npos] have "m < K" using K by simp
      with find_contiguous_None [OF None bound, of m] r show False
        by (auto simp: free_run_at_def)
    qed
    with None run assms(1) show ?thesis by (simp add: n_def)
  next
    case (Some st)
    obtain j where j: "j < K" "st = of_nat j" "free_run_at s j n"
        "\<forall>j' < j. \<not> free_run_at s j' n"
      using find_contiguous_Some [OF Some bound] by (auto simp: free_run_at_def)
    have jn: "j + n \<le> unat (total_pages s)" using j(1) K le by simp
    with small have b2: "j + 0 + n < 2 ^ 64" by simp
    have res: "pa = page_addr s j" "s' = take_range (of_nat j) 0 n s"
      using run Some j(2) by (simp_all add: page_addr_def)
    have nz: "pa \<noteq> 0" using page_addr_managed(3) [OF assms(1), of j] jn npos res by simp
    have "free_pages s - of_nat n = free_pages s - page_count" by (simp add: n_def)
    moreover have "\<forall>k < n. \<not> page_used s (j + 0 + k)" using j(3) by (simp add: free_run_at_def)
    note take_range_correct [OF assms(1) this b2]
    ultimately show ?thesis
      using j(3,4) res nz False unfolding n_def by auto
  qed
qed

text \<open>
  C22: Contiguous allocation is exact first fit. It fails (returns 0, state
  unchanged) exactly when the request is for 0 pages or no run of that many
  free pages exists; otherwise it takes the lowest such run, marks exactly the
  pages of that run, and keeps the invariant.
\<close>

theorem mm_allocate_contiguous_pages_correct:
  assumes "phys_inv s" and "mm_allocate_contiguous_pages page_count s = (pa, s')"
  shows "phys_inv s' \<and> (pa = 0 \<longrightarrow> s' = s) \<and>
    (pa = 0 \<longleftrightarrow> page_count = 0 \<or> \<not> (\<exists>m. free_run_at s m (unat page_count))) \<and>
    (pa \<noteq> 0 \<longrightarrow> (\<exists>m. pa = page_addr s m \<and> free_run_at s m (unat page_count) \<and>
       (\<forall>m' < m. \<not> free_run_at s m' (unat page_count)) \<and>
       (\<forall>q. page_used s' q \<longleftrightarrow> page_used s q \<or> (m \<le> q \<and> q < m + unat page_count)) \<and>
       free_pages s' = free_pages s - page_count))"
  using contiguous_step [OF assms] .

theorem mm_allocate_contiguous_pages_correct_witness:
  "phys_inv (snd (mm_allocate_contiguous_pages 3 demo_phys)) \<and>
   fst (mm_allocate_contiguous_pages 3 demo_phys) = 0x101000"
proof -
  have v: "fst (mm_allocate_contiguous_pages 3 demo_phys) = 0x101000" by code_simp
  have "mm_allocate_contiguous_pages 3 demo_phys =
    (fst (mm_allocate_contiguous_pages 3 demo_phys), snd (mm_allocate_contiguous_pages 3 demo_phys))"
    by simp
  from mm_allocate_contiguous_pages_correct [OF demo_phys_inv this] v show ?thesis by blast
qed


section \<open>Contiguous runs can be given back\<close>

lemma mm_free_physical_page_frame [simp]:
  "length (physical_bitmap (mm_free_physical_page a s)) = length (physical_bitmap s)"
  "total_pages (mm_free_physical_page a s) = total_pages s"
  "memory_start (mm_free_physical_page a s) = memory_start s"
  "memory_end (mm_free_physical_page a s) = memory_end s"
  by (simp_all add: mm_free_physical_page_def Let_def)

lemma page_addr_cong: "memory_start s = memory_start t \<Longrightarrow> page_addr s p = page_addr t p"
  by (simp add: page_addr_def)

lemma page_addr_plus: "page_addr s m + of_nat i * PAGE_SIZE = page_addr s (m + i)"
  by (simp add: page_addr_def algebra_simps)

lemma free_run_correct:
  assumes "phys_inv s" and "m + i + n \<le> unat (total_pages s)"
    and "\<forall>q. m + i \<le> q \<and> q < m + i + n \<longrightarrow> page_used s q"
  shows "phys_inv (free_run (page_addr s m) i n s) \<and>
    (\<forall>q. page_used (free_run (page_addr s m) i n s) q \<longleftrightarrow>
         page_used s q \<and> \<not> (m + i \<le> q \<and> q < m + i + n)) \<and>
    free_pages (free_run (page_addr s m) i n s) = free_pages s + of_nat n"
  using assms
proof (induction n arbitrary: i s)
  case (Suc n)
  define s1 where "s1 = mm_free_physical_page (page_addr s (m + i)) s"
  have lt: "m + i < unat (total_pages s)" using Suc.prems(2) by simp
  have used: "page_used s (m + i)" using Suc.prems(3) by simp
  note st = free_step [OF Suc.prems(1) lt, folded s1_def]
  have pa: "page_addr s m = page_addr s1 m" by (rule page_addr_cong) (simp add: s1_def)
  have step: "free_run (page_addr s m) i (Suc n) s = free_run (page_addr s1 m) (Suc i) n s1"
    unfolding free_run.simps page_addr_plus s1_def [symmetric] pa [symmetric] ..
  have b: "m + Suc i + n \<le> unat (total_pages s1)" using Suc.prems(2) by (simp add: s1_def)
  have fr: "\<forall>q. m + Suc i \<le> q \<and> q < m + Suc i + n \<longrightarrow> page_used s1 q"
    using Suc.prems(3) st(2) by auto
  note IH = Suc.IH [OF st(1) b fr]
  have rng: "q \<noteq> m + i \<and> \<not> (m + Suc i \<le> q \<and> q < m + Suc i + n) \<longleftrightarrow>
      \<not> (m + i \<le> q \<and> q < m + i + Suc n)" for q
    by linarith
  have "page_used (free_run (page_addr s1 m) (Suc i) n s1) q \<longleftrightarrow>
      page_used s q \<and> \<not> (m + i \<le> q \<and> q < m + i + Suc n)" for q
    using IH st(2) [of q] rng [of q] by blast
  with IH st(3) [OF used] show ?case unfolding step by (simp add: algebra_simps)
qed auto

lemma mm_allocate_contiguous_pages_frame:
  assumes "mm_allocate_contiguous_pages n s = (pa, s')"
  shows "total_pages s' = total_pages s \<and> memory_start s' = memory_start s"
  using assms by (auto simp: mm_allocate_contiguous_pages_def split: if_splits option.splits)

section \<open>The page-source interface\<close>

text \<open>
  What the users of the page allocator rely on: an allocation either fails and
  changes nothing or hands out an address not in use, and freeing releases
  exactly the address given.
\<close>

locale page_source =
  fixes alloc :: "'s \<Rightarrow> u64 \<times> 's"
    and free :: "u64 \<Rightarrow> 's \<Rightarrow> 's"
    and used :: "'s \<Rightarrow> u64 set"
    and inv :: "'s \<Rightarrow> bool"
  assumes alloc_inv: "inv s \<Longrightarrow> alloc s = (a, s') \<Longrightarrow> inv s'"
    and alloc_fresh: "inv s \<Longrightarrow> alloc s = (a, s') \<Longrightarrow> a \<noteq> 0 \<Longrightarrow> a \<notin> used s"
    and alloc_used: "inv s \<Longrightarrow> alloc s = (a, s') \<Longrightarrow> a \<noteq> 0 \<Longrightarrow> used s' = insert a (used s)"
    and alloc_fail: "inv s \<Longrightarrow> alloc s = (0, s') \<Longrightarrow> s' = s"
    and free_inv: "inv s \<Longrightarrow> a \<in> used s \<Longrightarrow> inv (free a s)"
    and free_used: "inv s \<Longrightarrow> a \<in> used s \<Longrightarrow> used (free a s) = used s - {a}"
begin

text \<open>A page held across another allocation is not handed out again.\<close>

lemma alloc_alloc_distinct:
  assumes "inv s" "alloc s = (a, s')" "a \<noteq> 0" "alloc s' = (b, s'')" "b \<noteq> 0"
  shows "a \<noteq> b"
  using assms alloc_inv alloc_used alloc_fresh by (metis insertI1)

text \<open>Giving a page straight back restores the set of pages in use.\<close>

lemma alloc_free_used:
  assumes "inv s" "alloc s = (a, s')" "a \<noteq> 0"
  shows "inv (free a s') \<and> used (free a s') = used s"
proof -
  have "inv s'" and u: "used s' = insert a (used s)" and "a \<notin> used s"
    using assms alloc_inv alloc_used alloc_fresh by blast+
  then show ?thesis using free_inv free_used by auto
qed

end

definition used_frames :: "mm_state \<Rightarrow> u64 set" where
  "used_frames s = {page_addr s p | p. p < unat (total_pages s) \<and> page_used s p}"

lemma mm_allocate_physical_page_frame:
  assumes "phys_inv s" and "mm_allocate_physical_page s = (a, s')"
  shows "total_pages s' = total_pages s \<and> memory_start s' = memory_start s \<and>
    memory_end s' = memory_end s"
proof (cases "free_pages s = 0")
  case True
  with assms show ?thesis by (simp add: mm_allocate_physical_page_def)
next
  case False
  with assms show ?thesis by (auto elim!: allocate_step)
qed

lemma page_used_managed_frames:
  assumes "phys_inv s" and "p < unat (total_pages s)"
  shows "page_addr s p \<in> used_frames s \<longleftrightarrow> page_used s p"
  using assms page_addr_inj by (auto simp: used_frames_def)

interpretation pages: page_source mm_allocate_physical_page mm_free_physical_page used_frames phys_inv
proof unfold_locales
  fix s a s'
  assume inv: "phys_inv s" and run: "mm_allocate_physical_page s = (a, s')"
  note st = allocate_page_step [OF inv run] and fr = mm_allocate_physical_page_frame [OF inv run]
  show "phys_inv s'" using st by blast
  assume "a \<noteq> 0"
  then obtain p where p: "\<not> page_used s p" "a = page_addr s p"
      "\<forall>q. page_used s' q \<longleftrightarrow> page_used s q \<or> q = p"
    using st by blast
  have lt: "p < unat (total_pages s)" using inv p(1) by (rule free_page_less)
  show "a \<notin> used_frames s" using page_used_managed_frames [OF inv lt] p by simp
  have pa: "page_addr s' q = page_addr s q" for q using fr by (simp add: page_addr_def)
  show "used_frames s' = insert a (used_frames s)"
    using fr p lt unfolding used_frames_def pa by auto
next
  fix s s'
  assume "phys_inv s" and "mm_allocate_physical_page s = (0, s')"
  then show "s' = s" using allocate_page_step by blast
next
  fix s a
  assume inv: "phys_inv s" and "a \<in> used_frames s"
  then obtain p where p: "a = page_addr s p" and lt: "p < unat (total_pages s)"
      and "page_used s p"
    by (auto simp: used_frames_def)
  note st = free_step [OF inv lt]
  show "phys_inv (mm_free_physical_page a s)" using st(1) p by simp
  have pa: "page_addr (mm_free_physical_page (page_addr s p) s) q = page_addr s q" for q
    by (rule page_addr_cong) simp
  show "used_frames (mm_free_physical_page a s) = used_frames s - {a}"
    using st(2) page_addr_inj [OF inv _ lt] unfolding used_frames_def p pa by auto
qed

text \<open>
  Contiguous allocation and release are inverse on the bitmap. Giving back
  the run just obtained leaves every page exactly as it was before the
  allocation, restores the free-page counter and keeps the invariant.
\<close>

theorem contiguous_round_trip:
  assumes "phys_inv s" and "mm_allocate_contiguous_pages page_count s = (pa, s')" and "pa \<noteq> 0"
    and "mm_free_contiguous_pages pa page_count s' = s''"
  shows "phys_inv s'' \<and> (\<forall>p. page_used s'' p \<longleftrightarrow> page_used s p) \<and> free_pages s'' = free_pages s"
proof -
  obtain m where m: "pa = page_addr s m" "free_run_at s m (unat page_count)"
      "\<forall>q. page_used s' q \<longleftrightarrow> page_used s q \<or> (m \<le> q \<and> q < m + unat page_count)"
      "free_pages s' = free_pages s - page_count"
    and inv: "phys_inv s'" and pos: "page_count \<noteq> 0"
    using contiguous_step [OF assms(1,2)] assms(3) by blast
  have fr: "total_pages s' = total_pages s" "memory_start s' = memory_start s"
    using mm_allocate_contiguous_pages_frame [OF assms(2)] by auto
  have b: "m + 0 + unat page_count \<le> unat (total_pages s')"
    using free_run_within [OF assms(1) m(2)] pos fr by (simp add: unat_gt_0)
  have u: "\<forall>q. m + 0 \<le> q \<and> q < m + 0 + unat page_count \<longrightarrow> page_used s' q"
    using m(3) by simp
  have "pa = page_addr s' m" using m(1) fr by (simp add: page_addr_def)
  then have "free_run (page_addr s' m) 0 (unat page_count) s' = s''"
    using assms(4) by (simp add: mm_free_contiguous_pages_def)
  with free_run_correct [OF inv b u] have run: "phys_inv s''"
      "page_used s'' q \<longleftrightarrow> page_used s' q \<and> \<not> (m \<le> q \<and> q < m + unat page_count)"
      "free_pages s'' = free_pages s' + page_count" for q
    by simp_all
  have "\<not> page_used s q" if "m \<le> q" "q < m + unat page_count" for q
  proof -
    from that obtain k where "q = m + k" "k < unat page_count" by (auto dest: le_Suc_ex)
    with m(2) show ?thesis by (simp add: free_run_at_def)
  qed
  then have "page_used s'' q \<longleftrightarrow> page_used s q" for q
    using run(2) [of q] m(3) by blast
  with run(1,3) m(4) show ?thesis by simp
qed

end
