(* ===== verification/Cow.thy ===== *)
theory Cow
  imports Physmem
begin

text \<open>
  Copy-on-write sharing of user pages, \<^verbatim>\<open>kernel/mm/memory.c\<close>: the page-table
  copy loop of fork (\<^verbatim>\<open>mm_clone_address_space\<close>), the write-fault handler
  (\<^verbatim>\<open>mm_handle_cow_fault\<close>) and unmapping (\<^verbatim>\<open>mm_unmap_page_in_address_space\<close>), over
  the page allocator and the reference counts of theory \<^verbatim>\<open>Physmem\<close>.
  Page-table entries are 64-bit words; TLB maintenance has no state here.
\<close>

section \<open>Page-table entries\<close>

definition PAGE_PRESENT :: u64 where "PAGE_PRESENT = 0x001"
definition PAGE_WRITABLE :: u64 where "PAGE_WRITABLE = 0x002"
definition PAGE_USER :: u64 where "PAGE_USER = 0x004"
definition PAGE_COW :: u64 where "PAGE_COW = 0x200"
definition PAGE_NO_EXECUTE :: u64 where "PAGE_NO_EXECUTE = 0x8000000000000000"
definition PTE_ADDR_MASK :: u64 where "PTE_ADDR_MASK = 0x000FFFFFFFFFF000"

lemmas pte_masks = PAGE_PRESENT_def PAGE_WRITABLE_def PAGE_USER_def PAGE_COW_def
  PAGE_NO_EXECUTE_def PTE_ADDR_MASK_def

text \<open>Memory as the handlers see it: the allocator and the contents of each frame.\<close>

record cow_mem =
  mm :: mm_state
  frames :: "u64 \<Rightarrow> u8 list"

section \<open>Sharing at fork\<close>

text \<open>
  One more reference to a page: the first sharing also counts the owner that was
  not tracked. \<open>None\<close> is the null dereference of an unplaced refcount array.
\<close>

definition share_page :: "u64 \<Rightarrow> mm_state \<Rightarrow> mm_state option" where
  "share_page phys_page s =
     (case mm_get_page_refcount s phys_page of
        None \<Rightarrow> None
      | Some c \<Rightarrow>
          (case (if c = 0 then mm_incref_page phys_page s else Some s) of
             None \<Rightarrow> None
           | Some s1 \<Rightarrow> mm_incref_page phys_page s1))"

text \<open>
  The body of the copy loop for one entry: the parent's new entry, the child's
  entry (which starts as 0 in the zeroed page), and the allocator state.
\<close>

definition clone_entry :: "u64 \<Rightarrow> mm_state \<Rightarrow> ((u64 \<times> u64) \<times> mm_state) option" where
  "clone_entry e s =
     (if e AND PAGE_PRESENT = 0 then Some ((e, 0), s)
      else if e AND PAGE_USER \<noteq> 0
      then let phys_page = e AND 0x000FFFFFFFFFF000;
               cow_flags = (e AND NOT PAGE_WRITABLE) OR PAGE_COW
           in map_option (\<lambda>s'. ((cow_flags, cow_flags), s')) (share_page phys_page s)
      else Some ((e, e), s))"

fun clone_table :: "u64 list \<Rightarrow> mm_state \<Rightarrow> ((u64 list \<times> u64 list) \<times> mm_state) option" where
  "clone_table [] s = Some (([], []), s)"
| "clone_table (e # es) s =
     (case clone_entry e s of
        None \<Rightarrow> None
      | Some ((e1, e2), s1) \<Rightarrow>
          (case clone_table es s1 of
             None \<Rightarrow> None
           | Some ((es1, es2), s2) \<Rightarrow> Some ((e1 # es1, e2 # es2), s2)))"

section \<open>The write-fault handler\<close>

text \<open>The entry written after a copy: not COW, writable, NX and the low flags kept.\<close>

definition cow_new_pte :: "u64 \<Rightarrow> u64 \<Rightarrow> u64" where
  "cow_new_pte e new_phys =
     (let flags = (e AND 0xFFF) AND NOT PAGE_COW;
          flags = flags OR PAGE_WRITABLE
      in (e AND PAGE_NO_EXECUTE) OR new_phys OR flags)"

definition copy_frame :: "u64 \<Rightarrow> u64 \<Rightarrow> cow_mem \<Rightarrow> cow_mem" where
  "copy_frame dst src m = m\<lparr>frames := (frames m)(dst := frames m src)\<rparr>"

text \<open>
  \<open>mm_handle_cow_fault\<close> on the entry of the faulting page (\<open>None\<close>: no page table
  there): the return value, the entry afterwards, the memory afterwards. The
  second test of the COW bit, made under the lock, reads the same entry here:
  each operation runs alone.
\<close>

definition mm_handle_cow_fault ::
  "u64 option \<Rightarrow> cow_mem \<Rightarrow> (bool \<times> u64 option \<times> cow_mem) option" where
  "mm_handle_cow_fault pte m =
     (case pte of
        None \<Rightarrow> Some (False, pte, m)
      | Some e \<Rightarrow>
          if e AND PAGE_PRESENT = 0 then Some (False, pte, m)
          else if e AND PAGE_COW = 0
          then (if e AND PAGE_WRITABLE \<noteq> 0 then Some (True, pte, m) else Some (False, pte, m))
          else
            let old_phys = e AND PTE_ADDR_MASK in
            case page_to_index (mm m) old_phys of
              None \<Rightarrow>
                (let (new_phys, s1) = mm_allocate_physical_page (mm m) in
                 if new_phys = 0 then Some (False, pte, m\<lparr>mm := s1\<rparr>)
                 else Some (True, Some (cow_new_pte e new_phys),
                            copy_frame new_phys old_phys (m\<lparr>mm := s1\<rparr>)))
            | Some page_idx \<Rightarrow>
                if e AND PAGE_COW = 0 then Some (True, pte, m)
                else
                  (case page_refcounts (mm m) of
                     None \<Rightarrow> None
                   | Some rc \<Rightarrow>
                       let refcount = rc ! unat page_idx;
                           (new_phys, s1) = mm_allocate_physical_page (mm m)
                       in if new_phys = 0 then Some (False, pte, m\<lparr>mm := s1\<rparr>)
                          else
                            let m1 = copy_frame new_phys old_phys (m\<lparr>mm := s1\<rparr>);
                                e1 = cow_new_pte e new_phys
                            in if refcount \<ge> 1
                               then case mm_decref_page old_phys (mm m1) of
                                      None \<Rightarrow> None
                                    | Some (last_ref, s2) \<Rightarrow>
                                        Some (True, Some e1,
                                          m1\<lparr>mm := (if last_ref then mm_free_physical_page old_phys s2
                                                   else s2)\<rparr>)
                               else Some (True, Some e1, m1)))"

section \<open>Dropping a mapping\<close>

text \<open>
  \<open>mm_unmap_page_in_address_space\<close> on the page's entry: the entry afterwards and
  the allocator state.
\<close>

definition mm_unmap_page_in_address_space ::
  "u64 option \<Rightarrow> mm_state \<Rightarrow> (u64 option \<times> mm_state) option" where
  "mm_unmap_page_in_address_space pte s =
     (case pte of
        None \<Rightarrow> Some (None, s)
      | Some e \<Rightarrow>
          if e AND PAGE_PRESENT = 0 then Some (Some e, s)
          else
            let phys = e AND 0x000FFFFFFFFFF000 in
            if phys = 0 then Some (Some 0, s)
            else if e AND PAGE_USER \<noteq> 0
            then (case mm_decref_page phys s of
                    None \<Rightarrow> None
                  | Some (last_ref, s1) \<Rightarrow>
                      Some (Some 0, if last_ref then mm_free_physical_page phys s1 else s1))
            else Some (Some 0, mm_free_physical_page phys s))"


section \<open>Facts on entries\<close>

lemma bit_exp_u64: "bit ((2 :: u64) ^ k) n \<longleftrightarrow> k < 64 \<and> n = k"
  by (auto simp: bit_exp_iff)

lemma pte_mask_bits [simp]:
  "bit PAGE_PRESENT n \<longleftrightarrow> n = 0" "bit PAGE_WRITABLE n \<longleftrightarrow> n = 1"
  "bit PAGE_USER n \<longleftrightarrow> n = 2" "bit PAGE_COW n \<longleftrightarrow> n = 9" "bit PAGE_NO_EXECUTE n \<longleftrightarrow> n = 63"
  using bit_exp_u64 [of 0 n] bit_exp_u64 [of 1 n] bit_exp_u64 [of 2 n] bit_exp_u64 [of 9 n]
    bit_exp_u64 [of 63 n]
  by (simp_all add: pte_masks)

lemma and_pte_mask:
  "e AND PAGE_PRESENT = 0 \<longleftrightarrow> \<not> bit e 0" "e AND PAGE_WRITABLE = 0 \<longleftrightarrow> \<not> bit e 1"
  "e AND PAGE_USER = 0 \<longleftrightarrow> \<not> bit e 2" "e AND PAGE_COW = 0 \<longleftrightarrow> \<not> bit e 9"
  "e AND PAGE_NO_EXECUTE = 0 \<longleftrightarrow> \<not> bit e 63"
  using and_shift1_zero [of e 0] and_shift1_zero [of e 1] and_shift1_zero [of e 2]
    and_shift1_zero [of e 9] and_shift1_zero [of e 63]
  by (simp_all add: pte_masks)

lemma addr_mask_bits: "bit PTE_ADDR_MASK n \<longleftrightarrow> 12 \<le> n \<and> n < 52"
proof -
  have "PTE_ADDR_MASK = push_bit 12 (mask 40)"
    by (simp add: pte_masks mask_eq_exp_minus_1 push_bit_eq_mult)
  moreover have "bit (push_bit 12 (mask 40) :: u64) n \<longleftrightarrow> 12 \<le> n \<and> n < 52"
    by (auto simp: bit_simps)
  ultimately show ?thesis by metis
qed

lemma low_mask_bits: "bit (0xFFF :: int) n \<longleftrightarrow> n < 12"
proof -
  have "(0xFFF :: int) = mask 12" by (simp add: mask_eq_exp_minus_1)
  moreover have "bit (mask 12 :: int) n \<longleftrightarrow> n < 12" by (auto simp: bit_mask_iff)
  ultimately show ?thesis by metis
qed

text \<open>A frame address: page aligned, below \<open>2^52\<close>.\<close>

definition frame_aligned :: "u64 \<Rightarrow> bool" where
  "frame_aligned a \<longleftrightarrow> a AND PTE_ADDR_MASK = a"

lemma frame_alignedI:
  assumes "4096 dvd unat a" and "unat a < 2 ^ 52"
  shows "frame_aligned a"
proof -
  have "bit a n \<Longrightarrow> 12 \<le> n \<and> n < 52" for n
    using not_bit_if_dvd [of 12 a n] not_bit_if_small [of a 52 n] assms by force
  then show ?thesis
    unfolding frame_aligned_def by (intro bit_word_eqI) (auto simp: bit_and_iff addr_mask_bits)
qed

lemma frame_aligned_bits: "frame_aligned a \<Longrightarrow> bit a n \<Longrightarrow> 12 \<le> n \<and> n < 52"
  by (metis addr_mask_bits bit_and_iff frame_aligned_def)

lemma page_addr_aligned:
  assumes "phys_inv s" and "p < unat (total_pages s)"
  shows "frame_aligned (page_addr s p)"
proof (rule frame_alignedI)
  note u = unat_page_addr [OF assms]
  show "4096 dvd unat (page_addr s p)"
    unfolding u using assms(1) by (simp add: phys_inv_def)
  show "unat (page_addr s p) < 2 ^ 52"
    unfolding u using assms by (simp add: phys_inv_def)
qed

lemma cow_new_pte_bits:
  assumes "frame_aligned a"
  shows "bit (cow_new_pte e a) n \<longleftrightarrow>
    (if n = 1 then True else if n = 9 then False
     else if n = 63 \<or> n < 12 then bit e n else bit a n)"
  using frame_aligned_bits [OF assms, of n] bit_imp_le_length [of e n]
  by (auto simp: cow_new_pte_def bit_and_iff bit_or_iff bit_not_iff low_mask_bits Let_def)

lemma cow_new_pte_addr:
  assumes "frame_aligned a"
  shows "cow_new_pte e a AND PTE_ADDR_MASK = a"
proof (rule bit_word_eqI)
  fix n
  show "bit (cow_new_pte e a AND PTE_ADDR_MASK) n \<longleftrightarrow> bit a n"
    using frame_aligned_bits [OF assms, of n]
    by (auto simp: bit_and_iff addr_mask_bits cow_new_pte_bits [OF assms])
qed

lemma cow_new_pte_flags:
  assumes "frame_aligned a"
  shows "cow_new_pte e a AND PAGE_WRITABLE \<noteq> 0" and "cow_new_pte e a AND PAGE_COW = 0"
    and "(cow_new_pte e a AND PAGE_PRESENT = 0) = (e AND PAGE_PRESENT = 0)"
    and "(cow_new_pte e a AND PAGE_USER = 0) = (e AND PAGE_USER = 0)"
    and "(cow_new_pte e a AND PAGE_NO_EXECUTE = 0) = (e AND PAGE_NO_EXECUTE = 0)"
  by (simp_all add: and_pte_mask cow_new_pte_bits [OF assms])

section \<open>Reference counts and owners\<close>

lemma page_to_index_addr:
  assumes "phys_inv s" and "p < unat (total_pages s)"
  shows "\<exists>idx. page_to_index s (page_addr s p) = Some idx \<and> unat idx = p"
  using page_addr_managed [OF assms] by (simp add: page_to_index_def not_less not_le)

lemma incref_eq:
  assumes "phys_inv s" and "p < unat (total_pages s)" and "page_refcounts s = Some rc"
  shows "mm_incref_page (page_addr s p) s =
    Some (if rc ! p < 0xFFFF then s\<lparr>page_refcounts := Some (rc[p := rc ! p + 1])\<rparr> else s)"
  using page_to_index_addr [OF assms(1,2)] assms(3)
  by (auto simp: mm_incref_page_def Let_def)

lemma decref_eq:
  assumes "phys_inv s" and "p < unat (total_pages s)" and "page_refcounts s = Some rc"
  shows "mm_decref_page (page_addr s p) s =
    Some (rc ! p \<le> 1, s\<lparr>page_refcounts := Some (rc[p := (if rc ! p = 0 then 0 else rc ! p - 1)])\<rparr>)"
proof -
  have "rc ! p \<le> 1 \<longleftrightarrow> rc ! p = 0 \<or> rc ! p = 1"
    using order_antisym_conv word_le_sub1 by auto
  moreover have "rc ! p = 0 \<Longrightarrow> s\<lparr>page_refcounts := Some (rc[p := 0])\<rparr> = s"
    using assms(3) by (metis list_update_id mm_state.surjective mm_state.update_convs(6))
  ultimately show ?thesis
    using page_to_index_addr [OF assms(1,2)] assms(3)
    by (auto simp: mm_decref_page_def Let_def)
qed

lemma phys_inv_refcounts:
  assumes "phys_inv s" and "page_refcounts s = Some rc" and "length rc' = length rc"
  shows "phys_inv (s\<lparr>page_refcounts := Some rc'\<rparr>)"
  using assms by (subst phys_inv_cong [where t = s]) (simp_all add: phys_inv_def)

text \<open>
  How many address spaces own page \<open>p\<close>: none if it is free, one if its count is 0
  (never shared), otherwise its count.
\<close>

definition owners :: "mm_state \<Rightarrow> nat \<Rightarrow> nat" where
  "owners s p =
     (if \<not> page_used s p then 0
      else case page_refcounts s of None \<Rightarrow> 1 | Some rc \<Rightarrow> max 1 (unat (rc ! p)))"


lemma owners_pos [simp]: "page_used s p \<Longrightarrow> 0 < owners s p"
  by (simp add: owners_def less_max_iff_disj split: option.split)

lemma unat_u16_plus1: "unat (c :: u16) < 65535 \<Longrightarrow> unat (c + 1) = Suc (unat c)"
  by (subst unat_plus_no_wrap) simp_all

lemma u16_less_max: "(c :: u16) < 0xFFFF \<longleftrightarrow> unat c < 65535"
  by (simp add: word_less_nat_alt)

text \<open>Sharing sets the count of the page to the new number of owners.\<close>

lemma share_page_eq:
  assumes "phys_inv s" and "p < unat (total_pages s)" and "page_refcounts s = Some rc"
    and "unat (rc ! p) < 65535"
  shows "share_page (page_addr s p) s =
    Some (s\<lparr>page_refcounts := Some (rc[p := (if rc ! p = 0 then 2 else rc ! p + 1)])\<rparr>)"
proof -
  have len: "p < length rc" using assms(1-3) by (simp add: phys_inv_def)
  have get: "mm_get_page_refcount s (page_addr s p) = Some (rc ! p)"
    using page_to_index_addr [OF assms(1,2)] assms(3) by (auto simp: mm_get_page_refcount_def)
  have nz: "rc ! p < 0xFFFF" using assms(4) by (simp add: u16_less_max)
  show ?thesis
  proof (cases "rc ! p = 0")
    case True
    define s1 where "s1 = s\<lparr>page_refcounts := Some (rc[p := 1])\<rparr>"
    have inv1: "phys_inv s1"
      unfolding s1_def using assms(1,3) by (rule phys_inv_refcounts) simp
    have pa: "page_addr s p = page_addr s1 p" by (rule page_addr_cong) (simp add: s1_def)
    have "mm_incref_page (page_addr s1 p) s1 =
        Some (s1\<lparr>page_refcounts := Some ((rc[p := 1])[p := 1 + 1])\<rparr>)"
      using incref_eq [OF inv1, of p "rc[p := 1]"] assms(2) len by (simp add: s1_def)
    moreover have "mm_incref_page (page_addr s p) s = Some s1"
      using incref_eq [OF assms(1-3)] True by (simp add: s1_def)
    ultimately show ?thesis
      using get True pa by (simp add: share_page_def s1_def)
  next
    case False
    with get incref_eq [OF assms(1-3)] nz show ?thesis by (simp add: share_page_def)
  qed
qed

lemma share_page_owner_step:
  assumes "phys_inv s" and "p < unat (total_pages s)" and "page_used s p"
    and "page_refcounts s \<noteq> None" and "owners s p < 65535"
  obtains s' where "share_page (page_addr s p) s = Some s'" and "phys_inv s'"
    and "\<And>q. owners s' q = owners s q + (if q = p then 1 else 0)"
    and "\<And>q. page_used s' q = page_used s q" and "total_pages s' = total_pages s"
    and "memory_start s' = memory_start s" and "page_refcounts s' \<noteq> None"
proof -
  obtain rc where rc: "page_refcounts s = Some rc" using assms(4) by auto
  have c: "unat (rc ! p) < 65535" using assms(3,5) rc by (simp add: owners_def)
  have len: "p < length rc" using assms(1,2) rc by (simp add: phys_inv_def)
  define rc' where "rc' = rc[p := (if rc ! p = 0 then 2 else rc ! p + 1)]"
  have "max 1 (unat (rc' ! p)) = Suc (max 1 (unat (rc ! p)))"
  proof (cases "rc ! p = 0")
    case True
    then show ?thesis using len by (simp add: rc'_def)
  next
    case False
    then have "1 \<le> unat (rc ! p)" by (simp add: Suc_le_eq unat_gt_0)
    with False show ?thesis using len unat_u16_plus1 [OF c] by (simp add: rc'_def)
  qed
  then have "owners (s\<lparr>page_refcounts := Some rc'\<rparr>) q = owners s q + (if q = p then 1 else 0)" for q
    using assms(3) rc by (auto simp: owners_def rc'_def)
  moreover have "phys_inv (s\<lparr>page_refcounts := Some rc'\<rparr>)"
    using assms(1) rc by (rule phys_inv_refcounts) (simp add: rc'_def)
  ultimately show ?thesis
    using that [of "s\<lparr>page_refcounts := Some rc'\<rparr>"] share_page_eq [OF assms(1,2) rc c]
    by (simp add: rc'_def)
qed

text \<open>
  Sharing a page at fork adds exactly one owner. For a page in use whose
  owner count has not reached 65535, the reference-count update of the
  page-table copy always succeeds, counts one more owner of that page, and
  changes the owners of no other page and no allocation state.
\<close>

theorem share_page_adds_owner:
  assumes "phys_inv s" and "p < unat (total_pages s)" and "page_used s p"
    and "page_refcounts s \<noteq> None" and "owners s p < 65535"
  shows "\<exists>s'. share_page (page_addr s p) s = Some s' \<and> phys_inv s' \<and>
    (\<forall>q. owners s' q = owners s q + (if q = p then 1 else 0)) \<and>
    (\<forall>q. page_used s' q = page_used s q)"
  using share_page_owner_step [OF assms] by metis

section \<open>Dropping an owner\<close>

lemma owners_free:
  assumes "phys_inv s" and "p < unat (total_pages s)"
  shows "owners (mm_free_physical_page (page_addr s p) s) q = (if q = p then 0 else owners s q)"
proof -
  obtain page h where up: "unat page = p" and nb: "p < num_bits s"
    and eq: "mm_free_physical_page (page_addr s p) s = (if page_used s p
       then clear_refcount page ((clear_page_bit page s)
              \<lparr>free_pages := free_pages s + 1, g_alloc_hint := h\<rparr>)
       else s)"
    using free_physical_page_eq [OF assms] assms by (auto simp: phys_inv_def)
  show ?thesis
  proof (cases "page_used s p")
    case True
    then show ?thesis
      using eq up nb
      by (auto simp: owners_def clear_refcount_def split: option.splits)
  next
    case False
    then show ?thesis using eq by (simp add: owners_def)
  qed
qed

text \<open>Drop one reference and free the page on the last one, as unmap and the fault handler do.\<close>

lemma drop_reference:
  assumes "phys_inv s" and "p < unat (total_pages s)" and "page_refcounts s = Some rc"
    and "page_used s p" and "mm_decref_page (page_addr s p) s = Some (last_ref, s1)"
    and "s2 = (if last_ref then mm_free_physical_page (page_addr s p) s1 else s1)"
  shows "phys_inv s2 \<and> (\<forall>q. owners s2 q = owners s q - (if q = p then 1 else 0)) \<and>
    (\<forall>q. page_used s2 q \<longleftrightarrow> page_used s q \<and> (q = p \<longrightarrow> owners s p > 1))"
proof -
  have len: "p < length rc" using assms(1-3) by (simp add: phys_inv_def)
  define rc' where "rc' = rc[p := (if rc ! p = 0 then 0 else rc ! p - 1)]"
  have lr: "last_ref \<longleftrightarrow> rc ! p \<le> 1" and s1: "s1 = s\<lparr>page_refcounts := Some rc'\<rparr>"
    using decref_eq [OF assms(1-3)] assms(5) by (auto simp: rc'_def)
  have inv1: "phys_inv s1"
    unfolding s1 using assms(1,3) by (rule phys_inv_refcounts) (simp add: rc'_def)
  have pa: "page_addr s p = page_addr s1 p" by (rule page_addr_cong) (simp add: s1)
  have own: "owners s p = max 1 (unat (rc ! p))" using assms(3,4) by (simp add: owners_def)
  have lr': "last_ref \<longleftrightarrow> owners s p \<le> 1" using lr own by (simp add: word_le_nat_alt)
  have oth: "q \<noteq> p \<Longrightarrow> owners s1 q = owners s q" for q
    using assms(3) by (simp add: owners_def s1 rc'_def)
  show ?thesis
  proof (cases last_ref)
    case True
    have lt1: "p < unat (total_pages s1)" using assms(2) by (simp add: s1)
    have "owners s p = 1" using True lr' owners_pos [OF assms(4)] by linarith
    then show ?thesis
      using owners_free [OF inv1 lt1] free_step [OF inv1 lt1] oth True assms(6) pa
      by (auto simp: s1)
  next
    case False
    then have big: "1 < unat (rc ! p)" using lr by (simp add: word_le_nat_alt)
    then have "unat (rc ! p - 1) = unat (rc ! p) - 1" by (subst unat_minus_no_wrap) auto
    with big have "owners s1 p = owners s p - 1"
      using own len assms(4) by (auto simp: owners_def s1 rc'_def)
    then show ?thesis using False lr' oth assms(6) inv1 by (auto simp: s1)
  qed
qed

text \<open>
  Unmapping removes exactly one owner and frees on the last one. Unmapping
  a present user page clears the entry, takes one owner off that page, changes
  the owners of no other page, and returns the frame to the allocator exactly
  when no owner is left: a page still owned elsewhere is never freed, and a page
  with no owner never leaks.
\<close>

theorem unmap_drops_owner:
  assumes "phys_inv s" and "p < unat (total_pages s)" and "page_used s p"
    and "page_refcounts s \<noteq> None"
    and "e AND PAGE_PRESENT \<noteq> 0" and "e AND PAGE_USER \<noteq> 0" and "e AND PTE_ADDR_MASK = page_addr s p"
  shows "\<exists>s'. mm_unmap_page_in_address_space (Some e) s = Some (Some 0, s') \<and> phys_inv s' \<and>
    (\<forall>q. owners s' q = owners s q - (if q = p then 1 else 0)) \<and>
    (\<forall>q. page_used s' q \<longleftrightarrow> page_used s q \<and> (q = p \<longrightarrow> owners s p > 1))"
proof -
  obtain rc where rc: "page_refcounts s = Some rc" using assms(4) by auto
  obtain last_ref s1 where d: "mm_decref_page (page_addr s p) s = Some (last_ref, s1)"
    using decref_eq [OF assms(1,2) rc] by auto
  define s2 where "s2 = (if last_ref then mm_free_physical_page (page_addr s p) s1 else s1)"
  have "mm_unmap_page_in_address_space (Some e) s = Some (Some 0, s2)"
    using d assms(5-7) page_addr_managed(3) [OF assms(1,2)]
    by (simp add: mm_unmap_page_in_address_space_def PTE_ADDR_MASK_def s2_def)
  with drop_reference [OF assms(1,2) rc assms(3) d s2_def] show ?thesis by auto
qed

section \<open>The fault handler isolates the writer\<close>

lemma alloc_refcounts:
  assumes "phys_inv s" and "mm_allocate_physical_page s = (a, s')" and "a \<noteq> 0"
  shows "\<exists>p < unat (total_pages s). \<not> page_used s p \<and> a = page_addr s p \<and>
    page_refcounts s' = map_option (\<lambda>rc. rc[p := 0]) (page_refcounts s)"
proof -
  have "free_pages s \<noteq> 0" using assms by (auto simp: mm_allocate_physical_page_def)
  with assms(1) obtain page where free: "\<not> page_used s (unat page)"
    and eq: "mm_allocate_physical_page s = (page_addr s (unat page),
      clear_refcount page ((set_page_bit page (s\<lparr>g_alloc_hint := page + 1\<rparr>))
        \<lparr>free_pages := free_pages s - 1\<rparr>))"
    by (rule allocate_step)
  with assms(2) free_page_less [OF assms(1) free] show ?thesis
    by (intro exI [of _ "unat page"]) (auto simp: clear_refcount_def split: option.split)
qed

lemma owners_alloc:
  assumes "phys_inv s" and "mm_allocate_physical_page s = (a, s')" and "a \<noteq> 0"
    and "page_used s q"
  shows "page_used s' q" and "owners s' q = owners s q"
proof -
  obtain p where p: "\<not> page_used s p" "a = page_addr s p" "p < unat (total_pages s)"
      "page_refcounts s' = map_option (\<lambda>rc. rc[p := 0]) (page_refcounts s)"
    using alloc_refcounts [OF assms(1-3)] by blast
  obtain p' where "a = page_addr s p'" "\<not> page_used s p'"
      "\<forall>r. page_used s' r \<longleftrightarrow> page_used s r \<or> r = p'"
    using allocate_page_step [OF assms(1,2)] assms(3) by blast
  then show u: "page_used s' q" using assms(4) by blast
  have "q \<noteq> p" using p assms(4) by blast
  then show "owners s' q = owners s q"
    using u assms(4) p(4) by (auto simp: owners_def split: option.split)
qed

text \<open>What a fault that succeeds does, and when it succeeds.\<close>

lemma cow_fault_private:
  assumes "phys_inv (mm m)" and "p < unat (total_pages (mm m))" and "page_used (mm m) p"
    and "page_refcounts (mm m) = Some rc" and "1 \<le> unat (rc ! p)"
    and "e AND PAGE_PRESENT \<noteq> 0" and "e AND PAGE_COW \<noteq> 0"
    and "e AND PTE_ADDR_MASK = page_addr (mm m) p"
    and "mm_handle_cow_fault (Some e) m = Some (True, Some e', m')"
  shows "e' AND PAGE_PRESENT \<noteq> 0 \<and> e' AND PAGE_WRITABLE \<noteq> 0 \<and> e' AND PAGE_COW = 0 \<and>
    (e' AND PAGE_USER = 0 \<longleftrightarrow> e AND PAGE_USER = 0) \<and>
    (e' AND PAGE_NO_EXECUTE = 0 \<longleftrightarrow> e AND PAGE_NO_EXECUTE = 0) \<and>
    e' AND PTE_ADDR_MASK \<notin> used_frames (mm m) \<and>
    frames m' = (frames m)(e' AND PTE_ADDR_MASK := frames m (e AND PTE_ADDR_MASK)) \<and>
    phys_inv (mm m') \<and>
    owners (mm m') p = owners (mm m) p - 1 \<and>
    (page_used (mm m') p \<longleftrightarrow> owners (mm m) p > 1)"
proof -
  define s where "s = mm m"
  note inv = assms(1) [folded s_def] and lt = assms(2) [folded s_def]
  obtain idx where idx: "page_to_index s (page_addr s p) = Some idx" "unat idx = p"
    using page_to_index_addr [OF inv lt] by auto
  obtain new s1 where al: "mm_allocate_physical_page s = (new, s1)" by fastforce
  have rc1: "rc ! p \<ge> 1" using assms(5) by (simp add: word_le_nat_alt)
  have nz: "new \<noteq> 0"
    using assms(6-9) idx al rc1 assms(4)
    by (auto simp: mm_handle_cow_fault_def s_def [symmetric] Let_def)
  obtain np where np: "np < unat (total_pages s)" "\<not> page_used s np" "new = page_addr s np"
      "page_refcounts s1 = map_option (\<lambda>rc. rc[np := 0]) (page_refcounts s)"
    using alloc_refcounts [OF inv al nz] by blast
  have fr: "total_pages s1 = total_pages s" "memory_start s1 = memory_start s"
    using mm_allocate_physical_page_frame [OF inv al] by auto
  have inv1: "phys_inv s1" using pages.alloc_inv [OF inv al] .
  have lt1: "p < unat (total_pages s1)" using lt fr by simp
  have rcs1: "page_refcounts s1 = Some (rc[np := 0])" using np(4) assms(4) by (simp add: s_def)
  have pa: "page_addr s p = page_addr s1 p" by (rule page_addr_cong) (simp add: fr)
  obtain last_ref s2 where d: "mm_decref_page (page_addr s1 p) s1 = Some (last_ref, s2)"
    using decref_eq [OF inv1 lt1 rcs1] by auto
  define s3 where "s3 = (if last_ref then mm_free_physical_page (page_addr s1 p) s2 else s2)"
  have res: "e' = cow_new_pte e new" "mm m' = s3"
      "frames m' = (frames m)(new := frames m (page_addr s p))"
    using assms(4,6-9) idx al rc1 nz d
    by (auto simp: mm_handle_cow_fault_def s_def [symmetric] Let_def copy_frame_def s3_def pa)
  have al_new: "frame_aligned new" using page_addr_aligned [OF inv np(1)] np(3) by simp
  have old: "page_used s1 p" "owners s1 p = owners s p"
    using owners_alloc [OF inv al nz] assms(3) by (auto simp: s_def)
  have "new \<notin> used_frames s" using pages.alloc_fresh [OF inv al nz] .
  with cow_new_pte_addr [OF al_new, of e] cow_new_pte_flags [OF al_new, of e]
    drop_reference [OF inv1 lt1 rcs1 old(1) d s3_def] old res assms(6,8)
  show ?thesis by (auto simp: s_def [symmetric])
qed

lemma cow_fault_returns:
  assumes "phys_inv (mm m)" and "p < unat (total_pages (mm m))"
    and "page_refcounts (mm m) = Some rc" and "1 \<le> unat (rc ! p)"
    and "e AND PAGE_PRESENT \<noteq> 0" and "e AND PAGE_COW \<noteq> 0"
    and "e AND PTE_ADDR_MASK = page_addr (mm m) p"
  shows "if \<exists>q. \<not> page_used (mm m) q then \<exists>e' m'. mm_handle_cow_fault (Some e) m = Some (True, Some e', m')
    else mm_handle_cow_fault (Some e) m = Some (False, Some e, m)"
proof -
  define s where "s = mm m"
  note inv = assms(1) [folded s_def] and lt = assms(2) [folded s_def] and rcs = assms(3) [folded s_def]
  obtain idx where idx: "page_to_index s (page_addr s p) = Some idx" "unat idx = p"
    using page_to_index_addr [OF inv lt] by auto
  obtain new s1 where al: "mm_allocate_physical_page s = (new, s1)" by fastforce
  have rc1: "rc ! p \<ge> 1" using assms(4) by (simp add: word_le_nat_alt)
  note al_step = allocate_page_step [OF inv al]
  note run = mm_handle_cow_fault_def s_def [symmetric] Let_def copy_frame_def
  show ?thesis
  proof (cases "new = 0")
    case True
    then have "s1 = s" "\<forall>q. page_used s q" using al_step by auto
    then show ?thesis using assms(5-7) idx al True rcs by (simp add: run)
  next
    case False
    then obtain np where np: "page_refcounts s1 = map_option (\<lambda>rc. rc[np := 0]) (page_refcounts s)"
      using alloc_refcounts [OF inv al] by blast
    have fr: "total_pages s1 = total_pages s" "memory_start s1 = memory_start s"
      using mm_allocate_physical_page_frame [OF inv al] by auto
    have "page_addr s p = page_addr s1 p" by (rule page_addr_cong) (simp add: fr)
    moreover obtain r where "mm_decref_page (page_addr s1 p) s1 = Some r"
      using decref_eq [of s1 p "rc[np := 0]"] al_step lt fr np rcs by fastforce
    ultimately show ?thesis using assms(5-7) idx al False rcs rc1 al_step
      by (cases r) (auto simp: run)
  qed
qed

text \<open>
  C2: The copy-on-write fault gives the writer a private copy. For a present COW entry of a page in use the
  handler succeeds exactly when a page is free, and otherwise fails and changes nothing. When it succeeds,
  the new entry is present and writable, no longer COW, keeps the user and no-execute bits, and points to a
  frame that nobody owned before; that frame holds a copy of the old page, no other frame changed, and
  exactly one of the owners of the old page is gone, with the frame freed only if none is left.
\<close>

theorem cow_fault_isolates:
  assumes "phys_inv (mm m)" and "p < unat (total_pages (mm m))" and "page_used (mm m) p"
    and "page_refcounts (mm m) = Some rc" and "1 \<le> unat (rc ! p)"
    and "e AND PAGE_PRESENT \<noteq> 0" and "e AND PAGE_COW \<noteq> 0"
    and "e AND PTE_ADDR_MASK = page_addr (mm m) p"
  shows "if \<exists>q. \<not> page_used (mm m) q
    then \<exists>e' m'. mm_handle_cow_fault (Some e) m = Some (True, Some e', m') \<and>
    e' AND PAGE_PRESENT \<noteq> 0 \<and> e' AND PAGE_WRITABLE \<noteq> 0 \<and> e' AND PAGE_COW = 0 \<and>
    (e' AND PAGE_USER = 0 \<longleftrightarrow> e AND PAGE_USER = 0) \<and>
    (e' AND PAGE_NO_EXECUTE = 0 \<longleftrightarrow> e AND PAGE_NO_EXECUTE = 0) \<and>
    e' AND PTE_ADDR_MASK \<notin> used_frames (mm m) \<and>
    frames m' = (frames m)(e' AND PTE_ADDR_MASK := frames m (e AND PTE_ADDR_MASK)) \<and>
    phys_inv (mm m') \<and>
    owners (mm m') p = owners (mm m) p - 1 \<and>
    (page_used (mm m') p \<longleftrightarrow> owners (mm m) p > 1)
    else mm_handle_cow_fault (Some e) m = Some (False, Some e, m)"
  using cow_fault_returns [OF assms(1,2,4-8)] cow_fault_private [OF assms] by (simp split: if_splits) blast

text \<open>Page 0 of the small machine is shared by two address spaces.\<close>

definition demo_cow :: cow_mem where
  "demo_cow = \<lparr>mm = demo_phys\<lparr>page_refcounts := Some ((replicate 64 0)[0 := 2])\<rparr>,
     frames = (\<lambda>_. [])\<rparr>"

theorem cow_fault_isolates_witness:
  "\<exists>e' m'. mm_handle_cow_fault (Some 0x100205) demo_cow = Some (True, Some e', m') \<and>
     e' AND PAGE_WRITABLE \<noteq> 0 \<and> owners (mm m') 0 = 1"
proof -
  define rc where "rc = (replicate 64 (0 :: u16))[0 := 2]"
  have rcs: "page_refcounts (mm demo_cow) = Some rc" by (simp add: demo_cow_def rc_def)
  have inv: "phys_inv (mm demo_cow)"
  proof -
    have "page_refcounts demo_phys = Some (replicate 64 0)" by (simp add: demo_phys_def)
    from phys_inv_refcounts [OF demo_phys_inv this] show ?thesis by (simp add: demo_cow_def)
  qed
  have h: "0 < unat (total_pages (mm demo_cow))" "page_used (mm demo_cow) 0" "1 \<le> unat (rc ! 0)"
    by (simp_all add: demo_cow_def demo_phys_def page_used_def rc_def)
  have own: "owners (mm demo_cow) 0 = 2"
    using h(2) rcs by (simp add: owners_def rc_def)
  have e: "(0x100205 :: u64) AND PAGE_PRESENT \<noteq> 0" "(0x100205 :: u64) AND PAGE_COW \<noteq> 0"
    "0x100205 AND PTE_ADDR_MASK = page_addr (mm demo_cow) 0"
    by (simp_all add: pte_masks page_addr_def demo_cow_def demo_phys_def)
  have "\<not> page_used (mm demo_cow) 63" by (simp add: demo_cow_def demo_phys_def page_used_def)
  with cow_fault_isolates [OF inv h(1,2) rcs h(3) e] own show ?thesis by (auto split: if_splits)
qed

section \<open>Copying a page table at fork\<close>

definition shares_frame :: "u64 \<Rightarrow> u64 \<Rightarrow> bool" where
  "shares_frame a e \<longleftrightarrow> e AND PAGE_PRESENT \<noteq> 0 \<and> e AND PAGE_USER \<noteq> 0 \<and> e AND PTE_ADDR_MASK = a"

text \<open>Every user entry of the table maps a managed page that is in use.\<close>

definition maps_used_pages :: "mm_state \<Rightarrow> u64 list \<Rightarrow> bool" where
  "maps_used_pages s es \<longleftrightarrow>
     (\<forall>e \<in> set es. e AND PAGE_PRESENT \<noteq> 0 \<and> e AND PAGE_USER \<noteq> 0 \<longrightarrow>
        (\<exists>p < unat (total_pages s). page_used s p \<and> e AND PTE_ADDR_MASK = page_addr s p))"

lemma clone_entry_bits:
  assumes "clone_entry e s = Some ((e1, e2), s')"
  shows "e1 AND PTE_ADDR_MASK = e AND PTE_ADDR_MASK \<and>
    (e AND PAGE_PRESENT \<noteq> 0 \<and> e AND PAGE_USER \<noteq> 0 \<longrightarrow>
       e1 = e2 \<and> e1 AND PAGE_WRITABLE = 0 \<and> e1 AND PAGE_COW \<noteq> 0 \<and> e1 AND PAGE_PRESENT \<noteq> 0) \<and>
    (e AND PAGE_PRESENT = 0 \<longrightarrow> e1 = e \<and> e2 = 0) \<and>
    (e AND PAGE_PRESENT \<noteq> 0 \<and> e AND PAGE_USER = 0 \<longrightarrow> e1 = e \<and> e2 = e)"
proof -
  have "((e AND NOT PAGE_WRITABLE) OR PAGE_COW) AND PTE_ADDR_MASK = e AND PTE_ADDR_MASK"
    by (rule bit_word_eqI) (auto simp: bit_and_iff bit_or_iff bit_not_iff addr_mask_bits)
  moreover have "bit ((e AND NOT PAGE_WRITABLE) OR PAGE_COW) n \<longleftrightarrow> n = 9 \<or> bit e n \<and> n \<noteq> 1" for n
    using bit_imp_le_length [of e n] by (auto simp: bit_and_iff bit_or_iff bit_not_iff)
  ultimately show ?thesis
    using assms by (auto simp: clone_entry_def Let_def and_pte_mask split: if_splits)
qed


lemma clone_table_counts:
  assumes "phys_inv s" and "page_refcounts s \<noteq> None" and "maps_used_pages s es"
    and "\<And>q. q < unat (total_pages s) \<Longrightarrow>
      owners s q + length (filter (shares_frame (page_addr s q)) es) \<le> 65535"
  shows "\<exists>ps cs s'. clone_table es s = Some ((ps, cs), s') \<and> phys_inv s' \<and>
    (\<forall>q < unat (total_pages s).
       owners s' q = owners s q + length (filter (shares_frame (page_addr s q)) es))"
  using assms
proof (induction es arbitrary: s)
  case (Cons e es)
  show ?case
  proof (cases "e AND PAGE_PRESENT \<noteq> 0 \<and> e AND PAGE_USER \<noteq> 0")
    case False
    then have "clone_entry e s = Some ((e, if e AND PAGE_PRESENT = 0 then 0 else e), s)"
      by (auto simp: clone_entry_def)
    moreover have "\<not> shares_frame a e" for a using False by (auto simp: shares_frame_def)
    moreover have "maps_used_pages s es" using Cons.prems(3) by (simp add: maps_used_pages_def)
    ultimately show ?thesis
      using Cons.IH [OF Cons.prems(1,2)] Cons.prems(4) by fastforce
  next
    case True
    then obtain p where p: "p < unat (total_pages s)" "page_used s p"
        and pa: "e AND PTE_ADDR_MASK = page_addr s p"
      using Cons.prems(3) by (auto simp: maps_used_pages_def)
    have sh: "shares_frame (page_addr s q) e \<longleftrightarrow> q = p" if "q < unat (total_pages s)" for q
      using True pa page_addr_inj [OF Cons.prems(1) that p(1)] by (auto simp: shares_frame_def)
    have "owners s p < 65535"
      using Cons.prems(4) [OF p(1)] sh [OF p(1)] by simp
    with Cons.prems(1,2) p obtain s1 where s1: "share_page (page_addr s p) s = Some s1"
        "phys_inv s1" "\<And>q. owners s1 q = owners s q + (if q = p then 1 else 0)"
        "\<And>q. page_used s1 q = page_used s q" "total_pages s1 = total_pages s"
        "memory_start s1 = memory_start s" "page_refcounts s1 \<noteq> None"
      using share_page_owner_step by metis
    have pa1: "page_addr s1 q = page_addr s q" for q using s1(6) by (rule page_addr_cong)
    have maps: "maps_used_pages s1 es"
      using Cons.prems(3) s1(4,5) by (auto simp: maps_used_pages_def pa1)
    have bound: "owners s1 q + length (filter (shares_frame (page_addr s1 q)) es) \<le> 65535"
      if "q < unat (total_pages s1)" for q
      using Cons.prems(4) [of q] that s1(3,5) sh [of q] by (auto simp: pa1 split: if_splits)
    from Cons.IH [OF s1(2,7) maps bound] obtain ps cs s' where
        IH: "clone_table es s1 = Some ((ps, cs), s')" "phys_inv s'"
          "\<forall>q < unat (total_pages s). owners s' q = owners s1 q +
             length (filter (shares_frame (page_addr s q)) es)"
      by (auto simp: s1(5) pa1)
    obtain e1 e2 where "clone_entry e s = Some ((e1, e2), s1)"
      using True s1(1) pa by (auto simp: clone_entry_def Let_def PTE_ADDR_MASK_def)
    with IH s1(3) sh show ?thesis by auto
  qed
qed simp

lemma clone_table_entries:
  assumes "clone_table es s = Some ((ps, cs), s')"
  shows "length ps = length es \<and> length cs = length es \<and>
    (\<forall>i < length es. es ! i AND PAGE_PRESENT \<noteq> 0 \<and> es ! i AND PAGE_USER \<noteq> 0 \<longrightarrow>
       ps ! i = cs ! i \<and> cs ! i AND PAGE_WRITABLE = 0 \<and> cs ! i AND PAGE_COW \<noteq> 0 \<and>
       cs ! i AND PTE_ADDR_MASK = es ! i AND PTE_ADDR_MASK)"
  using assms
proof (induction es arbitrary: s ps cs)
  case (Cons e es)
  then obtain e1 e2 s1 ps1 cs1 where h: "clone_entry e s = Some ((e1, e2), s1)"
      and t: "clone_table es s1 = Some ((ps1, cs1), s')" "ps = e1 # ps1" "cs = e2 # cs1"
    by (auto split: option.splits)
  from Cons.IH [OF t(1)] clone_entry_bits [OF h] t(2,3) show ?case
    by (auto simp: nth_Cons split: nat.split)
qed simp

text \<open>
  C15: Copying a page table at fork shares safely. For a table whose user entries
  map pages in use (and no owner count overflows its 16 bits), the copy
  succeeds; afterwards parent and child hold the same read-only copy-on-write
  entry to the same frame for every user page, and each page has gained exactly
  as many owners as the table has entries for it.
\<close>

theorem clone_table_shares:
  assumes "phys_inv s" and "page_refcounts s \<noteq> None" and "maps_used_pages s es"
    and "\<forall>q < unat (total_pages s).
      owners s q + length (filter (shares_frame (page_addr s q)) es) \<le> 65535"
  shows "\<exists>ps cs s'. clone_table es s = Some ((ps, cs), s') \<and> phys_inv s' \<and>
    length ps = length es \<and> length cs = length es \<and>
    (\<forall>i < length es. es ! i AND PAGE_PRESENT \<noteq> 0 \<and> es ! i AND PAGE_USER \<noteq> 0 \<longrightarrow>
       ps ! i = cs ! i \<and> cs ! i AND PAGE_WRITABLE = 0 \<and> cs ! i AND PAGE_COW \<noteq> 0 \<and>
       cs ! i AND PTE_ADDR_MASK = es ! i AND PTE_ADDR_MASK) \<and>
    (\<forall>q < unat (total_pages s).
       owners s' q = owners s q + length (filter (shares_frame (page_addr s q)) es))"
proof -
  from clone_table_counts [OF assms(1-3)] assms(4) obtain ps cs s' where
    run: "clone_table es s = Some ((ps, cs), s')" and "phys_inv s'"
    and "\<forall>q < unat (total_pages s).
       owners s' q = owners s q + length (filter (shares_frame (page_addr s q)) es)"
    by blast
  with clone_table_entries [OF run] show ?thesis by blast
qed

theorem clone_table_shares_witness:
  "\<exists>ps cs s'. clone_table [0x100007, 0] demo_phys = Some ((ps, cs), s') \<and> owners s' 0 = 2"
proof -
  have used: "page_used demo_phys 0" and own: "owners demo_phys 0 = 1" by code_simp+
  have tot: "unat (total_pages demo_phys) = 64" and rc: "page_refcounts demo_phys \<noteq> None"
    by (simp_all add: demo_phys_def)
  have maps: "maps_used_pages demo_phys [0x100007, 0]"
    using used by (auto simp: maps_used_pages_def tot pte_masks page_addr_def demo_phys_def
        intro!: exI [of _ 0])
  have le1: "owners demo_phys q \<le> 1" if "q < 64" for q
    using that by (simp add: owners_def demo_phys_def)
  have "\<forall>q < unat (total_pages demo_phys). owners demo_phys q +
      length (filter (shares_frame (page_addr demo_phys q)) [0x100007, 0]) \<le> 65535"
    unfolding tot by (intro allI impI, drule le1) auto
  from clone_table_shares [OF demo_phys_inv rc maps this] obtain ps cs s' where
    "clone_table [0x100007, 0] demo_phys = Some ((ps, cs), s')"
    "owners s' 0 = owners demo_phys 0 +
      length (filter (shares_frame (page_addr demo_phys 0)) [0x100007, 0])"
    using tot by auto
  moreover have "length (filter (shares_frame (page_addr demo_phys 0)) [0x100007, 0]) = 1"
    by code_simp
  ultimately show ?thesis using own by auto
qed

text \<open>
  C23: A write fault after fork always grants write access. The copy loop marks
  every user entry copy-on-write, the read-only ones too, and the handler sets
  the writable bit of the copy without knowing the protection the page had: a
  present user entry, once copied at fork, becomes writable on the first write
  fault even if it had been mapped read-only.
\<close>

theorem fork_loses_write_protection:
  assumes "clone_entry e s = Some ((e1, e2), s1)"
    and "e AND PAGE_PRESENT \<noteq> 0" and "e AND PAGE_USER \<noteq> 0" and "e AND PAGE_WRITABLE = 0"
    and "mm_handle_cow_fault (Some e2) m = Some (True, Some e', m')"
  shows "e' AND PAGE_WRITABLE \<noteq> 0"
proof -
  have e2: "e2 AND PAGE_PRESENT \<noteq> 0" "e2 AND PAGE_COW \<noteq> 0"
    using clone_entry_bits [OF assms(1)] assms(2,3) by auto
  with assms(5) obtain new where "e' = cow_new_pte e2 new"
    by (auto simp: mm_handle_cow_fault_def Let_def split: option.splits prod.splits if_splits)
  then show ?thesis
    by (simp add: and_pte_mask cow_new_pte_def bit_or_iff Let_def)
qed

theorem fork_loses_write_protection_witness:
  "(0x100005 :: u64) AND PAGE_WRITABLE = 0 \<and>
   (\<exists>e1 e2 s1 e' m'. clone_entry 0x100005 demo_phys = Some ((e1, e2), s1) \<and>
      mm_handle_cow_fault (Some e2) demo_cow = Some (True, Some e', m') \<and>
      e' AND PAGE_WRITABLE \<noteq> 0)"
proof -
  have ro: "(0x100005 :: u64) AND PAGE_PRESENT \<noteq> 0" "(0x100005 :: u64) AND PAGE_USER \<noteq> 0"
    "(0x100005 :: u64) AND PAGE_WRITABLE = 0"
    by (simp_all add: pte_masks)
  have "map_option fst (clone_entry 0x100005 demo_phys) = Some (0x100205, 0x100205)"
    by code_simp
  then obtain s1 where c: "clone_entry 0x100005 demo_phys = Some ((0x100205, 0x100205), s1)"
    by auto
  have "map_option (\<lambda>(r, e, m). r \<and> e \<noteq> None) (mm_handle_cow_fault (Some 0x100205) demo_cow) = Some True"
    by code_simp
  then obtain e' m' where f: "mm_handle_cow_fault (Some 0x100205) demo_cow = Some (True, Some e', m')"
    by auto
  from fork_loses_write_protection [OF c ro f] c f ro show ?thesis by blast
qed

end
