(* ===== verification/Paging.thy ===== *)
theory Paging
  imports Cow
begin

text \<open>
  The four-level page tables of \<^verbatim>\<open>kernel/mm/memory.c\<close>: the pool of page-table pages
  (\<^verbatim>\<open>allocate_pt_page\<close>, \<^verbatim>\<open>free_pt_page\<close>), the walk that creates missing levels and
  splits 2 MiB pages (\<^verbatim>\<open>mm_get_page_table\<close>), and mapping, unmapping and lookup on top
  of it. Physical memory is \<open>ram\<close>: the 512 words of each 4 KiB frame, by the frame's
  physical address. The translation the processor performs on these tables is the
  specification (\<open>mmu\<close>); TLBs are not modelled.
\<close>

section \<open>State\<close>

record vm =
  vmm :: mm_state
  ram :: "u64 \<Rightarrow> nat \<Rightarrow> u64"
  cr3 :: u64
  pt_pool_initialized :: bool
  pt_pool_phys_start :: u64
  pt_pool_size :: u64
  pt_pool_next :: u64
  pt_pool_freelist :: u64

definition PAGE_SIZE_FLAG :: u64 where "PAGE_SIZE_FLAG = 0x080"
definition PHYS_MAP_BASE :: u64 where "PHYS_MAP_BASE = 0xFFFF880000000000"
definition KERNEL_OFFSET :: u64 where "KERNEL_OFFSET = 0xFFFFFFFF80000000"

definition phys_to_virt :: "u64 \<Rightarrow> addr" where
  "phys_to_virt phys_addr = PHYS_MAP_BASE + phys_addr"

definition virt_to_phys :: "addr \<Rightarrow> u64" where
  "virt_to_phys virt_addr = virt_addr - PHYS_MAP_BASE"

definition is_direct_map_addr :: "addr \<Rightarrow> bool" where
  "is_direct_map_addr a \<longleftrightarrow> a \<ge> PHYS_MAP_BASE \<and> a < PHYS_MAP_BASE + 0x400000000"

text \<open>Writing one word of a frame, and clearing a frame.\<close>

definition set_entry :: "u64 \<Rightarrow> nat \<Rightarrow> u64 \<Rightarrow> vm \<Rightarrow> vm" where
  "set_entry t i e st = st\<lparr>ram := (ram st)(t := (ram st t)(i := e))\<rparr>"

definition zero_frame :: "u64 \<Rightarrow> vm \<Rightarrow> vm" where
  "zero_frame t st = st\<lparr>ram := (ram st)(t := \<lambda>_. 0)\<rparr>"

section \<open>The pool of page-table pages\<close>

definition allocate_pt_page :: "vm \<Rightarrow> u64 \<times> vm" where
  "allocate_pt_page st =
     (if \<not> pt_pool_initialized st then (0, st)
      else if pt_pool_freelist st \<noteq> 0
      then let phys = pt_pool_freelist st;
               st1 = st\<lparr>pt_pool_freelist := ram st phys 0\<rparr>
           in (phys, zero_frame phys st1)
      else if pt_pool_next st < pt_pool_size st
      then let phys = pt_pool_phys_start st + pt_pool_next st * PAGE_SIZE;
               st1 = st\<lparr>pt_pool_next := pt_pool_next st + 1\<rparr>
           in (phys, zero_frame phys st1)
      else let (phys, s1) = mm_allocate_physical_page (vmm st)
           in if phys = 0 then (0, st\<lparr>vmm := s1\<rparr>)
              else (phys, zero_frame phys (st\<lparr>vmm := s1\<rparr>)))"

definition free_pt_page :: "u64 \<Rightarrow> vm \<Rightarrow> vm" where
  "free_pt_page phys st =
     (if phys = 0 then st
      else let pt_pool_end = pt_pool_phys_start st + pt_pool_size st * PAGE_SIZE
           in if phys \<ge> pt_pool_phys_start st \<and> phys < pt_pool_end
              then (set_entry phys 0 (pt_pool_freelist st) st)\<lparr>pt_pool_freelist := phys\<rparr>
              else st\<lparr>vmm := mm_free_physical_page phys (vmm st)\<rparr>)"

section \<open>The walk\<close>

definition pml4_index :: "addr \<Rightarrow> nat" where "pml4_index v = unat (drop_bit 39 v AND 0x1FF)"
definition pdpt_index :: "addr \<Rightarrow> nat" where "pdpt_index v = unat (drop_bit 30 v AND 0x1FF)"
definition pd_index :: "addr \<Rightarrow> nat" where "pd_index v = unat (drop_bit 21 v AND 0x1FF)"
definition pt_index :: "addr \<Rightarrow> nat" where "pt_index v = unat (drop_bit 12 v AND 0x1FF)"

text \<open>
  One level: the table an entry points to; with \<open>create\<close>, a missing table is
  allocated and entered with the given flags.
\<close>

definition next_table :: "bool \<Rightarrow> u64 \<Rightarrow> u64 \<Rightarrow> nat \<Rightarrow> vm \<Rightarrow> u64 option \<times> vm" where
  "next_table create flags t i st =
     (let e = ram st t i in
      if e AND PAGE_PRESENT \<noteq> 0 then (Some (e AND PTE_ADDR_MASK), st)
      else if create
      then let (phys, st1) = allocate_pt_page st
           in if phys = 0 then (None, st1)
              else (Some phys, set_entry t i (phys OR flags) st1)
      else (None, st))"

text \<open>
  Splitting a 2 MiB page into 512 entries of a new page table; \<open>False\<close> when no
  page-table page is left.
\<close>

definition split_large_page :: "u64 \<Rightarrow> nat \<Rightarrow> vm \<Rightarrow> bool \<times> vm" where
  "split_large_page pd i st =
     (let e = ram st pd i;
          large_phys = e AND 0x000FFFFFFFE00000;
          pte_flags = (e AND 0x8000000000000E7F) AND NOT PAGE_SIZE_FLAG;
          (split_pt, st1) = allocate_pt_page st
      in if split_pt = 0 then (False, st1)
         else let st2 = st1\<lparr>ram := (ram st1)(split_pt := \<lambda>k.
                          if k < 512 then (large_phys + of_nat k * PAGE_SIZE) OR pte_flags
                          else ram st1 split_pt k)\<rparr>
              in (True, set_entry pd i (split_pt OR PAGE_PRESENT OR PAGE_WRITABLE) st2))"

text \<open>The last two levels, from the page directory on.\<close>

definition walk_pd :: "bool \<Rightarrow> u64 \<Rightarrow> addr \<Rightarrow> vm \<Rightarrow> (u64 \<times> nat) option \<times> vm" where
  "walk_pd create pd v st =
     (let e = ram st pd (pd_index v);
          large = e AND PAGE_PRESENT \<noteq> 0 \<and> e AND PAGE_SIZE_FLAG \<noteq> 0
      in if large \<and> \<not> create then (None, st)
         else let (ok, st1) = (if large then split_large_page pd (pd_index v) st else (True, st))
              in if \<not> ok then (None, st1)
                 else case next_table create (PAGE_PRESENT OR PAGE_WRITABLE) pd (pd_index v) st1 of
                        (None, st2) \<Rightarrow> (None, st2)
                      | (Some pt, st2) \<Rightarrow> (Some (pt, pt_index v), st2))"

text \<open>The result is the frame and index of the entry for \<open>v\<close>.\<close>

definition mm_get_page_table :: "addr \<Rightarrow> bool \<Rightarrow> vm \<Rightarrow> (u64 \<times> nat) option \<times> vm" where
  "mm_get_page_table v create st =
     (let pml4 = cr3 st AND NOT 0xFFF in
      case next_table create (PAGE_PRESENT OR PAGE_WRITABLE) pml4 (pml4_index v) st of
        (None, st1) \<Rightarrow> (None, st1)
      | (Some pdpt, st1) \<Rightarrow>
          (case next_table create (PAGE_PRESENT OR PAGE_WRITABLE) pdpt (pdpt_index v) st1 of
             (None, st2) \<Rightarrow> (None, st2)
           | (Some pd, st2) \<Rightarrow> walk_pd create pd v st2))"

section \<open>Mapping, unmapping and lookup\<close>

definition mm_map_page :: "addr \<Rightarrow> u64 \<Rightarrow> u64 \<Rightarrow> vm \<Rightarrow> bool \<times> vm" where
  "mm_map_page v physical_addr flags st =
     (case mm_get_page_table v True st of
        (None, st1) \<Rightarrow> (False, st1)
      | (Some (pt, i), st1) \<Rightarrow>
          (True, set_entry pt i ((physical_addr AND NOT 0xFFF) OR flags) st1))"

definition mm_unmap_page_no_shootdown :: "addr \<Rightarrow> vm \<Rightarrow> vm" where
  "mm_unmap_page_no_shootdown v st =
     (case mm_get_page_table v False st of
        (None, st1) \<Rightarrow> st1
      | (Some (pt, i), st1) \<Rightarrow>
          if ram st1 pt i AND PAGE_PRESENT \<noteq> 0 then set_entry pt i 0 st1 else st1)"

definition mm_unmap_page :: "addr \<Rightarrow> vm \<Rightarrow> vm" where
  "mm_unmap_page v st = mm_unmap_page_no_shootdown v st"

definition mm_get_physical_address :: "addr \<Rightarrow> vm \<Rightarrow> u64" where
  "mm_get_physical_address v st =
     (if is_direct_map_addr v then v - PHYS_MAP_BASE
      else case fst (mm_get_page_table v False st) of
             None \<Rightarrow> 0
           | Some (pt, i) \<Rightarrow>
               if ram st pt i AND PAGE_PRESENT \<noteq> 0
               then (ram st pt i AND 0x000FFFFFFFFFF000) OR (v AND 0xFFF)
               else 0)"

definition mm_is_page_mapped :: "addr \<Rightarrow> vm \<Rightarrow> bool" where
  "mm_is_page_mapped v st =
     (case fst (mm_get_page_table v False st) of
        None \<Rightarrow> False
      | Some (pt, i) \<Rightarrow> ram st pt i AND PAGE_PRESENT \<noteq> 0)"

definition mm_get_page_flags :: "addr \<Rightarrow> vm \<Rightarrow> u64" where
  "mm_get_page_flags v st =
     (case fst (mm_get_page_table v False st) of
        None \<Rightarrow> 0
      | Some (pt, i) \<Rightarrow> (ram st pt i AND 0xFFF) OR (ram st pt i AND PAGE_NO_EXECUTE))"

definition mm_set_page_flags :: "addr \<Rightarrow> u64 \<Rightarrow> vm \<Rightarrow> bool \<times> vm" where
  "mm_set_page_flags v flags st =
     (case mm_get_page_table v False st of
        (None, st1) \<Rightarrow> (False, st1)
      | (Some (pt, i), st1) \<Rightarrow>
          if ram st1 pt i AND PAGE_PRESENT \<noteq> 0
          then (True, set_entry pt i ((ram st1 pt i AND 0x000FFFFFFFFFF000) OR flags) st1)
          else (False, st1))"

definition mm_mark_page_cow :: "addr \<Rightarrow> vm \<Rightarrow> bool \<times> vm" where
  "mm_mark_page_cow v st =
     (case mm_get_page_table v False st of
        (None, st1) \<Rightarrow> (False, st1)
      | (Some (pt, i), st1) \<Rightarrow>
          if ram st1 pt i AND PAGE_PRESENT = 0 then (False, st1)
          else (True, set_entry pt i ((ram st1 pt i AND NOT PAGE_WRITABLE) OR PAGE_COW) st1))"

end
