(* ===== verification/PtPool.thy ===== *)
theory PtPool
  imports Paging
begin

text \<open>
  The pool of page-table pages of theory \<^verbatim>\<open>Paging\<close> meets the contract of a page source:
  every page is handed out to one holder at a time, whether it is recycled, taken
  from the reserved region or from the general page allocator.
\<close>

section \<open>Shape of the pool\<close>

definition pool_frame :: "vm \<Rightarrow> nat \<Rightarrow> u64" where
  "pool_frame st i = pt_pool_phys_start st + of_nat i * PAGE_SIZE"

text \<open>The recycled pages: each one's first word is the address of the next.\<close>

fun chain :: "(u64 \<Rightarrow> nat \<Rightarrow> u64) \<Rightarrow> u64 \<Rightarrow> u64 list \<Rightarrow> bool" where
  "chain m h [] \<longleftrightarrow> h = 0"
| "chain m h (t # ts) \<longleftrightarrow> h = t \<and> t \<noteq> 0 \<and> chain m (m t 0) ts"

lemma chain_unique: "chain m h ts \<Longrightarrow> chain m h us \<Longrightarrow> ts = us"
proof (induction ts arbitrary: h us)
  case Nil
  then show ?case by (cases us) auto
next
  case (Cons t ts)
  then show ?case by (cases us) auto
qed

lemma chain_upd [simp]: "t \<notin> set ts \<Longrightarrow> chain (m(t := f)) h ts \<longleftrightarrow> chain m h ts"
  by (induction ts arbitrary: h) auto

definition pool_shape :: "vm \<Rightarrow> u64 list \<Rightarrow> bool" where
  "pool_shape st fl \<longleftrightarrow>
     chain (ram st) (pt_pool_freelist st) fl \<and> distinct fl \<and>
     set fl \<subseteq> pool_frame st ` {..<unat (pt_pool_next st)} \<and>
     unat (pt_pool_next st) \<le> unat (pt_pool_size st) \<and>
     0 < unat (pt_pool_phys_start st) \<and> 4096 dvd unat (pt_pool_phys_start st) \<and>
     unat (pt_pool_phys_start st) + unat (pt_pool_size st) * 4096 \<le> 2 ^ 52 \<and>
     pt_pool_initialized st \<and> phys_inv (vmm st) \<and>
     (unat (pt_pool_phys_start st) + unat (pt_pool_size st) * 4096 \<le> unat (memory_start (vmm st)) \<or>
      unat (memory_end (vmm st)) \<le> unat (pt_pool_phys_start st))"

definition pt_inv :: "vm \<Rightarrow> bool" where
  "pt_inv st \<longleftrightarrow> (\<exists>fl. pool_shape st fl)"

text \<open>The pages handed out: from the pool and not recycled, or from the page allocator.\<close>

definition pt_used :: "vm \<Rightarrow> u64 set" where
  "pt_used st =
     {pool_frame st i | i. i < unat (pt_pool_next st) \<and>
        (\<forall>fl. chain (ram st) (pt_pool_freelist st) fl \<longrightarrow> pool_frame st i \<notin> set fl)} \<union>
     used_frames (vmm st)"

lemma pt_used_eq:
  assumes "pool_shape st fl"
  shows "pt_used st = (pool_frame st ` {..<unat (pt_pool_next st)} - set fl) \<union> used_frames (vmm st)"
proof -
  have "chain (ram st) (pt_pool_freelist st) us \<longleftrightarrow> us = fl" for us
    using assms chain_unique by (auto simp: pool_shape_def)
  then show ?thesis by (auto simp: pt_used_def)
qed

lemma unat_pool_frame:
  assumes "pool_shape st fl" and "i < unat (pt_pool_size st)"
  shows "unat (pool_frame st i) = unat (pt_pool_phys_start st) + i * 4096"
proof -
  have bound: "unat (pt_pool_phys_start st) + i * 4096 < 2 ^ 64"
    using assms unfolding pool_shape_def by simp
  then have i: "unat (of_nat i :: u64) = i" by (intro unat_of_nat_small) simp
  with bound have "unat (of_nat i * PAGE_SIZE) = i * 4096"
    by (subst unat_times_no_wrap) auto
  with bound show ?thesis unfolding pool_frame_def by (subst unat_plus_no_wrap) auto
qed

lemma pool_frame_inj:
  assumes "pool_shape st fl" and "i < unat (pt_pool_size st)" and "j < unat (pt_pool_size st)"
    and "pool_frame st i = pool_frame st j"
  shows "i = j"
proof -
  have "unat (pool_frame st i) = unat (pool_frame st j)" using assms(4) by (rule arg_cong)
  then show ?thesis
    unfolding unat_pool_frame [OF assms(1,2)] unat_pool_frame [OF assms(1,3)] by simp
qed

lemma pool_frame_facts:
  assumes "pool_shape st fl" and "i < unat (pt_pool_size st)"
  shows "pool_frame st i \<noteq> 0" and "frame_aligned (pool_frame st i)"
    and "pool_frame st i \<notin> used_frames (vmm st)"
proof -
  note u = unat_pool_frame [OF assms]
  show "pool_frame st i \<noteq> 0" using u assms(1) by (auto simp: pool_shape_def)
  show "frame_aligned (pool_frame st i)"
  proof (rule frame_alignedI)
    show "4096 dvd unat (pool_frame st i)" unfolding u using assms(1) by (simp add: pool_shape_def)
    show "unat (pool_frame st i) < 2 ^ 52" unfolding u using assms by (simp add: pool_shape_def)
  qed
  show "pool_frame st i \<notin> used_frames (vmm st)"
  proof
    assume "pool_frame st i \<in> used_frames (vmm st)"
    then obtain p where p: "pool_frame st i = page_addr (vmm st) p" "p < unat (total_pages (vmm st))"
      by (auto simp: used_frames_def)
    have inv: "phys_inv (vmm st)" using assms(1) by (simp add: pool_shape_def)
    have "unat (memory_start (vmm st)) + unat (total_pages (vmm st)) * 4096 \<le> unat (memory_end (vmm st))"
      using inv by (simp add: phys_inv_def)
    then show False
      using unat_page_addr [OF inv p(2)] p u assms unfolding pool_shape_def by auto
  qed
qed

text \<open>Writing a word of a page in use leaves the pool alone.\<close>

lemma pool_shape_set_entry:
  assumes "pool_shape st fl" and "t \<in> pt_used st"
  shows "pool_shape (set_entry t i e st) fl"
proof -
  have "t \<notin> set fl"
    using assms pool_frame_facts(3) [OF assms(1)] unfolding pt_used_eq [OF assms(1)]
    by (fastforce simp: pool_shape_def)
  then have "chain (ram (set_entry t i e st)) (pt_pool_freelist st) fl"
    using assms(1) by (simp add: pool_shape_def set_entry_def)
  then show ?thesis
    using assms(1) by (auto simp: pool_shape_def set_entry_def pool_frame_def)
qed

lemma pt_set_entry:
  assumes "pt_inv st" and "t \<in> pt_used st"
  shows "pt_inv (set_entry t i e st)" and "pt_used (set_entry t i e st) = pt_used st"
proof -
  obtain fl where sh: "pool_shape st fl" using assms(1) by (auto simp: pt_inv_def)
  note sh' = pool_shape_set_entry [OF sh assms(2), of i e]
  then show "pt_inv (set_entry t i e st)" by (auto simp: pt_inv_def)
  have "pool_frame (set_entry t i e st) = pool_frame st"
    by (auto simp: fun_eq_iff pool_frame_def set_entry_def)
  then show "pt_used (set_entry t i e st) = pt_used st"
    unfolding pt_used_eq [OF sh] pt_used_eq [OF sh'] by (simp add: set_entry_def)
qed

text \<open>What allocation does, in each of its three cases.\<close>

lemma allocate_pt_page_step:
  assumes sh: "pool_shape st fl" and run: "allocate_pt_page st = (a, st')" and nz: "a \<noteq> 0"
  obtains fl' where "pool_shape st' fl'" and "a \<notin> pt_used st" and "pt_used st' = insert a (pt_used st)"
    and "frame_aligned a" and "ram st' = (ram st)(a := \<lambda>_. 0)" and "cr3 st' = cr3 st"
proof -
  have init: "pt_pool_initialized st" using sh by (simp add: pool_shape_def)
  consider (recycled) "pt_pool_freelist st \<noteq> 0"
    | (pool) "pt_pool_freelist st = 0" "pt_pool_next st < pt_pool_size st"
    | (general) "pt_pool_freelist st = 0" "\<not> pt_pool_next st < pt_pool_size st" by blast
  then show thesis
  proof cases
    case recycled
    have st': "a = pt_pool_freelist st" "st' = zero_frame a (st\<lparr>pt_pool_freelist := ram st a 0\<rparr>)"
      using run init recycled by (auto simp: allocate_pt_page_def Let_def)
    obtain fl' where fl: "fl = a # fl'" and ch: "chain (ram st) (ram st a 0) fl'"
      using sh recycled st'(1) by (cases fl) (auto simp: pool_shape_def)
    have pf: "pool_frame st' = pool_frame st"
      by (auto simp: fun_eq_iff pool_frame_def st'(2) zero_frame_def)
    have "a \<notin> set fl'" using sh fl by (simp add: pool_shape_def)
    then have "chain (ram st') (ram st a 0) fl'"
      using ch by (simp add: st'(2) zero_frame_def)
    then have sh': "pool_shape st' fl'"
      using sh pf by (auto simp: pool_shape_def st'(2) zero_frame_def fl)
    obtain i where i: "a = pool_frame st i" "i < unat (pt_pool_next st)"
      using sh fl by (auto simp: pool_shape_def)
    then have isz: "i < unat (pt_pool_size st)" using sh by (auto simp: pool_shape_def)
    note ff = pool_frame_facts [OF sh isz, folded i(1)]
    show thesis
    proof (rule that [OF sh'])
      show "a \<notin> pt_used st" unfolding pt_used_eq [OF sh] using ff(3) fl by simp
      show "pt_used st' = insert a (pt_used st)"
        unfolding pt_used_eq [OF sh] pt_used_eq [OF sh'] pf
        using i \<open>a \<notin> set fl'\<close> by (auto simp: st'(2) zero_frame_def fl)
      show "frame_aligned a" by (rule ff(2))
    qed (simp_all add: st'(2) zero_frame_def)
  next
    case pool
    define n where "n = unat (pt_pool_next st)"
    have nsz: "n < unat (pt_pool_size st)" using pool(2) by (simp add: n_def word_less_nat_alt)
    have st': "a = pool_frame st n" "st' = zero_frame a (st\<lparr>pt_pool_next := pt_pool_next st + 1\<rparr>)"
      using run init pool by (auto simp: allocate_pt_page_def Let_def pool_frame_def n_def)
    have fl: "fl = []" using sh pool(1) by (cases fl) (auto simp: pool_shape_def)
    have pf: "pool_frame st' = pool_frame st"
      by (auto simp: fun_eq_iff pool_frame_def st'(2) zero_frame_def)
    have n1: "unat (pt_pool_next st + 1) = Suc n"
      using nsz unat_lt_2p [of "pt_pool_size st"]
      by (subst unat_plus_no_wrap) (simp_all add: n_def)
    have sh': "pool_shape st' []"
      using sh fl pf pool(1) nsz n1 by (auto simp: pool_shape_def st'(2) zero_frame_def)
    note ff = pool_frame_facts [OF sh nsz, folded st'(1)]
    show thesis
    proof (rule that [OF sh'])
      have "a \<notin> pool_frame st ` {..<n}"
      proof
        assume "a \<in> pool_frame st ` {..<n}"
        then obtain i where "i < n" "pool_frame st i = pool_frame st n" using st'(1) by auto
        with pool_frame_inj [OF sh _ nsz, of i] nsz show False by simp
      qed
      then show "a \<notin> pt_used st" unfolding pt_used_eq [OF sh] using ff(3) by (simp add: n_def)
      show "pt_used st' = insert a (pt_used st)"
        unfolding pt_used_eq [OF sh] pt_used_eq [OF sh'] pf
        by (auto simp: st' zero_frame_def fl n1 n_def lessThan_Suc)
      show "frame_aligned a" by (rule ff(2))
    qed (simp_all add: st'(2) zero_frame_def)
  next
    case general
    obtain s1 where mm: "mm_allocate_physical_page (vmm st) = (a, s1)"
      and st': "st' = zero_frame a (st\<lparr>vmm := s1\<rparr>)"
      using run init general nz by (auto simp: allocate_pt_page_def Let_def split: prod.splits if_splits)
    have inv: "phys_inv (vmm st)" using sh by (simp add: pool_shape_def)
    note fr = mm_allocate_physical_page_frame [OF inv mm]
    have fl: "fl = []" using sh general(1) by (cases fl) (auto simp: pool_shape_def)
    have pf: "pool_frame st' = pool_frame st"
      by (auto simp: fun_eq_iff pool_frame_def st' zero_frame_def)
    have sh': "pool_shape st' []"
      using sh fl pf general(1) fr pages.alloc_inv [OF inv mm]
      by (auto simp: pool_shape_def st' zero_frame_def)
    obtain p where p: "a = page_addr (vmm st) p" "\<not> page_used (vmm st) p"
      using allocate_page_step [OF inv mm] nz by blast
    have plt: "p < unat (total_pages (vmm st))" by (rule free_page_less [OF inv p(2)])
    have new: "a \<notin> pool_frame st ` {..<unat (pt_pool_next st)}"
    proof
      assume "a \<in> pool_frame st ` {..<unat (pt_pool_next st)}"
      then obtain i where i: "a = pool_frame st i" "i < unat (pt_pool_size st)"
        using sh by (auto simp: pool_shape_def)
      have "unat (memory_start (vmm st)) + unat (total_pages (vmm st)) * 4096 \<le> unat (memory_end (vmm st))"
        using inv by (simp add: phys_inv_def)
      then show False
        using unat_page_addr [OF inv plt] unat_pool_frame [OF sh i(2)] p(1) i plt sh
        unfolding pool_shape_def by auto
    qed
    show thesis
    proof (rule that [OF sh'])
      show "a \<notin> pt_used st"
        unfolding pt_used_eq [OF sh] using new pages.alloc_fresh [OF inv mm nz] by simp
      show "pt_used st' = insert a (pt_used st)"
        unfolding pt_used_eq [OF sh] pt_used_eq [OF sh'] pf
        using pages.alloc_used [OF inv mm nz] new by (auto simp: st' zero_frame_def fl)
      show "frame_aligned a" using page_addr_aligned [OF inv plt] p(1) by simp
    qed (simp_all add: st' zero_frame_def)
  qed
qed

lemma allocate_pt_page_fail:
  assumes "pt_inv st" and "allocate_pt_page st = (0, st')"
  shows "st' = st"
proof -
  obtain fl where sh: "pool_shape st fl" using assms(1) by (auto simp: pt_inv_def)
  have "pool_frame st (unat (pt_pool_next st)) \<noteq> 0" if "pt_pool_next st < pt_pool_size st"
    using pool_frame_facts(1) [OF sh] that by (simp add: word_less_nat_alt)
  then show ?thesis
    using assms(2) sh pages.alloc_fail [of "vmm st"]
    by (auto simp: allocate_pt_page_def Let_def pool_shape_def pool_frame_def
        split: if_splits prod.splits)
qed

section \<open>The contract\<close>

lemma free_pt_page_step:
  assumes sh: "pool_shape st fl" and used: "a \<in> pt_used st"
  obtains fl' where "pool_shape (free_pt_page a st) fl'"
    and "pt_used (free_pt_page a st) = pt_used st - {a}"
proof -
  have inv: "phys_inv (vmm st)" using sh by (simp add: pool_shape_def)
  let ?s = "unat (pt_pool_phys_start st)" and ?n = "unat (pt_pool_size st)"
  have bound: "?s + ?n * 4096 \<le> 2 ^ 52" using sh by (simp add: pool_shape_def)
  then have "unat (pt_pool_size st * PAGE_SIZE) = ?n * 4096"
    by (subst unat_times_no_wrap) simp_all
  with bound have end_eq: "unat (pt_pool_phys_start st + pt_pool_size st * PAGE_SIZE) = ?s + ?n * 4096"
    by (subst unat_plus_no_wrap) simp_all
  show thesis
  proof (cases "a \<in> used_frames (vmm st)")
    case True
    then obtain p where p: "a = page_addr (vmm st) p" "p < unat (total_pages (vmm st))"
      by (auto simp: used_frames_def)
    have a0: "a \<noteq> 0" using page_addr_managed(3) [OF inv p(2)] p(1) by simp
    have ua: "unat a = unat (memory_start (vmm st)) + p * 4096"
      unfolding p(1) by (rule unat_page_addr [OF inv p(2)])
    have top: "unat (memory_start (vmm st)) + p * 4096 < unat (memory_end (vmm st))"
      using inv p(2) by (simp add: phys_inv_def)
    have out: "\<not> (pt_pool_phys_start st \<le> a \<and> a < pt_pool_phys_start st + pt_pool_size st * PAGE_SIZE)"
      using sh ua top unfolding word_le_nat_alt word_less_nat_alt end_eq pool_shape_def by auto
    define st' where "st' = st\<lparr>vmm := mm_free_physical_page a (vmm st)\<rparr>"
    have eq: "free_pt_page a st = st'" using a0 out by (auto simp: free_pt_page_def Let_def st'_def)
    have pf: "pool_frame st' = pool_frame st" by (auto simp: fun_eq_iff pool_frame_def st'_def)
    have sh': "pool_shape st' fl"
      using sh pages.free_inv [OF inv True] pf by (simp add: pool_shape_def st'_def)
    have "a \<notin> pool_frame st ` {..<unat (pt_pool_next st)} - set fl"
      using pool_frame_facts(3) [OF sh] True sh by (fastforce simp: pool_shape_def)
    then have "pt_used st' = pt_used st - {a}"
      unfolding pt_used_eq [OF sh] pt_used_eq [OF sh'] pf
      using pages.free_used [OF inv True] by (auto simp: st'_def)
    with sh' eq that show thesis by simp
  next
    case False
    then obtain i where i: "a = pool_frame st i" "i < unat (pt_pool_next st)" and nf: "a \<notin> set fl"
      using used unfolding pt_used_eq [OF sh] by auto
    have isz: "i < ?n" using i(2) sh by (simp add: pool_shape_def)
    note ff = pool_frame_facts [OF sh isz, folded i(1)]
    have "unat a = ?s + i * 4096" unfolding i(1) by (rule unat_pool_frame [OF sh isz])
    then have within: "pt_pool_phys_start st \<le> a" "a < pt_pool_phys_start st + pt_pool_size st * PAGE_SIZE"
      using isz by (simp_all add: word_le_nat_alt word_less_nat_alt end_eq)
    define st' where "st' = (set_entry a 0 (pt_pool_freelist st) st)\<lparr>pt_pool_freelist := a\<rparr>"
    have eq: "free_pt_page a st = st'"
      using ff(1) within by (simp add: free_pt_page_def Let_def st'_def)
    have pf: "pool_frame st' = pool_frame st"
      by (auto simp: fun_eq_iff pool_frame_def st'_def set_entry_def)
    have "chain (ram st') a (a # fl)"
      using sh nf ff(1) by (simp add: st'_def set_entry_def pool_shape_def)
    then have sh': "pool_shape st' (a # fl)"
      using sh nf pf i by (auto simp: pool_shape_def st'_def set_entry_def)
    have "pt_used st' = pt_used st - {a}"
      unfolding pt_used_eq [OF sh] pt_used_eq [OF sh'] pf
      using ff(3) by (auto simp: st'_def set_entry_def)
    with sh' eq that show thesis by simp
  qed
qed

interpretation pt_pages: page_source allocate_pt_page free_pt_page pt_used pt_inv
proof unfold_locales
  fix st a st'
  assume inv: "pt_inv st" and run: "allocate_pt_page st = (a, st')"
  obtain fl where sh: "pool_shape st fl" using inv by (auto simp: pt_inv_def)
  show "pt_inv st'"
  proof (cases "a = 0")
    case True
    then show ?thesis using allocate_pt_page_fail [OF inv] run inv by simp
  next
    case False
    then show ?thesis using allocate_pt_page_step [OF sh run] by (auto simp: pt_inv_def)
  qed
  assume nz: "a \<noteq> 0"
  show "a \<notin> pt_used st" "pt_used st' = insert a (pt_used st)"
    using allocate_pt_page_step [OF sh run nz] by metis+
next
  fix st st'
  assume "pt_inv st" "allocate_pt_page st = (0, st')"
  then show "st' = st" by (rule allocate_pt_page_fail)
next
  fix st a
  assume inv: "pt_inv st" and used: "a \<in> pt_used st"
  obtain fl where sh: "pool_shape st fl" using inv by (auto simp: pt_inv_def)
  show "pt_inv (free_pt_page a st)" "pt_used (free_pt_page a st) = pt_used st - {a}"
    using free_pt_page_step [OF sh used] by (metis pt_inv_def)+
qed

end
