(* ===== verification/Translate.thy ===== *)
theory Translate
  imports PtPool
begin

text \<open>
  What the processor makes of the page tables, and that \<^verbatim>\<open>mm_map_page\<close>,
  \<^verbatim>\<open>mm_unmap_page\<close> and \<^verbatim>\<open>mm_get_physical_address\<close> of theory \<^verbatim>\<open>Paging\<close> agree with it:
  mapping a page gives that page its translation and takes at most user access from others, whatever
  tables had to be created or split on the way.
\<close>

section \<open>The translation\<close>

text \<open>An entry that points to a table of the next level: present, not a large page.\<close>

definition is_table :: "u64 \<Rightarrow> bool" where
  "is_table e \<longleftrightarrow> bit e 0 \<and> \<not> bit e 7"

text \<open>The entries the processor reads from table \<open>t\<close> on, up to the first that is not a table.\<close>

fun walk :: "(u64 \<Rightarrow> nat \<Rightarrow> u64) \<Rightarrow> u64 \<Rightarrow> nat list \<Rightarrow> u64 list" where
  "walk m t [] = []"
| "walk m t (i # p) =
     m t i # (if is_table (m t i) then walk m (m t i AND PTE_ADDR_MASK) p else [])"

definition path :: "addr \<Rightarrow> nat list" where
  "path v = [pml4_index v, pdpt_index v, pd_index v, pt_index v]"

text \<open>
  The outcome for the entries read: the physical address, and whether the page is
  writable, open to user mode and not executable. Four entries end in a 4 KiB page,
  three in a 2 MiB page, two in a 1 GiB page.
\<close>

definition decode :: "addr \<Rightarrow> u64 list \<Rightarrow> (u64 \<times> bool \<times> bool \<times> bool) option" where
  "decode v es =
     (if es = [] \<or> \<not> bit (last es) 0 \<or> length es = 1 then None
      else Some
        (if length es = 4 then (last es AND PTE_ADDR_MASK) OR (v AND 0xFFF)
         else if length es = 3 then (last es AND 0x000FFFFFFFE00000) OR (v AND 0x1FFFFF)
         else (last es AND 0x000FFFFFC0000000) OR (v AND 0x3FFFFFFF),
         list_all (\<lambda>e. bit e 1) es, list_all (\<lambda>e. bit e 2) es, list_ex (\<lambda>e. bit e 63) es))"

definition mmu :: "vm \<Rightarrow> u64 \<Rightarrow> addr \<Rightarrow> (u64 \<times> bool \<times> bool \<times> bool) option" where
  "mmu st r v = decode v (walk (ram st) r (path v))"

section \<open>The tree of tables\<close>

fun table_at :: "(u64 \<Rightarrow> nat \<Rightarrow> u64) \<Rightarrow> u64 \<Rightarrow> nat list \<Rightarrow> u64 option" where
  "table_at m t [] = Some t"
| "table_at m t (i # p) =
     (if is_table (m t i) then table_at m (m t i AND PTE_ADDR_MASK) p else None)"

lemma table_at_append:
  "table_at m t (p @ q) = (case table_at m t p of None \<Rightarrow> None | Some u \<Rightarrow> table_at m u q)"
  by (induction m t p rule: table_at.induct) auto

lemma table_at_snoc:
  "table_at m t (p @ [i]) = (case table_at m t p of None \<Rightarrow> None
     | Some u \<Rightarrow> if is_table (m u i) then Some (m u i AND PTE_ADDR_MASK) else None)"
  by (simp add: table_at_append split: option.split)

lemma walk_append:
  "table_at m t p = Some u \<Longrightarrow> walk m t (p @ q) = walk m t p @ walk m u q"
  by (induction m t p rule: table_at.induct) (auto split: if_splits)

lemma length_walk: "table_at m t p = Some u \<Longrightarrow> length (walk m t p) = length p"
  by (induction m t p rule: table_at.induct) (auto split: if_splits)

text \<open>Both depend only on the entries that lie on the path.\<close>

lemma walk_cong:
  assumes "\<And>q i s u. p = q @ i # s \<Longrightarrow> table_at m t q = Some u \<Longrightarrow> m' u i = m u i"
  shows "walk m' t p = walk m t p"
  using assms
proof (induction p arbitrary: t)
  case (Cons i p)
  have e: "m' t i = m t i" using Cons.prems [of "[]" i p t] by simp
  show ?case
  proof (cases "is_table (m t i)")
    case True
    have "walk m' (m t i AND PTE_ADDR_MASK) p = walk m (m t i AND PTE_ADDR_MASK) p"
      using Cons.prems [of "i # _"] True by (intro Cons.IH) simp
    then show ?thesis using e by simp
  qed (simp add: e)
qed simp

lemma table_at_cong:
  assumes "\<And>q i s u. p = q @ i # s \<Longrightarrow> table_at m t q = Some u \<Longrightarrow> m' u i = m u i"
  shows "table_at m' t p = table_at m t p"
  using assms
proof (induction p arbitrary: t)
  case (Cons i p)
  have e: "m' t i = m t i" using Cons.prems [of "[]" i p t] by simp
  show ?case
  proof (cases "is_table (m t i)")
    case True
    have "table_at m' (m t i AND PTE_ADDR_MASK) p = table_at m (m t i AND PTE_ADDR_MASK) p"
      using Cons.prems [of "i # _"] True by (intro Cons.IH) simp
    then show ?thesis using e by simp
  qed (simp add: e)
qed simp

text \<open>
  The invariant: every table is a page in use, each is reached by one path only, and
  the two upper levels hold no large pages.
\<close>

definition short :: "nat list \<Rightarrow> bool" where
  "short p \<longleftrightarrow> length p \<le> 3 \<and> set p \<subseteq> {..<512}"

definition tree_inv :: "vm \<Rightarrow> u64 \<Rightarrow> bool" where
  "tree_inv st r \<longleftrightarrow>
     pt_inv st \<and>
     (\<forall>p t. short p \<longrightarrow> table_at (ram st) r p = Some t \<longrightarrow> t \<in> pt_used st) \<and>
     (\<forall>p q t. short p \<longrightarrow> short q \<longrightarrow> table_at (ram st) r p = Some t \<longrightarrow>
        table_at (ram st) r q = Some t \<longrightarrow> p = q) \<and>
     (\<forall>p t i. short p \<longrightarrow> length p \<le> 1 \<longrightarrow> table_at (ram st) r p = Some t \<longrightarrow> i < 512 \<longrightarrow>
        bit (ram st t i) 0 \<longrightarrow> \<not> bit (ram st t i) 7)"

lemma tree_invD:
  assumes "tree_inv st r"
  shows "pt_inv st"
    and "short p \<Longrightarrow> table_at (ram st) r p = Some t \<Longrightarrow> t \<in> pt_used st"
    and "short p \<Longrightarrow> short q \<Longrightarrow> table_at (ram st) r p = Some t \<Longrightarrow>
      table_at (ram st) r q = Some t \<Longrightarrow> p = q"
    and "short p \<Longrightarrow> length p \<le> 1 \<Longrightarrow> table_at (ram st) r p = Some t \<Longrightarrow> i < 512 \<Longrightarrow>
      bit (ram st t i) 0 \<Longrightarrow> \<not> bit (ram st t i) 7"
  using assms unfolding tree_inv_def by blast+

lemma short_prefix: "short (p @ q) \<Longrightarrow> short p"
  by (auto simp: short_def)

lemma index_less: "unat (drop_bit k (v :: u64) AND 0x1FF) < 512"
proof -
  have "(0x1FF :: u64) = mask 9" by (simp add: mask_eq_exp_minus_1)
  then show ?thesis using unat_and_mask [of "drop_bit k v" 9] by simp
qed

lemma path_short: "short (take n (path v))" if "n \<le> 3"
  using that index_less [of 39 v] index_less [of 30 v] index_less [of 21 v]
  by (auto simp: short_def path_def pml4_index_def pdpt_index_def pd_index_def pt_index_def
      numeral_eq_Suc take_Cons' dest!: in_set_takeD)

lemma path_less: "set (path v) \<subseteq> {..<512}" and path_length [simp]: "length (path v) = 4"
  using index_less [of 39 v] index_less [of 30 v] index_less [of 21 v] index_less [of 12 v]
  by (simp_all add: path_def pml4_index_def pdpt_index_def pd_index_def pt_index_def)

section \<open>Adding a table\<close>

text \<open>
  A new table \<open>f\<close> (not in use before, with contents \<open>g\<close> that hold no tables) is hung
  below entry \<open>i\<close> of the table at \<open>q\<close>, where there was none.
\<close>

definition adds_table :: "vm \<Rightarrow> u64 \<Rightarrow> nat list \<Rightarrow> u64 \<Rightarrow> nat \<Rightarrow> u64 \<Rightarrow> (nat \<Rightarrow> u64) \<Rightarrow> u64 \<Rightarrow>
    (u64 \<Rightarrow> nat \<Rightarrow> u64) \<Rightarrow> bool" where
  "adds_table st r q t i f g e m' \<longleftrightarrow>
     tree_inv st r \<and> short (q @ [i]) \<and> table_at (ram st) r q = Some t \<and>
     \<not> is_table (ram st t i) \<and> f \<notin> pt_used st \<and> is_table e \<and> e AND PTE_ADDR_MASK = f \<and>
     (length q < 2 \<longrightarrow> g = (\<lambda>_. 0)) \<and> m' = (ram st)(f := g, t := (ram st t)(i := e))"

lemma adds_tableD:
  assumes "adds_table st r q t i f g e m'"
  shows "tree_inv st r" "short (q @ [i])" "table_at (ram st) r q = Some t"
    and "\<not> is_table (ram st t i)" "f \<notin> pt_used st" "is_table e" "e AND PTE_ADDR_MASK = f"
    and "length q < 2 \<Longrightarrow> g = (\<lambda>_. 0)" "m' = (ram st)(f := g, t := (ram st t)(i := e))"
    and "short q" "t \<noteq> f"
proof -
  show "tree_inv st r" "short (q @ [i])" "table_at (ram st) r q = Some t"
    "\<not> is_table (ram st t i)" "f \<notin> pt_used st" "is_table e" "e AND PTE_ADDR_MASK = f"
    "length q < 2 \<Longrightarrow> g = (\<lambda>_. 0)" "m' = (ram st)(f := g, t := (ram st t)(i := e))"
    using assms by (simp_all add: adds_table_def)
  then show "short q" and "t \<noteq> f" using short_prefix tree_invD(2) by blast+
qed

lemma adds_table_entry_other:
  assumes N: "adds_table st r q t i f g e m'"
    and "short p" and "table_at (ram st) r p = Some u" and "p \<noteq> q \<or> j \<noteq> i"
  shows "m' u j = ram st u j"
proof -
  note D = adds_tableD [OF N]
  have "u \<noteq> f" using tree_invD(2) [OF D(1) assms(2,3)] D(5) by auto
  moreover have "u = t \<Longrightarrow> j \<noteq> i"
    using tree_invD(3) [OF D(1) assms(2) D(10) assms(3)] D(3) assms(4) by auto
  ultimately show ?thesis by (auto simp: D(9))
qed

text \<open>Paths that do not go through the new entry are as before.\<close>

lemma adds_table_old_tables:
  assumes N: "adds_table st r q t i f g e m'" and "short p" and "\<nexists>s. p = q @ i # s"
  shows "table_at m' r p = table_at (ram st) r p"
proof (rule table_at_cong)
  fix q' j s u assume p: "p = q' @ j # s" and u: "table_at (ram st) r q' = Some u"
  have "q' \<noteq> q \<or> j \<noteq> i" using p assms(3) by auto
  then show "m' u j = ram st u j"
    using adds_table_entry_other [OF N _ u] short_prefix [of q' "j # s"] assms(2) p by blast
qed

lemma adds_table_old_walk:
  assumes N: "adds_table st r q t i f g e m'"
    and "length p \<le> 4" and "set p \<subseteq> {..<512}" and "\<nexists>s. p = q @ i # s"
  shows "walk m' r p = walk (ram st) r p"
proof (rule walk_cong)
  fix q' j s u assume p: "p = q' @ j # s" and u: "table_at (ram st) r q' = Some u"
  have "short q'" using assms p by (auto simp: short_def)
  then show "m' u j = ram st u j" using adds_table_entry_other [OF N _ u] p assms(4) by blast
qed

lemma adds_table_at:
  assumes N: "adds_table st r q t i f g e m'"
  shows "table_at m' r q = Some t" and "table_at m' r (q @ [i]) = Some f"
proof -
  note D = adds_tableD [OF N]
  show "table_at m' r q = Some t" using adds_table_old_tables [OF N D(10)] D(3) by auto
  then show "table_at m' r (q @ [i]) = Some f"
    using D(6,7) by (simp add: table_at_snoc D(9))
qed

lemma adds_table_tables:
  assumes N: "adds_table st r q t i f g e m'" and "short p"
  shows "table_at m' r p = (if p = q @ [i] then Some f else table_at (ram st) r p)"
proof (cases "\<exists>s. p = q @ i # s")
  case True
  then obtain s where s: "p = q @ i # s" ..
  note D = adds_tableD [OF N]
  have "table_at (ram st) r p = None" using D(3,4) by (simp add: s table_at_append)
  moreover have "table_at m' r p = (if s = [] then Some f else None)"
  proof (cases s)
    case (Cons j s')
    have "length q < 2" using assms(2) s Cons by (simp add: short_def)
    then have "m' f j = 0" using D(8,11) by (simp add: D(9))
    then have "table_at m' f s = None" using Cons by (simp add: is_table_def)
    then show ?thesis
      using adds_table_at(2) [OF N] Cons table_at_append [of m' r "q @ [i]" s] by (simp add: s)
  qed (simp add: s adds_table_at [OF N])
  ultimately show ?thesis using s by simp
next
  case False
  then have "p \<noteq> q @ [i]" by auto
  then show ?thesis using adds_table_old_tables [OF N assms(2) False] by simp
qed

lemma adds_table_tree:
  assumes N: "adds_table st r q t i f g e m'"
    and pool: "pt_inv st'" "pt_used st' = insert f (pt_used st)" and ram: "ram st' = m'"
  shows "tree_inv st' r"
  unfolding tree_inv_def ram
proof (intro conjI allI impI)
  note D = adds_tableD [OF N] and tab = adds_table_tables [OF N]
  show "pt_inv st'" by (rule pool)
  show "u \<in> pt_used st'" if "short p" "table_at m' r p = Some u" for p u
    using that tab [OF that(1)] tree_invD(2) [OF D(1) that(1)] pool(2) by (auto split: if_splits)
  have nf: "table_at (ram st) r p \<noteq> Some f" if "short p" for p
    using tree_invD(2) [OF D(1) that] D(5) by blast
  show "p = p'" if "short p" "short p'" "table_at m' r p = Some u" "table_at m' r p' = Some u" for p p' u
    using that tab [OF that(1)] tab [OF that(2)] nf tree_invD(3) [OF D(1) that(1,2)]
    by (auto split: if_splits)
  show "\<not> bit (m' u j) 7"
    if "short p" "length p \<le> 1" "table_at m' r p = Some u" "j < 512" "bit (m' u j) 0" for p u j
  proof (cases "p = q @ [i]")
    case True
    then have "u = f" "length q < 2" using that tab [OF that(1)] by auto
    then show ?thesis using D(8,11) that(5) by (simp add: D(9))
  next
    case False
    then have u: "table_at (ram st) r p = Some u" using that tab [OF that(1)] by simp
    show ?thesis
    proof (cases "p = q \<and> j = i")
      case True
      then show ?thesis using u D(3,6) by (simp add: D(9) is_table_def)
    next
      case False
      then have "m' u j = ram st u j" using adds_table_entry_other [OF N that(1) u] by blast
      then show ?thesis using tree_invD(4) [OF D(1) that(1,2) u that(4)] that(5) by simp
    qed
  qed
qed

text \<open>
  The entries for tables on a path; those that a walk adds are writable and executable, and closed to user mode.
\<close>

definition tables_on :: "vm \<Rightarrow> u64 \<Rightarrow> nat list \<Rightarrow> u64 list" where
  "tables_on st r p = filter is_table (walk (ram st) r p)"

definition grown :: "vm \<Rightarrow> vm \<Rightarrow> u64 \<Rightarrow> nat list \<Rightarrow> bool" where
  "grown st st' r p \<longleftrightarrow>
     (\<exists>es. tables_on st' r p = tables_on st r p @ es \<and> (\<forall>e \<in> set es. bit e 1 \<and> \<not> bit e 2 \<and> \<not> bit e 63))"

lemma grown_refl [simp]: "grown st st r p"
  by (simp add: grown_def)

lemma grown_trans: "grown st st1 r p \<Longrightarrow> grown st1 st2 r p \<Longrightarrow> grown st st2 r p"
  unfolding grown_def by fastforce

lemma walk_tables: "table_at m r p = Some t \<Longrightarrow> filter is_table (walk m r p) = walk m r p"
  by (induction m r p rule: table_at.induct) (auto split: if_splits)

lemma adds_table_grown:
  assumes N: "adds_table st r q t i f g e m'" and e: "bit e 1" "\<not> bit e 2" "\<not> bit e 63"
    and ram: "ram st' = m'" and p: "short p"
  shows "grown st st' r p"
proof (cases "\<exists>s. p = q @ i # s")
  case True
  then obtain s where s: "p = q @ i # s" ..
  note D = adds_tableD [OF N]
  have old: "tables_on st r p = walk (ram st) r q"
    using D(4) walk_append [OF D(3)] walk_tables [OF D(3)] by (simp add: tables_on_def s)
  have q: "walk m' r q = walk (ram st) r q"
    using D(10) by (intro adds_table_old_walk [OF N]) (auto simp: short_def)
  have "filter is_table (walk m' f s) = []"
  proof (cases s)
    case (Cons j s')
    have "length q < 2" using p s Cons by (simp add: short_def)
    then have "m' f j = 0" using D(8,11) by (simp add: D(9))
    then show ?thesis using Cons by (simp add: is_table_def)
  qed simp
  then have "tables_on st' r p = walk (ram st) r q @ [e]"
    using walk_append [OF adds_table_at(1) [OF N]] walk_tables [OF adds_table_at(1) [OF N]] D(6,7,11) q
    by (simp add: tables_on_def ram s D(9))
  then show ?thesis using old e by (simp add: grown_def)
next
  case False
  then have "walk m' r p = walk (ram st) r p" using p by (intro adds_table_old_walk [OF N]) (auto simp: short_def)
  then show ?thesis by (simp add: grown_def tables_on_def ram)
qed

text \<open>\<open>v\<close> lies in a 2 MiB page.\<close>

definition large_page :: "vm \<Rightarrow> u64 \<Rightarrow> addr \<Rightarrow> bool" where
  "large_page st r v \<longleftrightarrow> (let es = walk (ram st) r (path v) in length es = 3 \<and> bit (last es) 0)"

text \<open>An empty new table where nothing was present translates nothing.\<close>

lemma adds_table_empty_mmu:
  assumes N: "adds_table st r q t i f (\<lambda>_. 0) e m'" and abs: "\<not> bit (ram st t i) 0"
    and "ram st' = m'"
  shows "mmu st' r v = mmu st r v \<and> large_page st' r v = large_page st r v"
proof (cases "\<exists>s. path v = q @ i # s")
  case True
  then obtain s where s: "path v = q @ i # s" ..
  note D = adds_tableD [OF N]
  have "length q \<le> 2" using D(2) by (simp add: short_def)
  then obtain j s' where j: "s = j # s'" using arg_cong [OF s, of length] by (cases s) auto
  have "walk (ram st) r (path v) = walk (ram st) r q @ [ram st t i]"
    using D(4) walk_append [OF D(3)] by (simp add: s)
  moreover have "walk m' r (path v) = walk m' r q @ [m' t i, m' f j]"
    using walk_append [OF adds_table_at(1) [OF N]] D(6,7,11) by (simp add: s j D(9) is_table_def)
  moreover have "m' f j = 0" using D(11) by (simp add: D(9))
  ultimately show ?thesis using abs assms(3) by (simp add: mmu_def decode_def large_page_def)
next
  case False
  then show ?thesis
    using adds_table_old_walk [OF N _ path_less] assms(3) by (simp add: mmu_def large_page_def)
qed

section \<open>The steps of the walk\<close>

lemma masked_aligned: "frame_aligned (e AND PTE_ADDR_MASK)"
  by (simp add: frame_aligned_def and.assoc)

lemma new_entry_facts:
  assumes "frame_aligned f"
  shows "is_table (f OR (PAGE_PRESENT OR PAGE_WRITABLE))"
    and "(f OR (PAGE_PRESENT OR PAGE_WRITABLE)) AND PTE_ADDR_MASK = f"
    and "bit (f OR (PAGE_PRESENT OR PAGE_WRITABLE)) 1" "\<not> bit (f OR (PAGE_PRESENT OR PAGE_WRITABLE)) 2"
      "\<not> bit (f OR (PAGE_PRESENT OR PAGE_WRITABLE)) 63"
proof -
  have lo: "\<not> bit f n" if "n < 12 \<or> 52 \<le> n" for n
    using frame_aligned_bits [OF assms, of n] that by auto
  show "is_table (f OR (PAGE_PRESENT OR PAGE_WRITABLE))"
    using lo [of 7] by (simp add: is_table_def bit_or_iff)
  show "bit (f OR (PAGE_PRESENT OR PAGE_WRITABLE)) 1" "\<not> bit (f OR (PAGE_PRESENT OR PAGE_WRITABLE)) 2"
    "\<not> bit (f OR (PAGE_PRESENT OR PAGE_WRITABLE)) 63"
    using lo [of 2] lo [of 63] by (simp_all add: bit_or_iff)
  show "(f OR (PAGE_PRESENT OR PAGE_WRITABLE)) AND PTE_ADDR_MASK = f"
  proof (rule bit_word_eqI)
    fix n
    show "bit ((f OR (PAGE_PRESENT OR PAGE_WRITABLE)) AND PTE_ADDR_MASK) n \<longleftrightarrow> bit f n"
      using frame_aligned_bits [OF assms, of n] by (auto simp: bit_and_iff bit_or_iff addr_mask_bits)
  qed
qed

text \<open>What a step of the walk keeps: the tree, all tables it had and their entries, the root register.\<close>

definition extends :: "vm \<Rightarrow> vm \<Rightarrow> u64 \<Rightarrow> bool" where
  "extends st st' r \<longleftrightarrow> tree_inv st' r \<and> cr3 st' = cr3 st \<and>
     (\<forall>p t. short p \<longrightarrow> table_at (ram st) r p = Some t \<longrightarrow> table_at (ram st') r p = Some t) \<and>
     (\<forall>p. short p \<longrightarrow> grown st st' r p)"

lemma extends_refl: "tree_inv st r \<Longrightarrow> extends st st r"
  by (simp add: extends_def)

lemma extendsD:
  "extends st st' r \<Longrightarrow> short p \<Longrightarrow> table_at (ram st) r p = Some t \<Longrightarrow>
   table_at (ram st') r p = Some t"
  by (simp add: extends_def)

lemma extends_trans: "extends st st1 r \<Longrightarrow> extends st1 st2 r \<Longrightarrow> extends st st2 r"
  unfolding extends_def using grown_trans by metis

lemma next_table_step:
  assumes tree: "tree_inv st r" and t: "table_at (ram st) r q = Some t" and q: "short (q @ [i])"
    and small: "bit (ram st t i) 0 \<Longrightarrow> \<not> bit (ram st t i) 7"
    and run: "next_table create (PAGE_PRESENT OR PAGE_WRITABLE) t i st = (res, st')"
  shows "extends st st' r" and "mmu st' r v = mmu st r v \<and> large_page st' r v = large_page st r v"
    and "res = Some t' \<Longrightarrow> table_at (ram st') r (q @ [i]) = Some t'"
    and "\<not> create \<Longrightarrow> st' = st"
    and "\<not> create \<Longrightarrow> res = None \<Longrightarrow> \<not> bit (ram st t i) 0"
proof -
  have goal: "extends st st' r \<and> (mmu st' r v = mmu st r v \<and> large_page st' r v = large_page st r v) \<and>
      (res = Some t' \<longrightarrow> table_at (ram st') r (q @ [i]) = Some t')"
  proof (cases "bit (ram st t i) 0")
    case True
    then have "res = Some (ram st t i AND PTE_ADDR_MASK)" "st' = st"
      using run by (auto simp: next_table_def and_pte_mask)
    then show ?thesis
      using t small [OF True] True extends_refl [OF tree] by (simp add: table_at_snoc is_table_def)
  next
    case absent: False
    obtain f st1 where al: "allocate_pt_page st = (f, st1)" by (cases "allocate_pt_page st") simp
    obtain fl where sh: "pool_shape st fl" using tree_invD(1) [OF tree] by (auto simp: pt_inv_def)
    consider (no) "\<not> create" | (fail) create "f = 0" | (ok) create "f \<noteq> 0" by blast
    then show ?thesis
    proof cases
      case no
      then have "res = None" "st' = st" using run absent by (auto simp: next_table_def and_pte_mask)
      then show ?thesis using extends_refl [OF tree] by simp
    next
      case fail
      then have "res = None" "st' = st1" using run absent al by (auto simp: next_table_def and_pte_mask)
      moreover have "st1 = st" using allocate_pt_page_fail [OF tree_invD(1) [OF tree]] al fail by simp
      ultimately show ?thesis using extends_refl [OF tree] by simp
    next
      case ok
      define e where "e = f OR (PAGE_PRESENT OR PAGE_WRITABLE)"
      have st': "res = Some f" "st' = set_entry t i e st1"
        using run absent al ok by (auto simp: next_table_def and_pte_mask e_def)
      from allocate_pt_page_step [OF sh al ok(2)] obtain fl' where sh1: "pool_shape st1 fl'"
        and new: "f \<notin> pt_used st" and used1: "pt_used st1 = insert f (pt_used st)"
        and fa: "frame_aligned f" and ram1: "ram st1 = (ram st)(f := \<lambda>_. 0)" and cr: "cr3 st1 = cr3 st"
        by metis
      have tu: "t \<in> pt_used st" by (rule tree_invD(2) [OF tree short_prefix [OF q] t])
      then have tf: "t \<noteq> f" using new by auto
      have ram': "ram st' = (ram st)(f := \<lambda>_. 0, t := (ram st t)(i := e))"
        using tf by (simp add: st' set_entry_def ram1)
      have N: "adds_table st r q t i f (\<lambda>_. 0) e (ram st')"
        unfolding adds_table_def
        using tree q t absent new new_entry_facts [OF fa] ram' by (simp add: e_def is_table_def)
      have "pt_inv st'" "pt_used st' = insert f (pt_used st)"
        using pt_set_entry [of st1 t i e] sh1 tu used1 by (auto simp: st' pt_inv_def)
      then have "tree_inv st' r" using adds_table_tree [OF N] by simp
      moreover have "table_at (ram st') r p = Some u"
        if "short p" "table_at (ram st) r p = Some u" for p u
        using adds_table_tables [OF N that(1)] that t absent
        by (auto simp: table_at_snoc is_table_def)
      moreover have "grown st st' r p" if "short p" for p
        by (rule adds_table_grown [OF N _ _ _ refl that]) (use new_entry_facts [OF fa] in \<open>simp_all add: e_def\<close>)
      moreover have "cr3 st' = cr3 st" by (simp add: st' set_entry_def cr)
      ultimately have "extends st st' r" by (simp add: extends_def)
      moreover have "mmu st' r v = mmu st r v \<and> large_page st' r v = large_page st r v" by (rule adds_table_empty_mmu [OF N absent refl])
      ultimately show ?thesis using adds_table_at(2) [OF N] st'(1) by simp
    qed
  qed
  then show "extends st st' r" and "mmu st' r v = mmu st r v \<and> large_page st' r v = large_page st r v"
    and "res = Some t' \<Longrightarrow> table_at (ram st') r (q @ [i]) = Some t'" by blast+
  show "\<not> create \<Longrightarrow> st' = st" and "\<not> create \<Longrightarrow> res = None \<Longrightarrow> \<not> bit (ram st t i) 0"
    using run by (auto simp: next_table_def Let_def and_pte_mask split: if_splits)
qed

section \<open>Splitting a 2 MiB page\<close>

lemma flag_mask_bits:
  "bit (0x8000000000000E7F :: u64) n \<longleftrightarrow> n = 63 \<or> n < 7 \<or> 9 \<le> n \<and> n < 12"
proof -
  have "(0x8000000000000E7F :: u64) = PAGE_NO_EXECUTE OR mask 7 OR push_bit 9 (mask 3)"
    by (simp add: mask_eq_exp_minus_1 push_bit_eq_mult PAGE_NO_EXECUTE_def)
  moreover have "bit (PAGE_NO_EXECUTE OR mask 7 OR push_bit 9 (mask 3)) n \<longleftrightarrow>
      n = 63 \<or> n < 7 \<or> 9 \<le> n \<and> n < 12"
    by (auto simp: bit_simps)
  ultimately show ?thesis by metis
qed

lemma large_mask_bits: "bit (0x000FFFFFFFE00000 :: u64) n \<longleftrightarrow> 21 \<le> n \<and> n < 52"
proof -
  have "(0x000FFFFFFFE00000 :: u64) = push_bit 21 (mask 31)"
    by (simp add: mask_eq_exp_minus_1 push_bit_eq_mult)
  moreover have "bit (push_bit 21 (mask 31) :: u64) n \<longleftrightarrow> 21 \<le> n \<and> n < 52"
    by (auto simp: bit_simps)
  ultimately show ?thesis by metis
qed

lemma offset_mask_bits: "bit (0x1FFFFF :: u64) n \<longleftrightarrow> n < 21" "bit (0xFFF :: u64) n \<longleftrightarrow> n < 12"
proof -
  have "(0x1FFFFF :: u64) = mask 21" "(0xFFF :: u64) = mask 12"
    by (simp_all add: mask_eq_exp_minus_1)
  moreover have "bit (mask 21 :: u64) n \<longleftrightarrow> n < 21" "bit (mask 12 :: u64) n \<longleftrightarrow> n < 12"
    by (auto simp: bit_mask_iff)
  ultimately show "bit (0x1FFFFF :: u64) n \<longleftrightarrow> n < 21" "bit (0xFFF :: u64) n \<longleftrightarrow> n < 12" by metis+
qed

lemma index_bits: "bit (drop_bit k (v :: u64) AND 0x1FF) n \<longleftrightarrow> n < 9 \<and> bit v (k + n)"
proof -
  have "(0x1FF :: u64) = mask 9" by (simp add: mask_eq_exp_minus_1)
  moreover have "bit (drop_bit k v AND mask 9) n \<longleftrightarrow> n < 9 \<and> bit v (k + n)"
    by (auto simp: bit_simps)
  ultimately show ?thesis by metis
qed

text \<open>The entry for the \<open>k\<close>-th 4 KiB page of the large page, bit by bit.\<close>

definition split_pte :: "u64 \<Rightarrow> nat \<Rightarrow> u64" where
  "split_pte e k = ((e AND 0x000FFFFFFFE00000) + of_nat k * PAGE_SIZE) OR
     ((e AND 0x8000000000000E7F) AND NOT PAGE_SIZE_FLAG)"

lemma disjoint_add: "(a :: u64) AND b = 0 \<Longrightarrow> a + b = a OR b"
  by (rule disjunctive_add_eq_or)

lemma split_pte_bits:
  assumes "k < 512"
  shows "bit (split_pte e k) n \<longleftrightarrow>
    (if n < 12 then n < 7 \<and> bit e n \<or> 9 \<le> n \<and> bit e n
     else if n < 21 then bit (of_nat k :: u64) (n - 12)
     else if n < 52 then bit e n else n = 63 \<and> bit e n)"
proof -
  let ?a = "e AND 0x000FFFFFFFE00000" and ?b = "push_bit 12 (of_nat k :: u64)"
  have k: "bit (of_nat k :: u64) j \<Longrightarrow> j < 9" for j
    using not_bit_if_small [of "of_nat k :: u64" 9 j] assms unat_of_nat_small [of k, where 'a = 64]
    by (cases "j < 9") auto
  have "of_nat k * PAGE_SIZE = ?b" by (simp add: PAGE_SIZE_def push_bit_eq_mult)
  moreover have "?a AND ?b = 0"
    unfolding and.assoc by (rule bit_word_eqI)
      (unfold bit_and_iff bit_push_bit_iff large_mask_bits, auto dest: k)
  ultimately have sum: "?a + of_nat k * PAGE_SIZE = ?a OR ?b" using disjoint_add by metis
  have psf: "bit PAGE_SIZE_FLAG j \<longleftrightarrow> j = 7" for j
    using bit_exp_u64 [of 7 j] by (simp add: PAGE_SIZE_FLAG_def)
  show ?thesis
    unfolding split_pte_def sum bit_or_iff bit_and_iff bit_not_iff_eq bit_push_bit_iff
      large_mask_bits flag_mask_bits psf
    using k [of "n - 12"] bit_imp_le_length [of e n] by auto
qed

text \<open>A large page and its split entry lead to the same physical address.\<close>

lemma split_pte_addr:
  "(split_pte e (pt_index v) AND PTE_ADDR_MASK) OR (v AND 0xFFF) =
   (e AND 0x000FFFFFFFE00000) OR (v AND 0x1FFFFF)"
proof (rule bit_word_eqI)
  fix n
  have "pt_index v < 512" unfolding pt_index_def by (rule index_less)
  note bits = split_pte_bits [OF this]
  have "bit (of_nat (pt_index v) :: u64) (n - 12) \<longleftrightarrow> bit v n" if "12 \<le> n" "n < 21"
    using that index_bits [of 12 v "n - 12"] by (auto simp: pt_index_def)
  then show "bit ((split_pte e (pt_index v) AND PTE_ADDR_MASK) OR (v AND 0xFFF)) n \<longleftrightarrow>
      bit ((e AND 0x000FFFFFFFE00000) OR (v AND 0x1FFFFF)) n"
    unfolding bit_or_iff bit_and_iff addr_mask_bits large_mask_bits offset_mask_bits bits by auto
qed

lemma split_pte_rights:
  assumes "k < 512"
  shows "bit (split_pte e k) 0 = bit e 0" "bit (split_pte e k) 1 = bit e 1"
    "bit (split_pte e k) 2 = bit e 2" "bit (split_pte e k) 63 = bit e 63"
  by (simp_all add: split_pte_bits [OF assms])

text \<open>The same translation without user access.\<close>

definition no_user :: "(u64 \<times> bool \<times> bool \<times> bool) option \<Rightarrow> (u64 \<times> bool \<times> bool \<times> bool) option" where
  "no_user x = map_option (\<lambda>(a, w, u, n). (a, w, False, n)) x"

lemma split_large_page_step:
  assumes tree: "tree_inv st r" and t: "table_at (ram st) r q = Some pd" and q: "short (q @ [i])"
    and len: "length q = 2" and large: "bit (ram st pd i) 0" "bit (ram st pd i) 7"
    and run: "split_large_page pd i st = (ok, st')"
  shows "extends st st' r" and "mmu st' r v = (if ok \<and> take 3 (path v) = q @ [i] then no_user (mmu st r v) else mmu st r v)"
    and "ok \<Longrightarrow> is_table (ram st' pd i)"
proof -
  define e where "e = ram st pd i"
  obtain f st1 where al: "allocate_pt_page st = (f, st1)" by (cases "allocate_pt_page st") simp
  obtain fl where sh: "pool_shape st fl" using tree_invD(1) [OF tree] by (auto simp: pt_inv_def)
  have goal: "extends st st' r \<and> mmu st' r v = (if ok \<and> take 3 (path v) = q @ [i] then no_user (mmu st r v) else mmu st r v) \<and>
      (ok \<longrightarrow> is_table (ram st' pd i))"
  proof (cases "f = 0")
    case True
    then have "\<not> ok" "st' = st1" using run al by (auto simp: split_large_page_def Let_def)
    moreover have "st1 = st" using allocate_pt_page_fail [OF tree_invD(1) [OF tree]] al True by simp
    ultimately show ?thesis using extends_refl [OF tree] by simp
  next
    case nz: False
    from allocate_pt_page_step [OF sh al nz] obtain fl' where sh1: "pool_shape st1 fl'"
      and new: "f \<notin> pt_used st" and used1: "pt_used st1 = insert f (pt_used st)"
      and fa: "frame_aligned f" and ram1: "ram st1 = (ram st)(f := \<lambda>_. 0)" and cr: "cr3 st1 = cr3 st"
      by metis
    define g where "g = (\<lambda>k. if k < 512 then split_pte e k else 0)"
    define e' where "e' = f OR (PAGE_PRESENT OR PAGE_WRITABLE)"
    define st2 where "st2 = st1\<lparr>ram := (ram st1)(f := g)\<rparr>"
    have tu: "pd \<in> pt_used st" by (rule tree_invD(2) [OF tree short_prefix [OF q] t])
    then have tf: "pd \<noteq> f" using new by auto
    have st': "st' = set_entry pd i e' st2"
      using run al nz tf
      by (simp add: split_large_page_def Let_def st2_def g_def e'_def split_pte_def e_def ram1
          or.assoc cong: if_cong)
    have ram': "ram st' = (ram st)(f := g, pd := (ram st pd)(i := e'))"
      using tf by (simp add: st' set_entry_def st2_def ram1)
    have N: "adds_table st r q pd i f g e' (ram st')"
      unfolding adds_table_def
      using tree q t large new new_entry_facts [OF fa] ram' len by (simp add: e'_def is_table_def)
    have "pool_shape st2 fl'"
    proof -
      have "f \<in> pt_used st1" using used1 by simp
      then have "f \<notin> set fl'"
        using pool_frame_facts(3) [OF sh1] sh1 unfolding pt_used_eq [OF sh1]
        by (fastforce simp: pool_shape_def)
      then show ?thesis using sh1 by (auto simp: pool_shape_def st2_def pool_frame_def)
    qed
    moreover have "pt_used st2 = pt_used st1"
      using pt_used_eq [OF sh1] pt_used_eq [OF calculation]
      by (simp add: st2_def pool_frame_def [abs_def])
    ultimately have "pt_inv st'" "pt_used st' = insert f (pt_used st)"
      using pt_set_entry [of st2 pd i e'] tu used1 by (auto simp: st' pt_inv_def)
    then have "tree_inv st' r" using adds_table_tree [OF N] by simp
    moreover have "table_at (ram st') r p = Some u"
      if "short p" "table_at (ram st) r p = Some u" for p u
      using adds_table_tables [OF N that(1)] that t large by (auto simp: table_at_snoc is_table_def)
    moreover have "grown st st' r p" if "short p" for p
      by (rule adds_table_grown [OF N _ _ _ refl that]) (use new_entry_facts [OF fa] in \<open>simp_all add: e'_def\<close>)
    moreover have "cr3 st' = cr3 st" by (simp add: st' set_entry_def st2_def cr)
    ultimately have ext: "extends st st' r" by (simp add: extends_def)
    have ok using run al nz by (auto simp: split_large_page_def Let_def)
    have mmu: "mmu st' r v = (if ok \<and> take 3 (path v) = q @ [i] then no_user (mmu st r v) else mmu st r v)"
    proof (cases "\<exists>s. path v = q @ i # s")
      case True
      then obtain s where s: "path v = q @ i # s" ..
      then have ps: "q = [pml4_index v, pdpt_index v]" "i = pd_index v" "s = [pt_index v]"
        using len by (auto simp: path_def append_eq_Cons_conv length_Suc_conv numeral_2_eq_2)
      have k: "pt_index v < 512" unfolding pt_index_def by (rule index_less)
      define es where "es = walk (ram st) r q"
      have les: "length es = 2" unfolding es_def using length_walk [OF t] len by simp
      have "walk (ram st') r q = es"
        unfolding es_def using len q by (intro adds_table_old_walk [OF N]) (auto simp: short_def)
      then have w': "walk (ram st') r (path v) = es @ [e', split_pte e (pt_index v)]"
        using walk_append [OF adds_table_at(1) [OF N]] adds_tableD(6,7) [OF N] tf k
        by (simp add: s ps(3) ram' g_def)
      have w: "walk (ram st) r (path v) = es @ [e]"
        using walk_append [OF t] large by (simp add: s es_def e_def is_table_def)
      have "bit e' 1" "\<not> bit e' 63" "\<not> bit e' 2"
        using frame_aligned_bits [OF fa, of 63] frame_aligned_bits [OF fa, of 2]
        by (auto simp: e'_def bit_or_iff)
      then show ?thesis
        using large les split_pte_rights [OF k, of e] split_pte_addr [of e v]
        \<open>ok\<close> len s
        unfolding mmu_def w w' decode_def by (simp add: no_user_def e_def [symmetric] list_ex_iff)
    next
      case False
      then have "take 3 (path v) \<noteq> q @ [i]" by (metis append.assoc append_Cons append_Nil append_take_drop_id)
      then show ?thesis using False adds_table_old_walk [OF N _ path_less] by (simp add: mmu_def)
    qed
    show ?thesis using ext mmu adds_tableD(6) [OF N] by (simp add: ram')
  qed
  then show "extends st st' r" and "mmu st' r v = (if ok \<and> take 3 (path v) = q @ [i] then no_user (mmu st r v) else mmu st r v)"
    and "ok \<Longrightarrow> is_table (ram st' pd i)" by blast+
qed

section \<open>Writing a last-level entry\<close>

lemma leaf_write:
  fixes e :: u64
  assumes tree: "tree_inv st r" and t: "table_at (ram st) r q = Some pt" and q: "short q"
    and len: "length q = 3" and i: "i < 512"
  defines "st' \<equiv> set_entry pt i e st"
  shows "tree_inv st' r"
    and "path v = q @ [i] \<Longrightarrow> walk (ram st') r (path v) = walk (ram st) r q @ [e]"
    and "path v \<noteq> q @ [i] \<Longrightarrow> mmu st' r v = mmu st r v"
proof -
  have entry: "ram st' u j = ram st u j"
    if "short p" "table_at (ram st) r p = Some u" "p \<noteq> q \<or> j \<noteq> i" for p u j
    using tree_invD(3) [OF tree that(1) q that(2)] t that(3) by (auto simp: st'_def set_entry_def)
  have tables: "table_at (ram st') r p = table_at (ram st) r p" if "short p" for p
  proof (rule table_at_cong)
    fix q' j s u assume p: "p = q' @ j # s" and u: "table_at (ram st) r q' = Some u"
    have "short q'" "q' \<noteq> q" using p that len by (auto simp: short_def)
    then show "ram st' u j = ram st u j" using entry [OF _ u] by blast
  qed
  have old: "walk (ram st') r p = walk (ram st) r p"
    if "length p \<le> 4" "set p \<subseteq> {..<512}" "p \<noteq> q @ [i]" for p
  proof (rule walk_cong)
    fix q' j s u assume p: "p = q' @ j # s" and u: "table_at (ram st) r q' = Some u"
    have "short q'" using that p by (auto simp: short_def)
    moreover have "q' \<noteq> q \<or> j \<noteq> i" using p that len by auto
    ultimately show "ram st' u j = ram st u j" using entry [OF _ u] by blast
  qed
  have "pt \<in> pt_used st" by (rule tree_invD(2) [OF tree q t])
  then have pool: "pt_inv st'" "pt_used st' = pt_used st"
    unfolding st'_def using pt_set_entry [OF tree_invD(1) [OF tree]] by simp_all
  have seven: "\<not> bit (ram st' u j) 7"
    if "short p" "length p \<le> 1" "table_at (ram st) r p = Some u" "j < 512" "bit (ram st' u j) 0"
    for p u j
  proof -
    have "p \<noteq> q" using that(2) len by auto
    then have "ram st' u j = ram st u j" using entry [OF that(1,3)] by blast
    then show ?thesis using tree_invD(4) [OF tree that(1-4)] that(5) by simp
  qed
  show "tree_inv st' r"
    unfolding tree_inv_def pool(2)
  proof (intro conjI allI impI)
    show "u \<in> pt_used st" if "short p" "table_at (ram st') r p = Some u" for p u
      using tree_invD(2) [OF tree that(1)] tables [OF that(1)] that(2) by simp
    show "p = p'" if "short p" "short p'" "table_at (ram st') r p = Some u"
      "table_at (ram st') r p' = Some u" for p p' u
      using tree_invD(3) [OF tree that(1,2), of u] tables [OF that(1)] tables [OF that(2)] that(3,4)
      by metis
    show "\<not> bit (ram st' u j) 7" if "short p" "length p \<le> 1" "table_at (ram st') r p = Some u"
      "j < 512" "bit (ram st' u j) 0" for p u j
      using seven [OF that(1,2) _ that(4,5)] tables [OF that(1)] that(3) by simp
  qed (rule pool)
  show "walk (ram st') r (path v) = walk (ram st) r q @ [e]" if "path v = q @ [i]"
  proof -
    have "table_at (ram st') r q = Some pt" using tables [OF q] t by simp
    moreover have "walk (ram st') r q = walk (ram st) r q"
      using q len by (intro old) (auto simp: short_def)
    ultimately show ?thesis using walk_append that by (simp add: st'_def set_entry_def)
  qed
  show "mmu st' r v = mmu st r v" if "path v \<noteq> q @ [i]"
    using old [OF _ path_less that] by (simp add: mmu_def)
qed

section \<open>The whole walk\<close>

definition root :: "vm \<Rightarrow> u64" where
  "root st = cr3 st AND NOT 0xFFF"

lemma psf_and: "e AND PAGE_SIZE_FLAG \<noteq> 0 \<longleftrightarrow> bit e 7"
  using and_shift1_zero [of e 7] by (simp add: PAGE_SIZE_FLAG_def)

lemma walk_pd_step:
  assumes tree: "tree_inv st r" and t: "table_at (ram st) r [pml4_index v, pdpt_index v] = Some pd"
    and run: "walk_pd create pd v st = (res, st')"
  shows "extends st st' r \<and> mmu st' r w =
      (if res \<noteq> None \<and> create \<and> large_page st r v \<and> take 3 (path w) = take 3 (path v)
       then no_user (mmu st r w) else mmu st r w) \<and>
    (res = Some (pt, i) \<longrightarrow> i = pt_index v \<and> table_at (ram st') r (take 3 (path v)) = Some pt) \<and>
    (\<not> create \<longrightarrow> st' = st)"
proof -
  let ?q = "[pml4_index v, pdpt_index v]" and ?i = "pd_index v"
  have q: "short (?q @ [?i])" using path_short [of 3 v] by (simp add: path_def numeral_3_eq_3)
  have tk: "take 3 (path v) = ?q @ [?i]" by (simp add: path_def numeral_3_eq_3)
  define e where "e = ram st pd ?i"
  have large: "large_page st r v \<longleftrightarrow> bit e 0 \<and> bit e 7"
    using walk_append [OF t, of "[?i, pt_index v]"] length_walk [OF t]
    by (auto simp: large_page_def path_def e_def is_table_def)
  show ?thesis
  proof (cases "bit e 0 \<and> bit e 7")
    case False
    then have small: "bit (ram st pd ?i) 0 \<Longrightarrow> \<not> bit (ram st pd ?i) 7" by (simp add: e_def)
    obtain res1 where nx: "next_table create (PAGE_PRESENT OR PAGE_WRITABLE) pd ?i st = (res1, st')"
      and res: "res = map_option (\<lambda>pt. (pt, pt_index v)) res1"
      using run False by (auto simp: walk_pd_def Let_def and_pte_mask psf_and e_def
          split: prod.splits option.splits)
    note step = next_table_step [OF tree t q small nx]
    show ?thesis using step(1,2,3,4) res tk large False by auto
  next
    case True
    note lp = this
    show ?thesis
    proof (cases create)
      case nc: False
      from nc have "res = None" "st' = st"
        using run lp by (auto simp: walk_pd_def Let_def and_pte_mask psf_and e_def)
      then show ?thesis using extends_refl [OF tree] by simp
    next
      case True
      obtain ok st1 where sp: "split_large_page pd ?i st = (ok, st1)" by (cases "split_large_page pd ?i st")
      note s1 = split_large_page_step [OF tree t q _ _ _ sp]
      have s1: "extends st st1 r" "mmu st1 r w = (if ok \<and> take 3 (path w) = ?q @ [?i] then no_user (mmu st r w) else mmu st r w)"
        "ok \<Longrightarrow> is_table (ram st1 pd ?i)" using s1 lp by (simp_all add: e_def)
      show ?thesis
      proof (cases ok)
        case False
        then have "res = None" "st' = st1"
          using run lp sp True by (auto simp: walk_pd_def Let_def and_pte_mask psf_and e_def)
        then show ?thesis using s1 True False by simp
      next
        case ok: True
        have tree1: "tree_inv st1 r" using s1(1) by (simp add: extends_def)
        have t1: "table_at (ram st1) r ?q = Some pd"
          by (rule extendsD [OF s1(1) short_prefix [OF q] t])
        have small: "bit (ram st1 pd ?i) 0 \<Longrightarrow> \<not> bit (ram st1 pd ?i) 7"
          using s1(3) [OF ok] by (simp add: is_table_def)
        obtain res1 where nx: "next_table create (PAGE_PRESENT OR PAGE_WRITABLE) pd ?i st1 = (res1, st')"
          and res: "res = map_option (\<lambda>pt. (pt, pt_index v)) res1"
          using run lp sp True ok by (auto simp: walk_pd_def Let_def and_pte_mask psf_and e_def
              split: prod.splits option.splits)
        note step = next_table_step [OF tree1 t1 q small nx]
        have some: "res \<noteq> None" using nx res s1(3) [OF ok] by (auto simp: next_table_def and_pte_mask is_table_def Let_def)
        show ?thesis
          using extends_trans [OF s1(1) step(1)] s1(2) step(2) [of w] step(3) res tk True ok large lp some
          by auto
      qed
    qed
  qed
qed

lemma get_page_table_step:
  assumes tree: "tree_inv st (root st)" and run: "mm_get_page_table v create st = (res, st')"
  shows "extends st st' (root st) \<and> mmu st' (root st) w =
      (if res \<noteq> None \<and> create \<and> large_page st (root st) v \<and> take 3 (path w) = take 3 (path v)
       then no_user (mmu st (root st) w) else mmu st (root st) w) \<and>
    (res = Some (pt, i) \<longrightarrow> i = pt_index v \<and>
       table_at (ram st') (root st) (take 3 (path v)) = Some pt) \<and>
    (\<not> create \<longrightarrow> st' = st)"
proof -
  let ?r = "root st" and ?PW = "PAGE_PRESENT OR PAGE_WRITABLE"
  have s1: "short ([] @ [pml4_index v])" and s2: "short ([pml4_index v] @ [pdpt_index v])"
    using path_short [of 1 v] path_short [of 2 v] by (simp_all add: path_def numeral_2_eq_2)
  have i1: "pml4_index v < 512" and i2: "pdpt_index v < 512"
    unfolding pml4_index_def pdpt_index_def by (rule index_less)+
  obtain res1 st1 where n1: "next_table create ?PW ?r (pml4_index v) st = (res1, st1)"
    by (cases "next_table create ?PW ?r (pml4_index v) st")
  note d1 = next_table_step [OF tree _ s1 _ n1]
  have d1: "extends st st1 ?r" "mmu st1 ?r w = mmu st ?r w" "large_page st1 ?r v = large_page st ?r v"
    "\<And>t'. res1 = Some t' \<Longrightarrow> table_at (ram st1) ?r [pml4_index v] = Some t'" "\<not> create \<Longrightarrow> st1 = st"
    using d1 tree_invD(4) [OF tree, of "[]"] i1 by (simp_all add: short_def)
  show ?thesis
  proof (cases res1)
    case None
    then have "res = None" "st' = st1" using run n1 by (auto simp: mm_get_page_table_def root_def)
    then show ?thesis using d1 by simp
  next
    case (Some pdpt)
    obtain res2 st2 where n2: "next_table create ?PW pdpt (pdpt_index v) st1 = (res2, st2)"
      by (cases "next_table create ?PW pdpt (pdpt_index v) st1")
    have tree1: "tree_inv st1 ?r" using d1(1) by (simp add: extends_def)
    have t1: "table_at (ram st1) ?r [pml4_index v] = Some pdpt" by (rule d1(4) [OF Some])
    have small: "bit (ram st1 pdpt (pdpt_index v)) 0 \<Longrightarrow> \<not> bit (ram st1 pdpt (pdpt_index v)) 7"
      using tree_invD(4) [OF tree1 _ _ t1 i2] s1 by simp
    note d2 = next_table_step [OF tree1 t1 s2 small n2]
    show ?thesis
    proof (cases res2)
      case None
      then have "res = None" "st' = st2"
        using run n1 n2 Some by (auto simp: mm_get_page_table_def root_def)
      then show ?thesis using d1 d2(1,2,4) extends_trans by auto
    next
      case (Some pd)
      have tree2: "tree_inv st2 ?r" using d2(1) by (simp add: extends_def)
      have t2: "table_at (ram st2) ?r [pml4_index v, pdpt_index v] = Some pd"
        using d2(3) Some by simp
      have w: "walk_pd create pd v st2 = (res, st')"
        using run n1 n2 \<open>res1 = Some pdpt\<close> Some by (auto simp: mm_get_page_table_def root_def)
      from walk_pd_step [OF tree2 t2 w] have d3: "extends st2 st' ?r"
        "mmu st' ?r w =
      (if res \<noteq> None \<and> create \<and> large_page st2 ?r v \<and> take 3 (path w) = take 3 (path v)
       then no_user (mmu st2 ?r w) else mmu st2 ?r w)"
        "res = Some (pt, i) \<longrightarrow> i = pt_index v \<and> table_at (ram st') ?r (take 3 (path v)) = Some pt"
        "\<not> create \<longrightarrow> st' = st2" by blast+
      have "extends st st' ?r"
        using extends_trans [OF extends_trans [OF d1(1) d2(1)] d3(1)] .
      moreover have "mmu st2 ?r w = mmu st ?r w" "large_page st2 ?r v = large_page st ?r v"
        using d1(2,3) d2(2) [of w] d2(2) [of v] by simp_all
      ultimately show ?thesis using d1(5) d2(4) d3 by auto
    qed
  qed
qed

text \<open>The walk with creation fails only when no page is left for a page table.\<close>

lemma next_table_fail:
  assumes "pt_inv st" and "next_table True f t i st = (None, st')"
  shows "fst (allocate_pt_page st') = 0"
proof -
  obtain a st1 where al: "allocate_pt_page st = (a, st1)" by (cases "allocate_pt_page st")
  then have "a = 0" "st' = st1" using assms(2) by (auto simp: next_table_def Let_def split: if_splits)
  then show ?thesis using allocate_pt_page_fail [OF assms(1), of st1] al by simp
qed

lemma split_large_page_fail:
  assumes "pt_inv st" and "split_large_page pd i st = (False, st')"
  shows "fst (allocate_pt_page st') = 0"
proof -
  obtain a st1 where al: "allocate_pt_page st = (a, st1)" by (cases "allocate_pt_page st")
  then have "a = 0" "st' = st1" using assms(2) by (auto simp: split_large_page_def Let_def split: if_splits)
  then show ?thesis using allocate_pt_page_fail [OF assms(1), of st1] al by simp
qed

lemma walk_pd_fail:
  assumes tree: "tree_inv st r" and t: "table_at (ram st) r [pml4_index v, pdpt_index v] = Some pd"
    and run: "walk_pd True pd v st = (None, st')"
  shows "fst (allocate_pt_page st') = 0"
proof (cases "bit (ram st pd (pd_index v)) 0 \<and> bit (ram st pd (pd_index v)) 7")
  case True
  have q: "short ([pml4_index v, pdpt_index v] @ [pd_index v])"
    using path_short [of 3 v] by (simp add: path_def numeral_3_eq_3)
  obtain ok st1 where sp: "split_large_page pd (pd_index v) st = (ok, st1)" by (cases "split_large_page pd (pd_index v) st")
  have "\<not> ok \<and> st' = st1"
    using split_large_page_step(3) [OF tree t q _ _ _ sp] True run sp
    by (auto simp: walk_pd_def Let_def and_pte_mask psf_and next_table_def is_table_def split: if_splits)
  then show ?thesis using split_large_page_fail [OF tree_invD(1) [OF tree], of pd "pd_index v" st1] sp by simp
next
  case False
  then have "next_table True (PAGE_PRESENT OR PAGE_WRITABLE) pd (pd_index v) st = (None, st')"
    using run by (auto simp: walk_pd_def Let_def and_pte_mask psf_and split: prod.splits option.splits)
  then show ?thesis using next_table_fail tree_invD(1) [OF tree] by blast
qed

lemma get_page_table_fail:
  assumes tree: "tree_inv st (root st)" and run: "mm_get_page_table v True st = (None, st')"
  shows "fst (allocate_pt_page st') = 0"
proof -
  let ?r = "root st" and ?PW = "PAGE_PRESENT OR PAGE_WRITABLE"
  have s1: "short ([] @ [pml4_index v])" and s2: "short ([pml4_index v] @ [pdpt_index v])"
    using path_short [of 1 v] path_short [of 2 v] by (simp_all add: path_def numeral_2_eq_2)
  have i1: "pml4_index v < 512" and i2: "pdpt_index v < 512"
    unfolding pml4_index_def pdpt_index_def by (rule index_less)+
  obtain res1 st1 where n1: "next_table True ?PW ?r (pml4_index v) st = (res1, st1)"
    by (cases "next_table True ?PW ?r (pml4_index v) st")
  note d = next_table_step [OF tree _ s1 _ n1]
  have d1: "extends st st1 ?r" "\<And>t'. res1 = Some t' \<Longrightarrow> table_at (ram st1) ?r [pml4_index v] = Some t'"
    using d tree_invD(4) [OF tree, of "[]"] i1 by (simp_all add: short_def)
  show ?thesis
  proof (cases res1)
    case None
    then have "st' = st1" using run n1 by (auto simp: mm_get_page_table_def root_def)
    then show ?thesis using next_table_fail [OF tree_invD(1) [OF tree]] n1 None by blast
  next
    case (Some pdpt)
    obtain res2 st2 where n2: "next_table True ?PW pdpt (pdpt_index v) st1 = (res2, st2)"
      by (cases "next_table True ?PW pdpt (pdpt_index v) st1")
    have tree1: "tree_inv st1 ?r" using d1(1) by (simp add: extends_def)
    have t1: "table_at (ram st1) ?r [pml4_index v] = Some pdpt" by (rule d1(2) [OF Some])
    have small: "bit (ram st1 pdpt (pdpt_index v)) 0 \<Longrightarrow> \<not> bit (ram st1 pdpt (pdpt_index v)) 7"
      using tree_invD(4) [OF tree1 _ _ t1 i2] s1 by simp
    note d2 = next_table_step [OF tree1 t1 s2 small n2]
    show ?thesis
    proof (cases res2)
      case None
      then have "st' = st2" using run n1 n2 Some by (auto simp: mm_get_page_table_def root_def)
      then show ?thesis using next_table_fail [OF tree_invD(1) [OF tree1]] n2 None by blast
    next
      case (Some pd)
      have "walk_pd True pd v st2 = (None, st')"
        using run n1 n2 \<open>res1 = Some pdpt\<close> Some by (auto simp: mm_get_page_table_def root_def)
      moreover have "tree_inv st2 ?r" using d2(1) by (simp add: extends_def)
      ultimately show ?thesis using walk_pd_fail d2(3) Some by simp
    qed
  qed
qed

text \<open>Without creation, the walk finds the last-level entry exactly when its table exists.\<close>

lemma get_page_table_lookup:
  assumes tree: "tree_inv st (root st)"
  shows "mm_get_page_table v False st =
    (map_option (\<lambda>pt. (pt, pt_index v)) (table_at (ram st) (root st) (take 3 (path v))), st)"
proof -
  let ?r = "root st" and ?a = "pml4_index v" and ?b = "pdpt_index v" and ?c = "pd_index v"
  have tk: "take 3 (path v) = [?a, ?b, ?c]" by (simp add: path_def numeral_3_eq_3)
  have i1: "?a < 512" and i2: "?b < 512"
    unfolding pml4_index_def pdpt_index_def by (rule index_less)+
  have e1: "bit (ram st ?r ?a) 0 \<longleftrightarrow> is_table (ram st ?r ?a)"
    using tree_invD(4) [OF tree, of "[]" ?r ?a] i1 by (auto simp: is_table_def short_def)
  define t3 where "t3 = ram st ?r ?a AND PTE_ADDR_MASK"
  have e2: "bit (ram st t3 ?b) 0 \<longleftrightarrow> is_table (ram st t3 ?b)" if "is_table (ram st ?r ?a)"
    using tree_invD(4) [OF tree, of "[?a]" t3 ?b] that i1 i2 by (auto simp: is_table_def short_def t3_def)
  define t2 where "t2 = ram st t3 ?b AND PTE_ADDR_MASK"
  have e3: "walk_pd False t2 v st =
      (if is_table (ram st t2 ?c) then Some (ram st t2 ?c AND PTE_ADDR_MASK, pt_index v) else None, st)"
    by (auto simp: walk_pd_def next_table_def Let_def and_pte_mask psf_and is_table_def)
  have d: "mm_get_page_table v False st = (case next_table False (PAGE_PRESENT OR PAGE_WRITABLE) ?r ?a st of
      (None, st1) \<Rightarrow> (None, st1)
    | (Some pdpt, st1) \<Rightarrow>
        (case next_table False (PAGE_PRESENT OR PAGE_WRITABLE) pdpt ?b st1 of
           (None, st2) \<Rightarrow> (None, st2)
         | (Some pd, st2) \<Rightarrow> walk_pd False pd v st2))"
    unfolding mm_get_page_table_def root_def Let_def ..
  show ?thesis
  proof (cases "is_table (ram st ?r ?a)")
    case False
    then show ?thesis unfolding d using e1 by (simp add: next_table_def and_pte_mask tk)
  next
    case t: True
    then show ?thesis
      unfolding d using e1 e2 [OF t] e3
      by (auto simp: next_table_def and_pte_mask tk t3_def [symmetric] t2_def [symmetric])
  qed
qed

lemma path_split: "path v = take 3 (path v) @ [pt_index v]"
  by (simp add: path_def numeral_3_eq_3)

lemma walk_small:
  assumes "table_at (ram st) r (take 3 (path v)) = Some pt"
  shows "walk (ram st) r (path v) = walk (ram st) r (take 3 (path v)) @ [ram st pt (pt_index v)]"
    and "length (walk (ram st) r (path v)) = 4"
proof -
  show "walk (ram st) r (path v) = walk (ram st) r (take 3 (path v)) @ [ram st pt (pt_index v)]"
    by (subst path_split) (simp add: walk_append [OF assms])
  then show "length (walk (ram st) r (path v)) = 4" using length_walk [OF assms] by simp
qed

lemma walk_not_small:
  assumes "table_at m r (take 3 (path v)) = None"
  shows "length (walk m r (path v)) < 4"
  using assms by (auto simp: path_def numeral_3_eq_3)

section \<open>Properties\<close>

text \<open>\<open>v\<close> is covered by a last-level table (so by a 4 KiB page, if it is mapped at all).\<close>

definition small_page :: "vm \<Rightarrow> addr \<Rightarrow> bool" where
  "small_page st v \<longleftrightarrow> length (walk (ram st) (root st) (path v)) = 4"

text \<open>
  A small instance: three tables from a pool of eight pages; the 2 MiB page at address 0
  is mapped to physical \<open>0x400000\<close>.
\<close>

definition demo_vm :: vm where
  "demo_vm = \<lparr>vmm = demo_phys,
     ram = (\<lambda>_ _. 0)(0x10000 := (\<lambda>_. 0)(0 := 0x11003), 0x11000 := (\<lambda>_. 0)(0 := 0x12003),
       0x12000 := (\<lambda>_. 0)(0 := 0x400083)),
     cr3 = 0x10000, pt_pool_initialized = True, pt_pool_phys_start = 0x10000, pt_pool_size = 8,
     pt_pool_next = 3, pt_pool_freelist = 0\<rparr>"

lemma demo_vm_tables:
  assumes "table_at (ram demo_vm) 0x10000 p = Some t"
  shows "(p, t) \<in> {([], 0x10000), ([0], 0x11000), ([0, 0], 0x12000)}"
proof -
  have r: "ram demo_vm 0x10000 = (\<lambda>_. 0)(0 := 0x11003)" "ram demo_vm 0x11000 = (\<lambda>_. 0)(0 := 0x12003)"
    "ram demo_vm 0x12000 = (\<lambda>_. 0)(0 := 0x400083)"
    by (simp_all add: demo_vm_def)
  have m: "0x11003 AND PTE_ADDR_MASK = 0x11000" "0x12003 AND PTE_ADDR_MASK = 0x12000"
    "is_table 0x11003" "is_table 0x12003" "\<not> is_table 0x400083" "\<not> is_table 0"
    by (simp_all add: PTE_ADDR_MASK_def is_table_def)
  show ?thesis using assms
    by (cases p; cases "tl p"; cases "tl (tl p)") (auto simp: r m split: if_splits)
qed

lemma demo_vm_tree: "tree_inv demo_vm 0x10000"
proof -
  have sh: "pool_shape demo_vm []"
    using demo_phys_inv by (simp add: pool_shape_def demo_vm_def) (simp add: demo_phys_def)
  have "{0x10000, 0x11000, 0x12000} \<subseteq> pool_frame demo_vm ` {..<unat (pt_pool_next demo_vm)}"
  proof -
    have "pool_frame demo_vm 0 = 0x10000" "pool_frame demo_vm 1 = 0x11000" "pool_frame demo_vm 2 = 0x12000"
      "unat (pt_pool_next demo_vm) = 3"
      by (simp_all add: pool_frame_def demo_vm_def PAGE_SIZE_def)
    moreover have "{..<3} = {0, 1, 2 :: nat}" by auto
    ultimately show ?thesis by simp
  qed
  then have u: "t \<in> pt_used demo_vm" if "table_at (ram demo_vm) 0x10000 p = Some t" for p t
    using demo_vm_tables [OF that] by (auto simp: pt_used_eq [OF sh])
  show ?thesis
    unfolding tree_inv_def
  proof (intro conjI allI impI)
    show "pt_inv demo_vm" using sh by (auto simp: pt_inv_def)
  next
    fix p t assume "table_at (ram demo_vm) 0x10000 p = Some t"
    then show "t \<in> pt_used demo_vm" by (rule u)
  next
    fix p q t
    assume "table_at (ram demo_vm) 0x10000 p = Some t" "table_at (ram demo_vm) 0x10000 q = Some t"
    from this [THEN demo_vm_tables] show "p = q" by auto
  next
    fix p t i
    assume "length p \<le> 1" "table_at (ram demo_vm) 0x10000 p = Some t" "bit (ram demo_vm t i) 0"
    from demo_vm_tables [OF this(2)] this(1,3) show "\<not> bit (ram demo_vm t i) 7"
      by (auto simp: demo_vm_def split: if_splits)
  qed
qed

lemma demo_vm_root: "root demo_vm = 0x10000"
  by (simp add: root_def demo_vm_def)

lemma map_entry_addr:
  assumes "pa AND NOT 0xFFF = pa AND PTE_ADDR_MASK" and "flags AND PTE_ADDR_MASK = 0"
  shows "((pa AND NOT 0xFFF) OR flags) AND PTE_ADDR_MASK = pa AND NOT 0xFFF"
proof (rule bit_word_eqI)
  fix n assume "n < LENGTH(64)"
  have "bit flags n \<longrightarrow> \<not> bit PTE_ADDR_MASK n"
    using assms(2) by (metis bit_0_eq bit_and_iff bot_apply bot_bool_def)
  then show "bit (((pa AND NOT 0xFFF) OR flags) AND PTE_ADDR_MASK) n \<longleftrightarrow> bit (pa AND NOT 0xFFF) n"
    unfolding assms(1) bit_and_iff bit_or_iff by blast
qed

lemma map_entry_flag:
  assumes "pa AND NOT 0xFFF = pa AND PTE_ADDR_MASK" and "n < 12 \<or> 52 \<le> n"
  shows "bit ((pa AND NOT 0xFFF) OR flags) n \<longleftrightarrow> bit (flags :: u64) n"
  unfolding assms(1) bit_or_iff bit_and_iff addr_mask_bits using assms(2) by auto

text \<open>The rights of a page with these flags below these tables; \<open>new\<close> says that tables had to be added.\<close>

definition page_rights :: "bool \<Rightarrow> u64 list \<Rightarrow> u64 \<Rightarrow> bool \<times> bool \<times> bool" where
  "page_rights new ts flags =
     (bit flags 1 \<and> list_all (\<lambda>e. bit e 1) ts, bit flags 2 \<and> \<not> new \<and> list_all (\<lambda>e. bit e 2) ts,
      bit flags 63 \<or> list_ex (\<lambda>e. bit e 63) ts)"

text \<open>
  C4: Mapping a page is right for the processor. On well-formed tables, whatever tables
  \<open>mm_map_page\<close> has to create and whatever 2 MiB page it has to split: the tables stay
  well formed; if the call succeeds, addresses of the page translate to the given physical page, when the flags
  have the present bit, and are not translated otherwise; the page is writable, open to user mode or not executable as
  the flags and the tables above it say, where tables that had to be added allow writing and execution and
  no user access. Every address of another page keeps its translation, rights included, except that the other
  pages of a 2 MiB page that is split lose user access and nothing else. The call fails only when no page is left for
  a page table, and then no translation changes.
\<close>

theorem mm_map_page_correct:
  assumes tree: "tree_inv st (root st)" and run: "mm_map_page v pa flags st = (ok, st')"
    and pa: "pa AND NOT 0xFFF = pa AND PTE_ADDR_MASK" and fl: "flags AND PTE_ADDR_MASK = 0"
  defines "ts \<equiv> tables_on st (root st) (take 3 (path v))"
  shows "tree_inv st' (root st') \<and> root st' = root st \<and>
    (\<forall>w. path w \<noteq> path v \<or> \<not> ok \<longrightarrow> mmu st' (root st) w =
       (if ok \<and> large_page st (root st) v \<and> take 3 (path w) = take 3 (path v)
        then no_user (mmu st (root st) w) else mmu st (root st) w)) \<and>
    (ok \<longrightarrow> (\<forall>w. path w = path v \<longrightarrow> mmu st' (root st) w =
       (if bit flags 0 then Some ((pa AND NOT 0xFFF) OR (w AND 0xFFF), page_rights (length ts < 3) ts flags) else None))) \<and>
    (\<not> ok \<longrightarrow> fst (allocate_pt_page st') = 0)"
proof -
  let ?r = "root st" and ?q = "take 3 (path v)"
  obtain res st1 where g: "mm_get_page_table v True st = (res, st1)" by (cases "mm_get_page_table v True st")
  note step = get_page_table_step [OF tree g]
  have ext: "extends st st1 ?r" and same: "mmu st1 ?r w =
      (if res \<noteq> None \<and> large_page st ?r v \<and> take 3 (path w) = ?q then no_user (mmu st ?r w) else mmu st ?r w)" for w
    using step [where w = w] by simp_all
  have r1: "root st1 = ?r" using ext by (simp add: extends_def root_def)
  show ?thesis
  proof (cases res)
    case None
    then have "\<not> ok" "st' = st1" using run g by (auto simp: mm_map_page_def)
    then show ?thesis using ext same r1 get_page_table_fail [OF tree] g None by (simp add: extends_def)
  next
    case (Some p)
    then obtain pt i where p: "res = Some (pt, i)" by (cases p) auto
    define e where "e = (pa AND NOT 0xFFF) OR flags"
    have st': "ok" "st' = set_entry pt i e st1" using run g p by (auto simp: mm_map_page_def e_def)
    have i: "i = pt_index v" and t: "table_at (ram st1) ?r ?q = Some pt" using step p by blast+
    have tree1: "tree_inv st1 ?r" using ext by (simp add: extends_def)
    have ilt: "i < 512" unfolding i pt_index_def by (rule index_less)
    have q: "short ?q" "length ?q = 3" by (rule path_short) simp_all
    note lw = leaf_write [OF tree1 t q ilt, where e = e]
    have tree': "tree_inv st' ?r" and r': "root st' = ?r"
      using lw(1) r1 by (simp_all add: st'(2) root_def set_entry_def)
    have "grown st st1 ?r ?q" using ext q(1) by (simp add: extends_def)
    then obtain es where es: "walk (ram st1) ?r ?q = ts @ es" "\<forall>e \<in> set es. bit e 1 \<and> \<not> bit e 2 \<and> \<not> bit e 63"
      using walk_tables [OF t] by (auto simp: grown_def tables_on_def ts_def)
    have len: "length ts + length es = 3" using length_walk [OF t] q(2) es(1) by simp
    have "mmu st' ?r w = (if bit flags 0 then Some ((pa AND NOT 0xFFF) OR (w AND 0xFFF), page_rights (length ts < 3) ts flags) else None)"
      if w: "path w = path v" for w
    proof -
      have "path w = ?q @ [i]" using w path_split [of v] i by simp
      then have wk: "walk (ram st') ?r (path w) = ts @ es @ [e]" using lw(2) es(1) by (simp add: st'(2))
      have e: "e AND PTE_ADDR_MASK = pa AND NOT 0xFFF" unfolding e_def by (rule map_entry_addr [OF pa fl])
      have b: "bit e 0 = bit flags 0" "bit e 1 = bit flags 1" "bit e 2 = bit flags 2" "bit e 63 = bit flags 63"
        unfolding e_def by (rule map_entry_flag [OF pa], simp)+
      have all: "list_all (\<lambda>e. bit e 1) es" "list_all (\<lambda>e. bit e 2) es \<longleftrightarrow> \<not> length ts < 3" "\<not> list_ex (\<lambda>e. bit e 63) es"
        using es(2) len by (cases es; auto simp: list_all_iff list_ex_iff)+
      show ?thesis using len all b e unfolding mmu_def wk decode_def page_rights_def by auto
    qed
    moreover have "mmu st' ?r w = mmu st1 ?r w" if "path w \<noteq> path v" for w
      using lw(3) [of w] that path_split [of v] i by (simp add: st'(2))
    ultimately show ?thesis using tree' r' st'(1) same p by simp
  qed
qed

theorem mm_map_page_correct_witness:
  "fst (mm_map_page 0x201000 0x7000 3 demo_vm) \<and>
   mmu (snd (mm_map_page 0x201000 0x7000 3 demo_vm)) 0x10000 0x201234 = Some (0x7234, True, False, False)"
proof -
  have ok: "fst (mm_map_page 0x201000 0x7000 3 demo_vm)" by code_simp
  have p: "path 0x201234 = path 0x201000" by code_simp
  have run: "mm_map_page 0x201000 0x7000 3 demo_vm =
      (fst (mm_map_page 0x201000 0x7000 3 demo_vm), snd (mm_map_page 0x201000 0x7000 3 demo_vm))"
    by simp
  have h: "tree_inv demo_vm (root demo_vm)" using demo_vm_tree demo_vm_root by simp
  have m: "(0x7000 :: u64) AND NOT 0xFFF = 0x7000 AND PTE_ADDR_MASK" "(3 :: u64) AND PTE_ADDR_MASK = 0"
    by (simp_all add: PTE_ADDR_MASK_def)
  have "tables_on demo_vm 0x10000 (take 3 (path 0x201000)) = [0x11003, 0x12003]" by code_simp
  moreover have "page_rights True [0x11003, 0x12003] 3 = (True, False, False)" by code_simp
  moreover have "mmu (snd (mm_map_page 0x201000 0x7000 3 demo_vm)) 0x10000 0x201234 =
      (if bit (3 :: u64) 0 then Some ((0x7000 AND NOT 0xFFF) OR (0x201234 AND 0xFFF),
         page_rights (length (tables_on demo_vm 0x10000 (take 3 (path 0x201000))) < 3) (tables_on demo_vm 0x10000 (take 3 (path 0x201000))) 3) else None)"
    using mm_map_page_correct [OF h run m] ok p unfolding demo_vm_root by blast
  ultimately show ?thesis using ok by simp
qed

text \<open>
  C25: \<open>mm_get_physical_address\<close> gives the physical address behind the direct map for an address in it, whatever the
  tables say, and otherwise computes the processor's translation for addresses that are mapped by a 4 KiB
  page; for every other address it returns 0, also when the processor would translate it through a 2 MiB page.
\<close>

theorem mm_get_physical_address_correct:
  assumes tree: "tree_inv st (root st)"
  shows "(is_direct_map_addr v \<longrightarrow> mm_get_physical_address v st < 0x400000000 \<and> phys_to_virt (mm_get_physical_address v st) = v) \<and>
    (\<not> is_direct_map_addr v \<longrightarrow> mm_get_physical_address v st =
      (case mmu st (root st) v of Some (pa, _) \<Rightarrow> if small_page st v then pa else 0 | None \<Rightarrow> 0))"
proof (intro conjI impI)
  assume d: "is_direct_map_addr v"
  then show "phys_to_virt (mm_get_physical_address v st) = v" by (simp add: mm_get_physical_address_def phys_to_virt_def)
  have "unat PHYS_MAP_BASE \<le> unat v" "unat v < unat (PHYS_MAP_BASE + 0x400000000)"
    using d by (simp_all add: is_direct_map_addr_def word_le_nat_alt word_less_nat_alt)
  then show "mm_get_physical_address v st < 0x400000000"
    using d by (simp add: mm_get_physical_address_def word_less_nat_alt unat_minus_no_wrap PHYS_MAP_BASE_def)
next
  assume nd: "\<not> is_direct_map_addr v"
  show "mm_get_physical_address v st =
    (case mmu st (root st) v of Some (pa, _) \<Rightarrow> if small_page st v then pa else 0 | None \<Rightarrow> 0)"
  proof (cases "table_at (ram st) (root st) (take 3 (path v))")
    case None
    then have "\<not> small_page st v" using walk_not_small [OF None] by (simp add: small_page_def)
    then show ?thesis
      using nd None get_page_table_lookup [OF tree, of v]
      by (simp add: mm_get_physical_address_def split: option.split)
  next
    case (Some pt)
    note w = walk_small [OF Some]
    have "(0x000FFFFFFFFFF000 :: u64) = PTE_ADDR_MASK" by (simp add: PTE_ADDR_MASK_def)
    moreover have "length (walk (ram st) (root st) (take 3 (path v))) = 3"
      using length_walk [OF Some] by simp
    ultimately show ?thesis
      using nd Some get_page_table_lookup [OF tree, of v] w(1)
      by (simp add: mm_get_physical_address_def and_pte_mask mmu_def decode_def small_page_def)
  qed
qed

theorem mm_get_physical_address_correct_witness:
  "mmu demo_vm 0x10000 0x1234 = Some (0x401234, True, False, False) \<and>
   mm_get_physical_address 0x1234 demo_vm = 0"
proof -
  have m: "mmu demo_vm 0x10000 0x1234 = Some (0x401234, True, False, False)" by code_simp
  have h: "tree_inv demo_vm (root demo_vm)" using demo_vm_tree demo_vm_root by simp
  have nd: "\<not> is_direct_map_addr 0x1234" and ns: "\<not> small_page demo_vm 0x1234" by code_simp+
  from mm_get_physical_address_correct [OF h, of "0x1234"] nd m ns show ?thesis by (simp add: demo_vm_root)
qed

text \<open>
  C26: Unmapping removes exactly one translation. After \<open>mm_unmap_page\<close> on well-formed
  tables the tables are well formed, the page is translated no more if it was a 4 KiB
  page, a page that lies in a 2 MiB page keeps its translation, and so does every
  address of another page.
\<close>

theorem mm_unmap_page_correct:
  assumes tree: "tree_inv st (root st)"
  shows "tree_inv (mm_unmap_page v st) (root (mm_unmap_page v st)) \<and>
    root (mm_unmap_page v st) = root st \<and>
    (\<forall>w. mmu (mm_unmap_page v st) (root st) w =
       (if path w = path v \<and> small_page st v then None else mmu st (root st) w))"
proof (cases "table_at (ram st) (root st) (take 3 (path v))")
  case None
  then have "mm_unmap_page v st = st"
    using get_page_table_lookup [OF tree, of v] by (simp add: mm_unmap_page_def mm_unmap_page_no_shootdown_def)
  then show ?thesis using tree walk_not_small [OF None] by (simp add: small_page_def)
next
  case (Some pt)
  let ?r = "root st" and ?i = "pt_index v"
  have sm: "small_page st v" using walk_small(2) [OF Some] by (simp add: small_page_def)
  have st': "mm_unmap_page v st =
      (if bit (ram st pt ?i) 0 then set_entry pt ?i 0 st else st)"
    using get_page_table_lookup [OF tree, of v] Some
    by (simp add: mm_unmap_page_def mm_unmap_page_no_shootdown_def and_pte_mask)
  have ilt: "?i < 512" unfolding pt_index_def by (rule index_less)
  have q: "short (take 3 (path v))" "length (take 3 (path v)) = 3" by (rule path_short) simp_all
  note lw = leaf_write [OF tree Some q ilt, where e = 0]
  have gone: "mmu (set_entry pt ?i 0 st) ?r w = None" if "path w = path v" for w
    using lw(2) [of w] that path_split [of v] by (simp add: mmu_def decode_def)
  have absent: "mmu st ?r w = None" if "path w = path v" "\<not> bit (ram st pt ?i) 0" for w
    using walk_small(1) [OF Some] that by (simp add: mmu_def decode_def)
  have rt: "root (set_entry pt ?i 0 st) = ?r" by (simp add: root_def set_entry_def)
  show ?thesis
  proof (cases "bit (ram st pt ?i) 0")
    case True
    then show ?thesis
      using st' rt lw(1) lw(3) gone sm path_split [of v] by simp
  next
    case False
    then show ?thesis using st' tree absent sm by simp
  qed
qed

theorem mm_unmap_page_correct_witness:
  "mmu demo_vm 0x10000 0x1234 \<noteq> None \<and>
   mmu (mm_unmap_page 0x201000 demo_vm) 0x10000 0x1234 = mmu demo_vm 0x10000 0x1234"
proof -
  have m: "mmu demo_vm 0x10000 0x1234 \<noteq> None" and p: "path 0x1234 \<noteq> path 0x201000" by code_simp+
  have h: "tree_inv demo_vm (root demo_vm)" using demo_vm_tree demo_vm_root by simp
  from mm_unmap_page_correct [OF h, of "0x201000"] m p show ?thesis by (simp add: demo_vm_root)
qed

end
