(* ===== verification/Bytes.thy ===== *)
theory Bytes
  imports Prelude
begin

text \<open>
  Memory as bytes, and the two block operations of \<^verbatim>\<open>kernel/mm/memory.c\<close> every other
  part of the kernel uses: \<^verbatim>\<open>mm_memset\<close> with its 64-bit fast path and \<^verbatim>\<open>mm_memcpy\<close>.
  Pointer arithmetic wraps modulo \<open>2^64\<close>, so a block is the set of addresses whose
  offset from its start is below its length.
\<close>

type_synonym bytes = "addr \<Rightarrow> u8"

text \<open>A 64-bit little-endian store.\<close>

definition store64 :: "addr \<Rightarrow> u64 \<Rightarrow> bytes \<Rightarrow> bytes" where
  "store64 p v m = (\<lambda>a. if a - p < 8 then ucast (drop_bit (8 * unat (a - p)) v) else m a)"

section \<open>Filling a block\<close>

text \<open>\<open>while (len--) *ptr++ = byte_val;\<close>\<close>

fun set_bytes :: "nat \<Rightarrow> addr \<Rightarrow> u8 \<Rightarrow> bytes \<Rightarrow> bytes" where
  "set_bytes 0 p v m = m"
| "set_bytes (Suc len) p v m = set_bytes len (p + 1) v (m(p := v))"

text \<open>\<open>while (words--) *ptr64++ = pattern;\<close>, also the effect of \<open>rep stosq\<close>.\<close>

fun set_words :: "nat \<Rightarrow> addr \<Rightarrow> u64 \<Rightarrow> bytes \<Rightarrow> addr \<times> bytes" where
  "set_words 0 p w m = (p, m)"
| "set_words (Suc words) p w m = set_words words (p + 8) w (store64 p w m)"

text \<open>The unrolled loop: four stores per round, then the rest one at a time.\<close>

function set_words4 :: "nat \<Rightarrow> addr \<Rightarrow> u64 \<Rightarrow> bytes \<Rightarrow> addr \<times> bytes" where
  "set_words4 words p w m =
     (if 4 \<le> words
      then set_words4 (words - 4) (p + 32) w
             (store64 (p + 24) w (store64 (p + 16) w (store64 (p + 8) w (store64 p w m))))
      else set_words words p w m)"
  by pat_completeness auto
termination
  by (relation "measure (\<lambda>(words, p, w, m). words)") auto

declare set_words4.simps [simp del]

definition byte_pattern :: "u8 \<Rightarrow> u64" where
  "byte_pattern byte_val =
     (let pattern = (ucast byte_val :: u64);
          pattern = pattern OR push_bit 8 pattern;
          pattern = pattern OR push_bit 16 pattern
      in pattern OR push_bit 32 pattern)"

definition mm_memset :: "addr \<Rightarrow> u32 \<Rightarrow> u64 \<Rightarrow> bytes \<Rightarrow> bytes" where
  "mm_memset dest val len m =
     (let byte_val = (ucast val :: u8) in
      if len \<ge> 32 \<and> dest AND 7 = 0
      then let pattern = byte_pattern byte_val;
               words = len div 8;
               remainder = len mod 8;
               (ptr, m1) = (if words \<ge> 64 then set_words (unat words) dest pattern m
                            else set_words4 (unat words) dest pattern m)
           in set_bytes (unat remainder) ptr byte_val m1
      else set_bytes (unat len) dest byte_val m)"

section \<open>Copying a block\<close>

text \<open>
  \<open>while (len--) *d++ = *s++;\<close>, byte by byte upwards; \<open>rep movsb\<close> with the direction
  flag clear does the same.
\<close>

fun copy_up :: "nat \<Rightarrow> addr \<Rightarrow> addr \<Rightarrow> bytes \<Rightarrow> bytes" where
  "copy_up 0 d s m = m"
| "copy_up (Suc len) d s m = copy_up len (d + 1) (s + 1) (m(d := m s))"

definition mm_memcpy :: "addr \<Rightarrow> addr \<Rightarrow> u64 \<Rightarrow> bytes \<Rightarrow> bytes" where
  "mm_memcpy dest src len m = copy_up (unat len) dest src m"

section \<open>What they do\<close>

text \<open>Offsets into a block: \<open>a\<close> lies in the \<open>n\<close> bytes from \<open>p\<close>.\<close>

definition in_block :: "addr \<Rightarrow> nat \<Rightarrow> addr \<Rightarrow> bool" where
  "in_block p n a \<longleftrightarrow> unat (a - p) < n"

lemma in_block_0 [simp]: "\<not> in_block p 0 a"
  by (simp add: in_block_def)

lemma in_block_bounds:
  assumes "in_block p n a" and "unat p + n \<le> 2 ^ 64"
  shows "unat p \<le> unat a \<and> unat a < unat p + n"
proof -
  have "unat (p + (a - p)) = unat p + unat (a - p)"
    using assms by (subst unat_plus_no_wrap) (simp_all add: in_block_def)
  then show ?thesis using assms(1) by (simp add: in_block_def)
qed

lemma in_block_iff:
  assumes "unat p + n \<le> 2 ^ 64"
  shows "in_block p n a \<longleftrightarrow> unat p \<le> unat a \<and> unat a < unat p + n"
  using in_block_bounds [OF _ assms, of a]
  by (auto simp: in_block_def unat_minus_no_wrap)

lemma in_block_shift:
  assumes "k \<le> n" and "n \<le> 2 ^ 64"
  shows "in_block p n a \<longleftrightarrow> in_block p k a \<or> in_block (p + of_nat k) (n - k) a"
proof (cases "k = 2 ^ 64")
  case True
  with assms have "n = k" by simp
  then show ?thesis by simp
next
  case False
  with assms have k: "k < 2 ^ 64" by simp
  then have uk: "unat (of_nat k :: u64) = k" by (simp add: unat_of_nat)
  define d where "d = a - p"
  have d: "a - (p + of_nat k) = d - of_nat k" by (simp add: d_def)
  show ?thesis
  proof (cases "unat d < k")
    case True
    with assms show ?thesis by (simp add: in_block_def d_def)
  next
    case ge: False
    then have "unat (d - of_nat k) = unat d - k"
      by (subst unat_minus_no_wrap) (simp_all add: uk)
    with ge show ?thesis unfolding in_block_def d by (auto simp: d_def [symmetric])
  qed
qed

lemma in_block_Suc:
  assumes "Suc n \<le> 2 ^ 64"
  shows "in_block p (Suc n) a \<longleftrightarrow> a = p \<or> in_block (p + 1) n a"
proof -
  have "in_block p 1 a \<longleftrightarrow> a = p" by (simp add: in_block_def unat_eq_zero)
  then show ?thesis using in_block_shift [of 1 "Suc n" p a] assms by simp
qed

lemma set_bytes_eq:
  "n \<le> 2 ^ 64 \<Longrightarrow> set_bytes n p v m = (\<lambda>a. if in_block p n a then v else m a)"
proof (induction n arbitrary: p m)
  case (Suc n)
  then show ?case by (auto simp: in_block_Suc fun_eq_iff)
qed simp

lemma bit_double:
  fixes w :: u64
  assumes "\<And>n. bit w n \<longleftrightarrow> n < k \<and> bit (v :: u8) (n mod 8)" and "8 dvd k" and "2 * k \<le> 64"
  shows "bit (w OR push_bit k w) n \<longleftrightarrow> n < 2 * k \<and> bit v (n mod 8)"
proof -
  from assms(2) obtain j where k: "k = 8 * j" by (elim dvdE)
  have "k \<le> n \<Longrightarrow> (n - k) mod 8 = n mod 8"
    unfolding k by (metis le_add_diff_inverse mod_mult_self4)
  then show ?thesis using assms(3) by (auto simp: bit_or_iff bit_push_bit_iff assms(1))
qed

lemma bit_byte_pattern: "bit (byte_pattern v) n \<longleftrightarrow> n < 64 \<and> bit v (n mod 8)"
proof -
  define p0 where "p0 = (ucast v :: u64)"
  define p1 where "p1 = p0 OR push_bit 8 p0"
  define p2 where "p2 = p1 OR push_bit 16 p1"
  have "bit p0 n \<longleftrightarrow> n < 8 \<and> bit v (n mod 8)" for n
    using bit_imp_le_length [of v n] by (auto simp: p0_def bit_ucast_iff)
  from bit_double [OF this] have "bit p1 n \<longleftrightarrow> n < 16 \<and> bit v (n mod 8)" for n
    by (simp add: p1_def)
  from bit_double [OF this] have "bit p2 n \<longleftrightarrow> n < 32 \<and> bit v (n mod 8)" for n
    by (simp add: p2_def)
  from bit_double [OF this] show ?thesis
    by (simp add: byte_pattern_def Let_def p2_def p1_def p0_def)
qed

lemma byte_of_pattern:
  assumes "k < 8"
  shows "ucast (drop_bit (8 * k) (byte_pattern v)) = v"
proof (rule bit_word_eqI)
  fix n assume "n < LENGTH(8)"
  with assms show "bit (ucast (drop_bit (8 * k) (byte_pattern v)) :: u8) n \<longleftrightarrow> bit v n"
    by (simp add: bit_ucast_iff bit_drop_bit_eq bit_byte_pattern)
qed

lemma store64_pattern:
  "store64 p (byte_pattern v) m = (\<lambda>a. if in_block p 8 a then v else m a)"
  by (auto simp: store64_def in_block_def fun_eq_iff word_less_nat_alt byte_of_pattern)

lemma set_words_eq:
  "8 * n \<le> 2 ^ 64 \<Longrightarrow> set_words n p (byte_pattern v) m =
     (p + of_nat (8 * n), \<lambda>a. if in_block p (8 * n) a then v else m a)"
proof (induction n arbitrary: p m)
  case (Suc n)
  have "in_block p (8 * Suc n) a \<longleftrightarrow> in_block p 8 a \<or> in_block (p + 8) (8 * n) a" for a
    using in_block_shift [of 8 "8 * Suc n" p a] Suc.prems by simp
  with Suc show ?case by (auto simp: store64_pattern fun_eq_iff algebra_simps)
qed simp

lemma set_words4_eq: "set_words4 n p w m = set_words n p w m"
proof (induction n p w m rule: set_words4.induct)
  case (1 n p w m)
  show ?case
  proof (cases "4 \<le> n")
    case True
    define k where "k = n - 4"
    with True have n: "n = Suc (Suc (Suc (Suc k)))" by simp
    show ?thesis
      using 1 [OF True] by (subst set_words4.simps) (simp add: n add.assoc)
  next
    case False
    then show ?thesis by (subst set_words4.simps) simp
  qed
qed

lemma mm_memset_eq:
  "mm_memset dest val len m = (\<lambda>a. if in_block dest (unat len) a then ucast val else m a)"
proof (cases "len \<ge> 32 \<and> dest AND 7 = 0")
  case True
  let ?w = "unat (len div 8)" and ?r = "unat (len mod 8)"
  have len: "8 * ?w + ?r = unat len" by (simp add: unat_div_distrib unat_mod_distrib)
  have small: "8 * ?w \<le> unat len" and le: "unat len \<le> 2 ^ 64"
    using len unat_lt_2p [of len] by simp_all
  then have "set_words ?w dest (byte_pattern (ucast val)) m =
      (dest + of_nat (8 * ?w), \<lambda>a. if in_block dest (8 * ?w) a then ucast val else m a)"
    by (intro set_words_eq) simp
  moreover have "in_block dest (unat len) a \<longleftrightarrow>
      in_block dest (8 * ?w) a \<or> in_block (dest + of_nat (8 * ?w)) ?r a" for a
    using in_block_shift [OF small le, of dest a] len by (metis add_diff_cancel_left')
  ultimately show ?thesis
    using True len le by (auto simp: mm_memset_def Let_def set_words4_eq set_bytes_eq fun_eq_iff)
next
  case False
  then show ?thesis
    using set_bytes_eq [of "unat len"] unat_lt_2p [of len]
    by (auto simp: mm_memset_def Let_def)
qed

text \<open>
  \<open>mm_memset\<close> fills exactly the block: whatever path is taken (rep stosq, the
  unrolled 64-bit loop or single bytes), every byte of the \<open>len\<close> bytes from \<open>dest\<close>
  becomes the low byte of \<open>val\<close> and every other byte of memory is unchanged.
\<close>

theorem mm_memset_correct:
  "mm_memset dest val len m = (\<lambda>a. if in_block dest (unat len) a then ucast val else m a)"
  by (rule mm_memset_eq)

text \<open>A forward copy reads every source byte before overwriting it.\<close>

lemma copy_up_eq:
  assumes "n \<le> 2 ^ 64" and "\<And>i. i < n \<Longrightarrow> \<not> in_block d i (s + of_nat i)"
  shows "copy_up n d s m = (\<lambda>a. if in_block d n a then m (s + (a - d)) else m a)"
  using assms
proof (induction n arbitrary: d s m)
  case (Suc n)
  have "\<not> in_block (d + 1) i (s + 1 + of_nat i)" if "i < n" for i
    using Suc.prems(2) [of "Suc i"] in_block_Suc [of i d "s + of_nat (Suc i)"] that Suc.prems(1)
    by (simp add: add.assoc)
  with Suc have IH: "copy_up n (d + 1) (s + 1) (m(d := m s)) =
      (\<lambda>a. if in_block (d + 1) n a then (m(d := m s)) (s + 1 + (a - (d + 1))) else (m(d := m s)) a)"
    by simp
  have "s + (a - d) \<noteq> d" if "in_block d (Suc n) a" and "a \<noteq> d" for a
  proof
    assume eq: "s + (a - d) = d"
    define i where "i = unat (a - d)"
    then have "s + of_nat i = d" and "i < Suc n" using eq that by (simp_all add: in_block_def)
    moreover have "in_block d i d \<longleftrightarrow> 0 < i" by (simp add: in_block_def)
    ultimately have "i = 0" using Suc.prems(2) [of i] by simp
    then show False using \<open>a \<noteq> d\<close> by (simp add: i_def unat_eq_zero)
  qed
  moreover have "\<not> in_block (d + 1) n d"
    using Suc.prems(1) by (simp add: in_block_def unsigned_minus_1_eq_mask mask_eq_exp_minus_1)
  ultimately show ?case
    using IH in_block_Suc [OF Suc.prems(1)] by (auto simp: fun_eq_iff)
qed simp

lemma not_in_block_lt:
  assumes "i < n" and "n \<le> 2 ^ 64" and "\<And>a. in_block d n a \<Longrightarrow> \<not> in_block s n a"
  shows "\<not> in_block d i (s + of_nat i)"
proof
  assume "in_block d i (s + of_nat i)"
  then have "in_block d n (s + of_nat i)" using assms(1) by (simp add: in_block_def)
  then have "\<not> in_block s n (s + of_nat i)" by (rule assms(3))
  then show False using assms(1,2) by (simp add: in_block_def unat_of_nat_small)
qed

text \<open>
  \<open>mm_memcpy\<close> copies the block when source and destination do not overlap:
  byte \<open>i\<close> of the destination gets byte \<open>i\<close> of the source and every other byte
  of memory is unchanged.
\<close>

theorem mm_memcpy_correct:
  assumes "\<And>a. in_block dest (unat len) a \<Longrightarrow> \<not> in_block src (unat len) a"
  shows "mm_memcpy dest src len m =
    (\<lambda>a. if in_block dest (unat len) a then m (src + (a - dest)) else m a)"
  unfolding mm_memcpy_def
proof (rule copy_up_eq)
  show len: "unat len \<le> 2 ^ 64" using unat_lt_2p [of len] by simp
  show "\<not> in_block dest i (src + of_nat i)" if "i < unat len" for i
    using that len assms by (rule not_in_block_lt)
qed

end
