(* ===== verification/Allocator.thy ===== *)
theory Allocator
  imports Bytes
begin

text \<open>
  The contract of a memory allocator, as the kernel's users of \<^verbatim>\<open>kalloc\<close> and
  \<^verbatim>\<open>kalloc_dma\<close> rely on it: the areas handed out and not yet returned are disjoint,
  a request returns a new area that is large enough or NULL, and freeing an area
  takes back that area and nothing else. \<open>servable\<close> says which requests the
  contract covers.
\<close>

locale allocator =
  fixes inv :: "'s \<Rightarrow> bool"
    and live :: "'s \<Rightarrow> (addr \<times> nat) set"
    and servable :: "u64 \<Rightarrow> bool"
    and alloc :: "u64 \<Rightarrow> 's \<Rightarrow> (addr \<times> 's) option"
    and free :: "addr \<Rightarrow> 's \<Rightarrow> 's"
  assumes alloc_returns: "inv s \<Longrightarrow> servable n \<Longrightarrow> \<exists>p s'. alloc n s = Some (p, s') \<and> inv s'"
    and alloc_null: "inv s \<Longrightarrow> servable n \<Longrightarrow> alloc n s = Some (NULL, s') \<Longrightarrow> live s' = live s"
    and alloc_live: "inv s \<Longrightarrow> servable n \<Longrightarrow> alloc n s = Some (p, s') \<Longrightarrow> p \<noteq> NULL \<Longrightarrow>
      \<exists>k \<ge> unat n. live s' = insert (p, k) (live s) \<and> (\<forall>j. (p, j) \<notin> live s)"
    and free_inv: "inv s \<Longrightarrow> (p, k) \<in> live s \<Longrightarrow> inv (free p s)"
    and free_live: "inv s \<Longrightarrow> (p, k) \<in> live s \<Longrightarrow> live (free p s) = live s - {(p, k)}"
    and live_disjoint: "inv s \<Longrightarrow> (p, k) \<in> live s \<Longrightarrow> (q, l) \<in> live s \<Longrightarrow> p \<noteq> q \<Longrightarrow>
      in_block p k a \<Longrightarrow> \<not> in_block q l a"
begin

lemma alloc_inv: "inv s \<Longrightarrow> servable n \<Longrightarrow> alloc n s = Some (p, s') \<Longrightarrow> inv s'"
  using alloc_returns by fastforce

text \<open>A new area overlaps none of those still in use.\<close>

lemma fresh_disjoint:
  assumes "inv s" and "servable n" and "alloc n s = Some (p, s')" and "p \<noteq> NULL"
    and "(q, l) \<in> live s" and "in_block q l a"
  shows "\<not> in_block p (unat n) a"
proof -
  from alloc_live [OF assms(1-4)] obtain k where k: "unat n \<le> k"
    and live: "live s' = insert (p, k) (live s)" and new: "\<forall>j. (p, j) \<notin> live s" by blast
  have "p \<noteq> q" using new assms(5) by blast
  then have "\<not> in_block p k a"
    using live_disjoint [OF alloc_inv [OF assms(1-3)], of q l p k a] live assms(5,6) by blast
  then show ?thesis using k by (simp add: in_block_def)
qed

text \<open>Freeing what was just allocated gives back the areas of before.\<close>

lemma alloc_free_live:
  assumes "inv s" and "servable n" and "alloc n s = Some (p, s')" and "p \<noteq> NULL"
  shows "inv (free p s') \<and> live (free p s') = live s"
proof -
  from alloc_live [OF assms] obtain k where
    live: "live s' = insert (p, k) (live s)" and new: "\<forall>j. (p, j) \<notin> live s" by blast
  have inv': "inv s'" by (rule alloc_inv [OF assms(1-3)])
  show ?thesis
    using free_inv [OF inv', of p k] free_live [OF inv', of p k] live new by auto
qed

text \<open>
  What a client holds after a run of requests: the addresses it was given, each with the size it asked for.
  It asks for servable sizes and frees only what it holds. Nothing here looks inside the allocator.
\<close>

inductive holds :: "'s \<Rightarrow> (addr \<times> u64) set \<Rightarrow> 's \<Rightarrow> bool" for s0 where
  start: "holds s0 {} s0"
| step_alloc: "holds s0 H s \<Longrightarrow> servable n \<Longrightarrow> alloc n s = Some (p, s') \<Longrightarrow>
    holds s0 (if p = NULL then H else insert (p, n) H) s'"
| step_free: "holds s0 H s \<Longrightarrow> (p, n) \<in> H \<Longrightarrow> holds s0 (H - {(p, n)}) (free p s)"

text \<open>Every held area lies in one the allocator knows, and no address is held twice.\<close>

lemma holds_inv:
  assumes "holds s0 H s" and "inv s0"
  shows "inv s \<and> inj_on fst H \<and> (\<forall>(p, n) \<in> H. \<exists>k \<ge> unat n. (p, k) \<in> live s)"
  using assms
proof (induction rule: holds.induct)
  case (step_alloc H s n p s')
  then have IH: "inv s" "inj_on fst H" "\<forall>(p, n) \<in> H. \<exists>k \<ge> unat n. (p, k) \<in> live s" by auto
  note a = step_alloc.hyps(2,3)
  show ?case
  proof (cases "p = NULL")
    case True
    then show ?thesis using IH alloc_inv [OF IH(1) a] alloc_null [OF IH(1) a(1), of s'] a(2) by simp
  next
    case False
    from alloc_live [OF IH(1) a False] obtain k where k: "unat n \<le> k"
      and live: "live s' = insert (p, k) (live s)" and new: "\<forall>j. (p, j) \<notin> live s" by blast
    have "p \<notin> fst ` H" using IH(3) new by fastforce
    then have "inj_on fst (insert (p, n) H)" using IH(2) by (auto simp: inj_on_def image_iff)
    moreover have "\<forall>(q, m) \<in> insert (p, n) H. \<exists>k \<ge> unat m. (q, k) \<in> live s'" using IH(3) k live by fastforce
    ultimately show ?thesis using alloc_inv [OF IH(1) a] False by simp
  qed
next
  case (step_free H s p n)
  then have IH: "inv s" "inj_on fst H" "\<forall>(p, n) \<in> H. \<exists>k \<ge> unat n. (p, k) \<in> live s" by auto
  from IH(3) step_free.hyps(2) obtain k where k: "(p, k) \<in> live s" by blast
  have "q \<noteq> p" if "(q, m) \<in> H - {(p, n)}" for q m
    using that step_free.hyps(2) inj_onD [OF IH(2), of "(q, m)" "(p, n)"] by auto
  then have "\<forall>(q, m) \<in> H - {(p, n)}. \<exists>k \<ge> unat m. (q, k) \<in> live (free p s)"
    using IH(3) free_live [OF IH(1) k] by fastforce
  then show ?case using free_inv [OF IH(1) k] IH(2) by (auto intro: inj_on_diff)
qed auto

lemma holds_disjoint:
  assumes "holds s0 H s" and "inv s0" and "(p, n) \<in> H" and "(q, m) \<in> H" and "(p, n) \<noteq> (q, m)"
  shows "\<not> (in_block p (unat n) a \<and> in_block q (unat m) a)"
proof -
  note h = holds_inv [OF assms(1,2)]
  obtain k l where k: "unat n \<le> k" "(p, k) \<in> live s" and l: "unat m \<le> l" "(q, l) \<in> live s"
    using h assms(3,4) by blast
  have "p \<noteq> q" using h assms(3-5) inj_onD [of fst H "(p, n)" "(q, m)"] by auto
  then have "\<not> (in_block p k a \<and> in_block q l a)" using live_disjoint h k(2) l(2) by blast
  then show ?thesis using k(1) l(1) by (auto simp: in_block_def)
qed

lemma holds_returns:
  assumes "holds s0 H s" and "inv s0" and "servable n"
  shows "\<exists>p s'. alloc n s = Some (p, s')"
  using alloc_returns [OF _ assms(3)] holds_inv [OF assms(1,2)] by blast

end

end
