(* ===== verification/Heap.thy ===== *)
theory Heap
  imports Allocator
begin

text \<open>
  The block-list heap of \<^verbatim>\<open>kernel/mm/memory.c\<close> that serves DMA buffers
  (\<^verbatim>\<open>kalloc_dma\<close>, \<^verbatim>\<open>kcalloc_dma\<close>, \<^verbatim>\<open>kfree_dma\<close>): every block starts with a 32-byte
  header, the headers form one doubly linked list in address order, allocation
  is first fit with splitting and freeing merges with both neighbours.
  \<open>blk\<close> is the memory of the headers, \<open>payload\<close> the memory of the user bytes.
\<close>

section \<open>Headers and state\<close>

record heap_block =
  hb_magic :: u32
  hb_size :: u32
  hb_is_free :: u8
  hb_next :: addr
  hb_prev :: addr

record heap_state =
  heap_start :: addr
  heap_end :: addr
  heap_free_list :: addr
  heap_size :: u64
  heap_used :: u64
  allocation_count :: u32
  deallocation_count :: u32
  blk :: "addr \<Rightarrow> heap_block"
  payload :: bytes

definition HEAP_MAGIC_ALLOCATED :: u32 where "HEAP_MAGIC_ALLOCATED = 0xDEADBEEF"
definition HEAP_MAGIC_FREE :: u32 where "HEAP_MAGIC_FREE = 0xFEEDFACE"
definition KERNEL_HEAP_SIZE :: u64 where "KERNEL_HEAP_SIZE = 0x800000"

text \<open>\<open>sizeof(heap_block_t)\<close>: two words, a byte with padding, two pointers.\<close>

definition sizeof_heap_block :: u64 where "sizeof_heap_block = 32"

text \<open>Writing one header.\<close>

definition upd_blk :: "addr \<Rightarrow> (heap_block \<Rightarrow> heap_block) \<Rightarrow> heap_state \<Rightarrow> heap_state" where
  "upd_blk a f h = h\<lparr>blk := (blk h)(a := f (blk h a))\<rparr>"

text \<open>A header field that is a 32-bit size, promoted to 64 bits as C does.\<close>

definition bsize :: "heap_state \<Rightarrow> addr \<Rightarrow> u64" where
  "bsize h b = ucast (hb_size (blk h b))"

section \<open>Operations\<close>

text \<open>The address the linker puts behind the kernel image is the parameter.\<close>

definition mm_initialize_heap :: "addr \<Rightarrow> heap_state \<Rightarrow> heap_state" where
  "mm_initialize_heap start h =
     (let h1 = h\<lparr>heap_start := start, heap_size := KERNEL_HEAP_SIZE,
                 heap_end := start + KERNEL_HEAP_SIZE, heap_used := 0,
                 allocation_count := 0, deallocation_count := 0\<rparr>;
          h2 = upd_blk start (\<lambda>_. \<lparr>hb_magic = HEAP_MAGIC_FREE,
                 hb_size = ucast (KERNEL_HEAP_SIZE - sizeof_heap_block),
                 hb_is_free = 1, hb_next = NULL, hb_prev = NULL\<rparr>) h1
      in h2\<lparr>heap_free_list := start\<rparr>)"

text \<open>
  The search follows \<open>next\<close> until it finds a fit or the end; on a cyclic list it
  would not return (\<open>None\<close>).
\<close>

partial_function (option) find_free_block_from :: "heap_state \<Rightarrow> u64 \<Rightarrow> addr \<Rightarrow> addr option" where
  "find_free_block_from h sz current =
     (if current = NULL then Some NULL
      else if hb_is_free (blk h current) \<noteq> 0 \<and> bsize h current \<ge> sz then Some current
      else find_free_block_from h sz (hb_next (blk h current)))"

declare find_free_block_from.simps [code]

definition find_free_block :: "u64 \<Rightarrow> heap_state \<Rightarrow> addr option" where
  "find_free_block sz h = find_free_block_from h sz (heap_free_list h)"

definition split_block :: "addr \<Rightarrow> u64 \<Rightarrow> heap_state \<Rightarrow> heap_state" where
  "split_block block sz h =
     (if bsize h block < sz + sizeof_heap_block + 32 then h
      else
        let new_block = block + sizeof_heap_block + sz;
            h1 = upd_blk new_block (\<lambda>_. \<lparr>hb_magic = HEAP_MAGIC_FREE,
                   hb_size = ucast (bsize h block - sz - sizeof_heap_block),
                   hb_is_free = 1, hb_next = hb_next (blk h block), hb_prev = block\<rparr>) h;
            h2 = (if hb_next (blk h1 block) \<noteq> NULL
                  then upd_blk (hb_next (blk h1 block)) (\<lambda>b. b\<lparr>hb_prev := new_block\<rparr>) h1
                  else h1);
            h3 = upd_blk block (\<lambda>b. b\<lparr>hb_next := new_block\<rparr>) h2
        in upd_blk block (\<lambda>b. b\<lparr>hb_size := ucast sz\<rparr>) h3)"

definition is_valid_heap_block :: "heap_state \<Rightarrow> addr \<Rightarrow> bool" where
  "is_valid_heap_block h block =
     (if block = NULL then True
      else if block < heap_start h \<or> block \<ge> heap_end h then False
      else if hb_magic (blk h block) \<noteq> HEAP_MAGIC_ALLOCATED
              \<and> hb_magic (blk h block) \<noteq> HEAP_MAGIC_FREE then False
      else True)"

text \<open>
  Merging with the next block. \<open>Inl\<close> is an early return out of
  \<open>coalesce_blocks\<close> on a corrupt neighbour, \<open>Inr\<close> falls through.
\<close>

definition coalesce_next :: "addr \<Rightarrow> heap_state \<Rightarrow> heap_state + heap_state" where
  "coalesce_next block h =
     (let nxt = hb_next (blk h block) in
      if nxt \<noteq> NULL \<and> hb_is_free (blk h nxt) \<noteq> 0
      then if \<not> is_valid_heap_block h nxt then Inl h
           else
             let h1 = upd_blk block (\<lambda>b. b\<lparr>hb_size :=
                        hb_size b + (hb_size (blk h nxt) + ucast sizeof_heap_block)\<rparr>) h;
                 nn = hb_next (blk h1 nxt)
             in if nn \<noteq> NULL \<and> \<not> is_valid_heap_block h1 nn then Inl h1
                else
                  let h2 = (if nn \<noteq> NULL then upd_blk nn (\<lambda>b. b\<lparr>hb_prev := block\<rparr>) h1 else h1)
                  in Inr (upd_blk block (\<lambda>b. b\<lparr>hb_next := hb_next (blk h2 nxt)\<rparr>) h2)
      else Inr h)"

definition coalesce_prev :: "addr \<Rightarrow> heap_state \<Rightarrow> heap_state" where
  "coalesce_prev block h =
     (let prv = hb_prev (blk h block) in
      if prv \<noteq> NULL \<and> hb_is_free (blk h prv) \<noteq> 0
      then if \<not> is_valid_heap_block h prv then h
           else
             let h1 = upd_blk prv (\<lambda>b. b\<lparr>hb_size :=
                        hb_size b + (hb_size (blk h block) + ucast sizeof_heap_block)\<rparr>) h;
                 nxt = hb_next (blk h1 block)
             in if nxt \<noteq> NULL \<and> \<not> is_valid_heap_block h1 nxt then h1
                else
                  let h2 = (if nxt \<noteq> NULL then upd_blk nxt (\<lambda>b. b\<lparr>hb_prev := prv\<rparr>) h1 else h1)
                  in upd_blk prv (\<lambda>b. b\<lparr>hb_next := hb_next (blk h2 block)\<rparr>) h2
      else h)"

definition coalesce_blocks :: "addr \<Rightarrow> heap_state \<Rightarrow> heap_state" where
  "coalesce_blocks block h =
     (if \<not> is_valid_heap_block h block then h
      else case coalesce_next block h of
             Inl h1 \<Rightarrow> h1
           | Inr h1 \<Rightarrow> coalesce_prev block h1)"

definition kalloc_dma :: "u64 \<Rightarrow> heap_state \<Rightarrow> (addr \<times> heap_state) option" where
  "kalloc_dma size_arg h =
     (if size_arg = 0 then Some (NULL, h)
      else
        let sz = (size_arg + 7) AND NOT 7 in
        case find_free_block sz h of
          None \<Rightarrow> None
        | Some block \<Rightarrow>
            if block = NULL then Some (NULL, h)
            else
              let h1 = split_block block sz h;
                  h2 = upd_blk block (\<lambda>b. b\<lparr>hb_magic := HEAP_MAGIC_ALLOCATED\<rparr>) h1;
                  h3 = upd_blk block (\<lambda>b. b\<lparr>hb_is_free := 0\<rparr>) h2;
                  h4 = h3\<lparr>heap_used := heap_used h3 + (sz + sizeof_heap_block),
                          allocation_count := allocation_count h3 + 1\<rparr>
              in Some (block + sizeof_heap_block, h4))"

definition kcalloc_dma :: "u64 \<Rightarrow> u64 \<Rightarrow> heap_state \<Rightarrow> (addr \<times> heap_state) option" where
  "kcalloc_dma count sz h =
     (let total_size = count * sz in
      case kalloc_dma total_size h of
        None \<Rightarrow> None
      | Some (ptr, h1) \<Rightarrow>
          Some (ptr, if ptr \<noteq> NULL
                     then h1\<lparr>payload := mm_memset ptr 0 total_size (payload h1)\<rparr>
                     else h1))"

definition kfree_dma :: "addr \<Rightarrow> heap_state \<Rightarrow> heap_state" where
  "kfree_dma ptr h =
     (if ptr = NULL then h
      else if heap_start h = NULL \<or> heap_end h = NULL then h
      else if ptr < heap_start h + sizeof_heap_block \<or> ptr \<ge> heap_end h then h
      else
        let block = ptr - sizeof_heap_block in
        if hb_magic (blk h block) \<noteq> HEAP_MAGIC_ALLOCATED \<or> hb_is_free (blk h block) \<noteq> 0 then h
        else
          let h1 = upd_blk block (\<lambda>b. b\<lparr>hb_magic := HEAP_MAGIC_FREE\<rparr>) h;
              h2 = upd_blk block (\<lambda>b. b\<lparr>hb_is_free := 1\<rparr>) h1;
              h3 = h2\<lparr>heap_used := heap_used h2 - (bsize h2 block + sizeof_heap_block),
                      deallocation_count := deallocation_count h2 + 1\<rparr>
          in coalesce_blocks block h3)"

section \<open>The integrity checks\<close>

text \<open>\<open>heap_validate\<close>: at most 1000 blocks are looked at. 0 is OK, -1 is corrupt.\<close>

fun heap_validate_from :: "nat \<Rightarrow> addr \<Rightarrow> heap_state \<Rightarrow> int" where
  "heap_validate_from 0 cur h = 0"
| "heap_validate_from (Suc n) cur h =
     (if cur = NULL then 0
      else if hb_magic (blk h cur) \<noteq> HEAP_MAGIC_ALLOCATED
              \<and> hb_magic (blk h cur) \<noteq> HEAP_MAGIC_FREE then - 1
      else if hb_size (blk h cur) = 0 \<or> bsize h cur > heap_size h then - 1
      else if hb_next (blk h cur) \<noteq> NULL
              \<and> (hb_next (blk h cur) < heap_start h \<or> hb_next (blk h cur) \<ge> heap_end h) then - 1
      else heap_validate_from n (hb_next (blk h cur)) h)"

definition heap_validate :: "heap_state \<Rightarrow> int" where
  "heap_validate h = heap_validate_from 1000 (heap_free_list h) h"

text \<open>
  \<open>mm_validate_heap\<close> fails once \<open>block_count\<close> passes 1000; \<open>n\<close> is the number of
  blocks still allowed.
\<close>

fun mm_validate_from :: "nat \<Rightarrow> addr \<Rightarrow> heap_state \<Rightarrow> bool" where
  "mm_validate_from n current h =
     (if \<not> (current \<noteq> NULL \<and> current < heap_end h) then True
      else if hb_magic (blk h current) \<noteq> HEAP_MAGIC_ALLOCATED
              \<and> hb_magic (blk h current) \<noteq> HEAP_MAGIC_FREE then False
      else if current + sizeof_heap_block + bsize h current > heap_end h then False
      else case n of
             0 \<Rightarrow> False
           | Suc k \<Rightarrow> mm_validate_from k (hb_next (blk h current)) h)"

declare mm_validate_from.simps [simp del]

definition mm_validate_heap :: "heap_state \<Rightarrow> bool" where
  "mm_validate_heap h = mm_validate_from 1000 (heap_start h) h"

section \<open>The layout of the heap\<close>

text \<open>The blocks of a list lie end to end from address \<open>p\<close> to address \<open>e\<close>.\<close>

fun tiled :: "(addr \<Rightarrow> heap_block) \<Rightarrow> nat \<Rightarrow> addr list \<Rightarrow> nat \<Rightarrow> bool" where
  "tiled f p [] e \<longleftrightarrow> p = e"
| "tiled f p (b # bs) e \<longleftrightarrow> unat b = p \<and> tiled f (p + 32 + unat (hb_size (f b))) bs e"

text \<open>Their \<open>prev\<close> and \<open>next\<close> pointers follow the list, entered from \<open>p\<close>, left to \<open>n\<close>.\<close>

fun links :: "(addr \<Rightarrow> heap_block) \<Rightarrow> addr \<Rightarrow> addr list \<Rightarrow> addr \<Rightarrow> bool" where
  "links f p [] n \<longleftrightarrow> True"
| "links f p (b # bs) n \<longleftrightarrow>
     hb_prev (f b) = p \<and> hb_next (f b) = hd (bs @ [n]) \<and> links f b bs n"

definition header_ok :: "heap_block \<Rightarrow> bool" where
  "header_ok b \<longleftrightarrow> 0 < hb_size b \<and>
     (hb_magic b = HEAP_MAGIC_ALLOCATED \<and> hb_is_free b = 0 \<or>
      hb_magic b = HEAP_MAGIC_FREE \<and> hb_is_free b = 1)"

fun no_adjacent_free :: "(addr \<Rightarrow> heap_block) \<Rightarrow> addr list \<Rightarrow> bool" where
  "no_adjacent_free f (b # c # bs) \<longleftrightarrow>
     (hb_is_free (f b) = 0 \<or> hb_is_free (f c) = 0) \<and> no_adjacent_free f (c # bs)"
| "no_adjacent_free f _ \<longleftrightarrow> True"

definition heap_shape :: "heap_state \<Rightarrow> addr list \<Rightarrow> bool" where
  "heap_shape h bs \<longleftrightarrow>
     tiled (blk h) (unat (heap_start h)) bs (unat (heap_end h)) \<and>
     links (blk h) NULL bs NULL \<and>
     (\<forall>b \<in> set bs. header_ok (blk h b)) \<and>
     heap_start h \<noteq> NULL \<and> heap_free_list h = heap_start h \<and>
     heap_start h < heap_end h \<and> heap_end h - heap_start h < 0x100000000 \<and>
     heap_size h = heap_end h - heap_start h"

text \<open>Between operations, free neighbours have been merged as well.\<close>

definition heap_layout :: "heap_state \<Rightarrow> addr list \<Rightarrow> bool" where
  "heap_layout h bs \<longleftrightarrow> heap_shape h bs \<and> no_adjacent_free (blk h) bs"

text \<open>The user areas handed out: start and length of every block in use.\<close>

definition heap_live :: "heap_state \<Rightarrow> addr list \<Rightarrow> (addr \<times> nat) set" where
  "heap_live h bs =
     (\<lambda>b. (b + 32, unat (hb_size (blk h b)))) ` {b \<in> set bs. hb_is_free (blk h b) = 0}"

lemma tiled_append:
  "tiled f p (xs @ ys) e \<longleftrightarrow> (\<exists>m. tiled f p xs m \<and> tiled f m ys e)"
  by (induction xs arbitrary: p) auto

lemma tiled_cong:
  "(\<And>b. b \<in> set bs \<Longrightarrow> hb_size (f b) = hb_size (g b)) \<Longrightarrow> tiled f p bs e \<longleftrightarrow> tiled g p bs e"
  by (induction bs arbitrary: p) auto

lemma tiled_le: "tiled f p bs e \<Longrightarrow> p \<le> e"
  by (induction bs arbitrary: p) fastforce+

lemma tiled_bounds:
  "tiled f p bs e \<Longrightarrow> b \<in> set bs \<Longrightarrow> p \<le> unat b \<and> unat b + 32 + unat (hb_size (f b)) \<le> e"
proof (induction bs arbitrary: p)
  case (Cons c bs)
  then show ?case using tiled_le [of f _ bs e] by (fastforce dest: Cons.IH)
qed simp

lemma tiled_distinct: "tiled f p bs e \<Longrightarrow> distinct bs"
  by (induction bs arbitrary: p) (fastforce dest: tiled_bounds)+

lemma tiled_separate:
  assumes "tiled f p bs e" and "b \<in> set bs" and "c \<in> set bs" and "b \<noteq> c"
  shows "unat b + 32 + unat (hb_size (f b)) \<le> unat c \<or> unat c + 32 + unat (hb_size (f c)) \<le> unat b"
  using assms
proof (induction bs arbitrary: p)
  case (Cons d bs)
  then show ?case by (auto dest: tiled_bounds)
qed simp

lemma links_append:
  "links f p (xs @ ys) n \<longleftrightarrow> links f p xs (hd (ys @ [n])) \<and> links f (last (p # xs)) ys n"
proof (induction xs arbitrary: p)
  case (Cons x xs)
  then show ?case by (cases xs) auto
qed simp

lemma links_cong:
  "(\<And>b. b \<in> set bs \<Longrightarrow> hb_next (f b) = hb_next (g b) \<and> hb_prev (f b) = hb_prev (g b))
   \<Longrightarrow> links f p bs n \<longleftrightarrow> links g p bs n"
  by (induction bs arbitrary: p) auto

lemma no_adjacent_free_append:
  "no_adjacent_free f (xs @ ys) \<longleftrightarrow> no_adjacent_free f xs \<and> no_adjacent_free f ys \<and>
     (xs = [] \<or> ys = [] \<or> hb_is_free (f (last xs)) = 0 \<or> hb_is_free (f (hd ys)) = 0)"
proof (induction xs)
  case (Cons x xs)
  then show ?case by (cases xs; cases ys) auto
qed simp

lemma no_adjacent_free_cong:
  "(\<And>b. b \<in> set bs \<Longrightarrow> hb_is_free (f b) = hb_is_free (g b))
   \<Longrightarrow> no_adjacent_free f bs \<longleftrightarrow> no_adjacent_free g bs"
  by (induction f bs rule: no_adjacent_free.induct) auto

lemma upd_blk_sel [simp]:
  "blk (upd_blk a g h) = (blk h)(a := g (blk h a))"
  "heap_start (upd_blk a g h) = heap_start h" "heap_end (upd_blk a g h) = heap_end h"
  "heap_free_list (upd_blk a g h) = heap_free_list h" "heap_size (upd_blk a g h) = heap_size h"
  "heap_used (upd_blk a g h) = heap_used h" "payload (upd_blk a g h) = payload h"
  by (simp_all add: upd_blk_def)

section \<open>Facts on a laid-out heap\<close>

lemma unat_bsize: "unat (bsize h b) = unat (hb_size (blk h b))"
  by (simp add: bsize_def unat_ucast_up)

lemma shape_block:
  assumes "heap_shape h bs" and "b \<in> set bs"
  shows "unat (heap_start h) \<le> unat b" and "unat b + 32 + unat (hb_size (blk h b)) \<le> unat (heap_end h)"
    and "b \<noteq> NULL" and "header_ok (blk h b)" and "is_valid_heap_block h b"
    and "unat (b + 32) = unat b + 32"
proof -
  have t: "tiled (blk h) (unat (heap_start h)) bs (unat (heap_end h))"
    and nz: "heap_start h \<noteq> NULL" using assms(1) by (simp_all add: heap_shape_def)
  from tiled_bounds [OF t assms(2)]
  show lo: "unat (heap_start h) \<le> unat b"
    and hi: "unat b + 32 + unat (hb_size (blk h b)) \<le> unat (heap_end h)" by simp_all
  from lo nz show "b \<noteq> NULL" by (metis le_zero_eq unat_0 unat_eq_zero)
  from assms show ok: "header_ok (blk h b)" by (simp add: heap_shape_def)
  from lo hi ok show "is_valid_heap_block h b"
    by (auto simp: is_valid_heap_block_def header_ok_def word_less_nat_alt word_le_nat_alt)
  have "unat b + 32 < 2 ^ 64" using hi unat_lt_2p [of "heap_end h"] by simp
  then show "unat (b + 32) = unat b + 32" by (subst unat_plus_no_wrap) simp_all
qed

lemma shape_links:
  assumes "heap_shape h (xs @ b # ys)"
  shows "hb_next (blk h b) = hd (ys @ [NULL])" and "hb_prev (blk h b) = last (NULL # xs)"
  using assms by (auto simp: heap_shape_def links_append)

lemma shape_distinct: "heap_shape h bs \<Longrightarrow> distinct bs"
  by (auto simp: heap_shape_def dest: tiled_distinct)

text \<open>The sizes add up to less than \<open>2^32\<close>, so size arithmetic does not wrap.\<close>

lemma shape_size_bound:
  assumes "heap_shape h bs"
  shows "unat (heap_end h) < unat (heap_start h) + 2 ^ 32"
proof -
  have "heap_start h < heap_end h" and "heap_end h - heap_start h < 0x100000000"
    using assms by (simp_all add: heap_shape_def)
  then show ?thesis
    by (simp add: word_less_nat_alt) (metis less_diff_conv2 add.commute less_imp_le unat_minus_no_wrap)
qed

text \<open>
  Replacing a stretch of the list: the blocks before it are untouched, of the
  blocks behind it only the first one's \<open>prev\<close> pointer changes.
\<close>

lemma shape_replace:
  assumes shape: "heap_shape h (xs @ mid @ ys)" and ne: "mid \<noteq> []" "mid' \<noteq> []"
    and hd: "hd mid' = hd mid"
    and before: "\<And>a. a \<in> set xs \<Longrightarrow> f a = blk h a"
    and after: "\<And>a. a \<in> set ys \<Longrightarrow>
      f a = (blk h a)\<lparr>hb_prev := (if a = hd ys then last mid' else hb_prev (blk h a))\<rparr>"
    and tiles: "\<And>p e. tiled (blk h) p mid e \<Longrightarrow> tiled f p mid' e"
    and lnk: "links f (last (NULL # xs)) mid' (List.hd (ys @ [NULL]))"
    and ok: "\<And>a. a \<in> set mid' \<Longrightarrow> header_ok (f a)"
    and st: "blk h' = f" "heap_start h' = heap_start h" "heap_end h' = heap_end h"
      "heap_free_list h' = heap_free_list h" "heap_size h' = heap_size h"
  shows "heap_shape h' (xs @ mid' @ ys)"
proof -
  note facts = shape [unfolded heap_shape_def]
  have "tiled (blk h) (unat (heap_start h)) (xs @ mid @ ys) (unat (heap_end h))"
    using facts by simp
  moreover have "tiled (blk h) p xs e \<longleftrightarrow> tiled f p xs e" for p e
    by (rule tiled_cong) (simp add: before)
  moreover have "tiled (blk h) p ys e \<longleftrightarrow> tiled f p ys e" for p e
    by (rule tiled_cong) (simp add: after)
  ultimately have t: "tiled f (unat (heap_start h)) (xs @ mid' @ ys) (unat (heap_end h))"
    using tiles unfolding tiled_append by blast
  have l: "links (blk h) NULL (xs @ mid @ ys) NULL" using facts by simp
  have "links f NULL xs (List.hd (mid' @ ys @ [NULL]))"
    using l ne hd links_cong [of xs f "blk h"] before by (simp add: links_append)
  moreover have "links f (last mid') ys NULL"
  proof (cases ys)
    case (Cons c cs)
    have "distinct ys" using shape_distinct [OF shape] by simp
    then have "links f c cs NULL \<longleftrightarrow> links (blk h) c cs NULL"
      using Cons after by (intro links_cong) auto
    then show ?thesis using l ne Cons after by (simp add: links_append)
  qed simp
  ultimately have "links f NULL (xs @ mid' @ ys) NULL"
    using lnk ne by (simp add: links_append)
  moreover have "\<forall>b \<in> set (xs @ mid' @ ys). header_ok (f b)"
    using facts before after ok by (auto simp: header_ok_def)
  ultimately show ?thesis using t facts st by (simp add: heap_shape_def)
qed

section \<open>Allocation\<close>

lemma find_free_block_from_eq:
  assumes "links (blk h) p bs NULL" and "NULL \<notin> set bs"
  shows "find_free_block_from h sz (hd (bs @ [NULL])) =
    Some (case List.find (\<lambda>b. hb_is_free (blk h b) \<noteq> 0 \<and> sz \<le> bsize h b) bs of
            None \<Rightarrow> NULL | Some b \<Rightarrow> b)"
  using assms
proof (induction bs arbitrary: p)
  case Nil
  then show ?case by (simp add: find_free_block_from.simps)
next
  case (Cons b bs)
  then show ?case
    by (subst find_free_block_from.simps) auto
qed

lemma find_free_block_eq:
  assumes "heap_shape h bs"
  shows "find_free_block sz h =
    Some (case List.find (\<lambda>b. hb_is_free (blk h b) \<noteq> 0 \<and> sz \<le> bsize h b) bs of
            None \<Rightarrow> NULL | Some b \<Rightarrow> b)"
proof -
  have "NULL \<notin> set bs" using shape_block(3) [OF assms] by blast
  moreover have "hd (bs @ [NULL]) = heap_start h"
    using assms by (cases bs) (auto simp: heap_shape_def word_less_nat_alt word_unat_eq_iff)
  moreover have "links (blk h) NULL bs NULL" "heap_free_list h = heap_start h"
    using assms by (simp_all add: heap_shape_def)
  ultimately show ?thesis
    using find_free_block_from_eq [of h NULL bs] by (simp add: find_free_block_def)
qed

lemma heap_live_append [simp]: "heap_live h (xs @ ys) = heap_live h xs \<union> heap_live h ys"
  by (auto simp: heap_live_def)

lemma heap_live_Cons [simp]:
  "heap_live h (b # ys) =
     (if hb_is_free (blk h b) = 0 then {(b + 32, unat (hb_size (blk h b)))} else {}) \<union> heap_live h ys"
  by (auto simp: heap_live_def)

lemma heap_live_Nil [simp]: "heap_live h [] = {}"
  by (simp add: heap_live_def)

lemma heap_live_cong:
  assumes "\<And>a. a \<in> set bs \<Longrightarrow> hb_size (blk h a) = hb_size (blk h' a) \<and>
    hb_is_free (blk h a) = hb_is_free (blk h' a)"
  shows "heap_live h bs = heap_live h' bs"
  using assms by (auto simp: heap_live_def intro!: image_cong)

text \<open>The header updates of a successful allocation.\<close>

lemma split_block_whole:
  assumes "unat (bsize h b) < unat sz + 64" and "unat sz < 2 ^ 32"
  shows "split_block b sz h = h"
proof -
  have "unat (sz + 32 + 32) = unat sz + 64"
    using assms(2) by (simp add: unat_plus_no_wrap)
  then show ?thesis
    using assms(1) by (simp add: split_block_def sizeof_heap_block_def word_less_nat_alt)
qed

text \<open>Changing the state of one block keeps the shape.\<close>

lemma shape_mark:
  assumes sh: "heap_shape h (xs @ b # ys)"
    and st: "blk h' = (blk h)(b := (blk h b)\<lparr>hb_magic := m, hb_is_free := q\<rparr>)"
      "heap_start h' = heap_start h" "heap_end h' = heap_end h"
      "heap_free_list h' = heap_free_list h" "heap_size h' = heap_size h"
    and mq: "m = HEAP_MAGIC_ALLOCATED \<and> q = 0 \<or> m = HEAP_MAGIC_FREE \<and> q = 1"
  shows "heap_shape h' (xs @ b # ys)"
    and "\<And>a. a \<in> set xs \<or> a \<in> set ys \<Longrightarrow> blk h' a = blk h a"
proof -
  have d: "distinct (xs @ b # ys)" by (rule shape_distinct [OF sh])
  show f_other: "blk h' a = blk h a" if "a \<in> set xs \<or> a \<in> set ys" for a
    using that st(1) d by auto
  have f_b: "blk h' b = (blk h b)\<lparr>hb_magic := m, hb_is_free := q\<rparr>" using st(1) by simp
  have lnb: "links (blk h) (last (NULL # xs)) [b] (hd (ys @ [NULL]))" "links (blk h) b ys NULL"
    using sh by (simp_all add: links_append heap_shape_def)
  have "heap_shape h' (xs @ [b] @ ys)"
  proof (rule shape_replace [where mid = "[b]" and f = "blk h'"])
    show "heap_shape h (xs @ [b] @ ys)" using sh by simp
    show "blk h' a = (blk h a)\<lparr>hb_prev := if a = hd ys then last [b] else hb_prev (blk h a)\<rparr>"
      if "a \<in> set ys" for a
    proof -
      have "hb_prev (blk h (hd ys)) = b" using that lnb(2) by (cases ys) auto
      then show ?thesis using that by (simp add: f_other)
    qed
    show "tiled (blk h') p [b] e" if "tiled (blk h) p [b] e" for p e using that f_b by simp
    show "links (blk h') (last (NULL # xs)) [b] (hd (ys @ [NULL]))" using lnb(1) f_b by simp
    show "header_ok (blk h' a)" if "a \<in> set [b]" for a
      using that f_b shape_block(4) [OF sh, of b] mq by (auto simp: header_ok_def)
  qed (simp_all add: st(2-) f_other)
  then show "heap_shape h' (xs @ b # ys)" by simp
qed

lemma layout_take_whole:
  assumes "heap_layout h (xs @ b # ys)" and "hb_is_free (blk h b) \<noteq> 0"
    and st: "blk h' = (blk h)(b := (blk h b)\<lparr>hb_magic := HEAP_MAGIC_ALLOCATED, hb_is_free := 0\<rparr>)"
      "heap_start h' = heap_start h" "heap_end h' = heap_end h"
      "heap_free_list h' = heap_free_list h" "heap_size h' = heap_size h"
  shows "heap_layout h' (xs @ b # ys)"
    and "heap_live h' (xs @ b # ys) =
      insert (b + 32, unat (hb_size (blk h b))) (heap_live h (xs @ b # ys))"
proof -
  have sh: "heap_shape h (xs @ b # ys)" and adj: "no_adjacent_free (blk h) (xs @ b # ys)"
    using assms(1) by (simp_all add: heap_layout_def)
  have shape: "heap_shape h' (xs @ b # ys)"
    and f_other: "a \<in> set xs \<or> a \<in> set ys \<Longrightarrow> blk h' a = blk h a" for a
    using shape_mark [OF sh st] by simp_all
  have f_b: "hb_is_free (blk h' b) = 0" "hb_size (blk h' b) = hb_size (blk h b)"
    using st(1) by simp_all
  have "no_adjacent_free (blk h') xs \<longleftrightarrow> no_adjacent_free (blk h) xs"
    "no_adjacent_free (blk h') ys \<longleftrightarrow> no_adjacent_free (blk h) ys"
    by (intro no_adjacent_free_cong; simp add: f_other)+
  moreover have "no_adjacent_free (blk h) xs" "no_adjacent_free (blk h) ys"
    using adj by (cases ys; simp add: no_adjacent_free_append)+
  ultimately have "no_adjacent_free (blk h') (xs @ b # ys)"
    using f_b by (cases ys) (simp_all add: no_adjacent_free_append)
  with shape show "heap_layout h' (xs @ b # ys)" by (simp add: heap_layout_def)
  have "heap_live h' xs = heap_live h xs" "heap_live h' ys = heap_live h ys"
    by (intro heap_live_cong; simp add: f_other)+
  then show "heap_live h' (xs @ b # ys) =
      insert (b + 32, unat (hb_size (blk h b))) (heap_live h (xs @ b # ys))"
    using assms(2) f_b by simp
qed

lemma layout_take_split:
  assumes lay: "heap_layout h (xs @ b # ys)" and fr: "hb_is_free (blk h b) \<noteq> 0"
    and sz: "0 < unat sz" "unat sz + 64 \<le> unat (hb_size (blk h b))"
    and nb: "unat nb = unat b + 32 + unat sz"
    and fb: "blk h' b = (blk h b)\<lparr>hb_magic := HEAP_MAGIC_ALLOCATED, hb_is_free := 0,
      hb_next := nb, hb_size := ucast sz\<rparr>"
    and fnb: "blk h' nb = \<lparr>hb_magic = HEAP_MAGIC_FREE,
      hb_size = ucast (bsize h b - sz - 32), hb_is_free = 1, hb_next = hd (ys @ [NULL]),
      hb_prev = b\<rparr>"
    and fx: "\<And>a. a \<in> set xs \<Longrightarrow> blk h' a = blk h a"
    and fy: "\<And>a. a \<in> set ys \<Longrightarrow>
      blk h' a = (blk h a)\<lparr>hb_prev := (if a = hd ys then nb else hb_prev (blk h a))\<rparr>"
    and st: "heap_start h' = heap_start h" "heap_end h' = heap_end h"
      "heap_free_list h' = heap_free_list h" "heap_size h' = heap_size h"
  shows "heap_layout h' (xs @ b # nb # ys)"
    and "heap_live h' (xs @ b # nb # ys) = insert (b + 32, unat sz) (heap_live h (xs @ b # ys))"
proof -
  have sh: "heap_shape h (xs @ [b] @ ys)" and adj: "no_adjacent_free (blk h) (xs @ b # ys)"
    using lay by (simp_all add: heap_layout_def)
  have "unat (bsize h b - sz - 32) = unat (hb_size (blk h b)) - unat sz - 32"
    using sz by (simp add: unat_minus_no_wrap unat_bsize)
  moreover have lt: "unat (hb_size (blk h b)) < 2 ^ 32" using unat_lt_2p [of "hb_size (blk h b)"] by simp
  ultimately have rest: "unat (hb_size (blk h' nb)) = unat (hb_size (blk h b)) - unat sz - 32"
    using fnb by (simp add: unat_ucast_small)
  have szb: "unat (hb_size (blk h' b)) = unat sz"
    using fb sz lt by (simp add: unat_ucast_small)
  have lnb: "links (blk h) (last (NULL # xs)) [b] (hd (ys @ [NULL]))"
    using sh by (simp add: heap_shape_def links_append)
  have "heap_shape h' (xs @ [b, nb] @ ys)"
  proof (rule shape_replace [OF sh, where f = "blk h'"])
    show "tiled (blk h') p [b, nb] e" if "tiled (blk h) p [b] e" for p e
      using that sz rest szb nb by simp
    show "links (blk h') (last (NULL # xs)) [b, nb] (hd (ys @ [NULL]))"
      using lnb fb fnb by simp
    show "header_ok (blk h' a)" if "a \<in> set [b, nb]" for a
      using that fb fnb rest szb sz by (auto simp: header_ok_def word_less_nat_alt)
  qed (simp_all add: st fx fy)
  moreover have "no_adjacent_free (blk h') (xs @ b # nb # ys)"
  proof -
    have "no_adjacent_free (blk h') xs \<longleftrightarrow> no_adjacent_free (blk h) xs"
      "no_adjacent_free (blk h') ys \<longleftrightarrow> no_adjacent_free (blk h) ys"
      by (intro no_adjacent_free_cong; simp add: fx fy)+
    moreover have "no_adjacent_free (blk h) xs" "no_adjacent_free (blk h) ys"
      "ys = [] \<or> hb_is_free (blk h' (hd ys)) = 0"
      using adj fr fy by (cases ys; simp add: no_adjacent_free_append)+
    ultimately show ?thesis
      using fb by (cases ys) (auto simp: no_adjacent_free_append)
  qed
  ultimately show "heap_layout h' (xs @ b # nb # ys)" by (simp add: heap_layout_def)
  have "heap_live h' xs = heap_live h xs" "heap_live h' ys = heap_live h ys"
    by (intro heap_live_cong; simp add: fx fy)+
  moreover have "hb_is_free (blk h' b) = 0" "hb_is_free (blk h' nb) \<noteq> 0"
    using fb fnb by simp_all
  ultimately show "heap_live h' (xs @ b # nb # ys) =
      insert (b + 32, unat sz) (heap_live h (xs @ b # ys))"
    using fr szb by simp
qed

text \<open>The header of the remainder lies strictly inside the block that is split.\<close>

lemma inner_address_new:
  assumes "heap_shape h bs" and "b \<in> set bs"
    and "unat b < unat nb" "unat nb < unat b + 32 + unat (hb_size (blk h b))"
  shows "nb \<notin> set bs"
proof
  assume "nb \<in> set bs"
  moreover have "tiled (blk h) (unat (heap_start h)) bs (unat (heap_end h))"
    using assms(1) by (simp add: heap_shape_def)
  ultimately show False
    using tiled_separate [of "blk h" _ bs _ b nb] assms by fastforce
qed

lemma split_block_parts:
  assumes sh: "heap_shape h (xs @ b # ys)"
    and sz: "unat sz + 64 \<le> unat (hb_size (blk h b))"
  defines "nb \<equiv> b + sizeof_heap_block + sz" and "h1 \<equiv> split_block b sz h"
  shows "unat nb = unat b + 32 + unat sz"
    and "blk h1 b = (blk h b)\<lparr>hb_next := nb, hb_size := ucast sz\<rparr>"
    and "blk h1 nb = \<lparr>hb_magic = HEAP_MAGIC_FREE, hb_size = ucast (bsize h b - sz - 32),
      hb_is_free = 1, hb_next = hd (ys @ [NULL]), hb_prev = b\<rparr>"
    and "\<And>a. a \<in> set xs \<Longrightarrow> blk h1 a = blk h a"
    and "\<And>a. a \<in> set ys \<Longrightarrow>
      blk h1 a = (blk h a)\<lparr>hb_prev := (if a = hd ys then nb else hb_prev (blk h a))\<rparr>"
    and "nb \<notin> set (xs @ b # ys)"
    and "heap_start h1 = heap_start h" "heap_end h1 = heap_end h"
      "heap_free_list h1 = heap_free_list h" "heap_size h1 = heap_size h"
      "heap_used h1 = heap_used h" "payload h1 = payload h"
proof -
  let ?bs = "xs @ b # ys"
  have b: "b \<in> set ?bs" by simp
  note bb = shape_block [OF sh b]
  have lt: "unat (hb_size (blk h b)) < 2 ^ 32" using unat_lt_2p [of "hb_size (blk h b)"] by simp
  have "unat b + 32 + unat sz < 2 ^ 64"
    using bb(2) sz unat_lt_2p [of "heap_end h"] by simp
  then show nb: "unat nb = unat b + 32 + unat sz"
    unfolding nb_def sizeof_heap_block_def
    using bb(6) by (subst unat_plus_no_wrap) simp_all
  show new: "nb \<notin> set ?bs"
    using inner_address_new [OF sh b] nb sz by simp
  have d: "distinct ?bs" by (rule shape_distinct [OF sh])
  have nz: "NULL \<notin> set ?bs" using shape_block(3) [OF sh] by blast
  have nx: "hb_next (blk h b) = hd (ys @ [NULL])" by (rule shape_links [OF sh])
  have "\<not> bsize h b < sz + sizeof_heap_block + 32"
  proof -
    have "unat (sz + 32 + 32) = unat sz + 64" using sz lt by (simp add: unat_plus_no_wrap)
    then show ?thesis using sz by (simp add: word_less_nat_alt unat_bsize sizeof_heap_block_def)
  qed
  then have eq: "blk h1 = (let f1 = (blk h)(nb := \<lparr>hb_magic = HEAP_MAGIC_FREE,
        hb_size = ucast (bsize h b - sz - 32), hb_is_free = 1, hb_next = hd (ys @ [NULL]),
        hb_prev = b\<rparr>);
      f2 = (if ys = [] then f1 else f1(hd ys := (f1 (hd ys))\<lparr>hb_prev := nb\<rparr>))
    in f2(b := (f2 b)\<lparr>hb_next := nb, hb_size := ucast sz\<rparr>))"
    and "heap_start h1 = heap_start h \<and> heap_end h1 = heap_end h \<and>
      heap_free_list h1 = heap_free_list h \<and> heap_size h1 = heap_size h \<and>
      heap_used h1 = heap_used h \<and> payload h1 = payload h"
    using new nz nx by (cases ys; simp add: h1_def split_block_def Let_def nb_def sizeof_heap_block_def)+
  then show "heap_start h1 = heap_start h" "heap_end h1 = heap_end h"
      "heap_free_list h1 = heap_free_list h" "heap_size h1 = heap_size h"
      "heap_used h1 = heap_used h" "payload h1 = payload h" by simp_all
  have ne: "nb \<noteq> b" "b \<notin> set ys" "nb \<notin> set ys" using new d by auto
  then have ne': "ys = [] \<or> hd ys \<noteq> nb \<and> hd ys \<noteq> b" by (cases ys) auto
  show "blk h1 b = (blk h b)\<lparr>hb_next := nb, hb_size := ucast sz\<rparr>"
    unfolding eq Let_def using ne(1) ne' by auto
  show "blk h1 nb = \<lparr>hb_magic = HEAP_MAGIC_FREE, hb_size = ucast (bsize h b - sz - 32),
      hb_is_free = 1, hb_next = hd (ys @ [NULL]), hb_prev = b\<rparr>"
    unfolding eq Let_def using ne(1) ne' by auto
  show "blk h1 a = blk h a" if "a \<in> set xs" for a
    using that new d by (cases ys) (auto simp: eq Let_def)
  show "blk h1 a = (blk h a)\<lparr>hb_prev := (if a = hd ys then nb else hb_prev (blk h a))\<rparr>"
    if "a \<in> set ys" for a
    using that new d by (cases ys) (auto simp: eq Let_def)
qed

text \<open>The size asked for, rounded up to a multiple of 8.\<close>

definition round8 :: "nat \<Rightarrow> nat" where
  "round8 n = (n + 7) div 8 * 8"

lemma round8_facts: "n \<le> round8 n" "round8 n < n + 8" "0 < n \<Longrightarrow> 0 < round8 n"
  by (simp_all add: round8_def)

lemma align8_eq:
  assumes "unat (n :: u64) + 7 < 2 ^ 64"
  shows "unat ((n + 7) AND NOT 7) = round8 (unat n)"
proof -
  have "(7 :: u64) = mask 3" by (simp add: mask_eq_exp_minus_1)
  then have "unat ((n + 7) AND NOT 7) = unat (n + 7) div 8 * 8"
    using unat_and_not_mask [of "n + 7" 3] by simp
  then show ?thesis using assms by (simp add: unat_plus_no_wrap round8_def)
qed

lemma find_split:
  "List.find P xs = Some x \<Longrightarrow> P x \<and> (\<exists>us vs. xs = us @ x # vs)"
  by (metis find_Some_iff id_take_nth_drop)

text \<open>The block that serves a request of \<open>n\<close> bytes: the first free one that is large enough.\<close>

definition first_fit :: "nat \<Rightarrow> heap_state \<Rightarrow> addr list \<Rightarrow> addr option" where
  "first_fit n h bs =
     List.find (\<lambda>b. hb_is_free (blk h b) \<noteq> 0 \<and> n \<le> unat (hb_size (blk h b))) bs"

lemma kalloc_dma_step:
  assumes lay: "heap_layout h bs" and nz: "sz \<noteq> 0" and nw: "unat sz + 7 < 2 ^ 64"
    and fit: "first_fit (round8 (unat sz)) h bs = Some b"
  obtains h' bs' k where "kalloc_dma sz h = Some (b + 32, h')" and "heap_layout h' bs'"
    and "heap_live h' bs' = insert (b + 32, k) (heap_live h bs)"
    and "round8 (unat sz) \<le> k" "k < round8 (unat sz) + 64"
    and "(\<exists>k. (b + 32, k) \<in> heap_live h bs) = False" and "payload h' = payload h"
    and "b \<noteq> NULL" "b + 32 \<noteq> NULL"
    and "k = unat (hb_size (blk h' b))"
    and "heap_used h' = heap_used h + (of_nat (round8 (unat sz)) + 32)"
    and "k = (if unat (hb_size (blk h b)) < round8 (unat sz) + 64
              then unat (hb_size (blk h b)) else round8 (unat sz))"
proof -
  define n where "n = (sz + 7) AND NOT 7"
  have n: "unat n = round8 (unat sz)" unfolding n_def by (rule align8_eq [OF nw])
  have npos: "0 < unat n" using nz round8_facts(3) [of "unat sz"] by (simp add: n unat_gt_0)
  have sh: "heap_shape h bs" using lay by (simp add: heap_layout_def)
  have "find_free_block n h = Some (case first_fit (unat n) h bs of None \<Rightarrow> NULL | Some b \<Rightarrow> b)"
    using find_free_block_eq [OF sh] by (simp add: first_fit_def word_le_nat_alt unat_bsize)
  then have ff: "find_free_block n h = Some b" using fit n by simp
  from find_split [OF fit [unfolded first_fit_def]] obtain xs ys where bs: "bs = xs @ b # ys"
    and fr: "hb_is_free (blk h b) \<noteq> 0" and fits: "unat n \<le> unat (hb_size (blk h b))"
    by (auto simp: n)
  have bmem: "b \<in> set bs" using bs by simp
  note bb = shape_block [OF sh bmem]
  have lt: "unat (hb_size (blk h b)) < 2 ^ 32" using unat_lt_2p [of "hb_size (blk h b)"] by simp
  define h1 where "h1 = split_block b n h"
  define h' where "h' = (upd_blk b (\<lambda>b. b\<lparr>hb_is_free := 0\<rparr>)
      (upd_blk b (\<lambda>b. b\<lparr>hb_magic := HEAP_MAGIC_ALLOCATED\<rparr>) h1))
    \<lparr>heap_used := heap_used h1 + (n + 32), allocation_count := allocation_count h1 + 1\<rparr>"
  have run: "kalloc_dma sz h = Some (b + 32, h')"
    unfolding kalloc_dma_def Let_def n_def [symmetric]
    using nz ff bb(3) by (simp add: h1_def h'_def sizeof_heap_block_def upd_blk_def)
  have h'_blk: "blk h' = (blk h1)(b := (blk h1 b)\<lparr>hb_magic := HEAP_MAGIC_ALLOCATED, hb_is_free := 0\<rparr>)"
    by (simp add: h'_def)
  have nn: "n = of_nat (round8 (unat sz))" using n by (metis of_nat_unat ucast_id)
  have b32: "b + 32 \<noteq> NULL" using bb(6) by (metis add_is_0 unat_0 zero_neq_numeral)
  have fresh: "(\<exists>k. (b + 32, k) \<in> heap_live h bs) = False"
    using fr by (auto simp: heap_live_def)
  have basics: "payload h' = payload h \<and> heap_used h' = heap_used h + (of_nat (round8 (unat sz)) + 32)"
    by (simp add: h'_def h1_def split_block_def Let_def nn)
  show thesis
  proof (cases "unat (hb_size (blk h b)) < unat n + 64")
    case True
    then have h1: "h1 = h"
      unfolding h1_def using fits lt by (intro split_block_whole) (simp_all add: unat_bsize)
    note step = layout_take_whole [OF lay [unfolded bs] fr h'_blk [unfolded h1]]
    have st: "heap_start h' = heap_start h" "heap_end h' = heap_end h"
      "heap_free_list h' = heap_free_list h" "heap_size h' = heap_size h"
      by (simp_all add: h'_def h1)
    show thesis
      by (rule that [OF run step(1) [OF st]])
        (use step(2) [OF st] bs fits True n fresh basics bb b32 h'_blk h1 in \<open>simp_all\<close>)
  next
    case False
    then have big: "unat n + 64 \<le> unat (hb_size (blk h b))" by simp
    define nb where "nb = b + sizeof_heap_block + n"
    note parts = split_block_parts [OF sh [unfolded bs] big, folded nb_def h1_def]
    have nbb: "nb \<noteq> b" using parts(6) by auto
    have fb: "blk h' b = (blk h b)\<lparr>hb_magic := HEAP_MAGIC_ALLOCATED, hb_is_free := 0,
        hb_next := nb, hb_size := ucast n\<rparr>" using h'_blk parts(2) by simp
    have fnb: "blk h' nb = \<lparr>hb_magic = HEAP_MAGIC_FREE, hb_size = ucast (bsize h b - n - 32),
        hb_is_free = 1, hb_next = hd (ys @ [NULL]), hb_prev = b\<rparr>"
      using h'_blk nbb parts(3) by simp
    have "b \<notin> set xs" "b \<notin> set ys" using shape_distinct [OF sh] bs by auto
    then have fx: "a \<in> set xs \<Longrightarrow> blk h' a = blk h a"
      and fy: "a \<in> set ys \<Longrightarrow>
        blk h' a = (blk h a)\<lparr>hb_prev := (if a = hd ys then nb else hb_prev (blk h a))\<rparr>" for a
      using h'_blk parts(4,5) by (metis fun_upd_other)+
    have st: "heap_start h' = heap_start h" "heap_end h' = heap_end h"
      "heap_free_list h' = heap_free_list h" "heap_size h' = heap_size h"
      by (simp_all add: h'_def parts(7-10))
    note step = layout_take_split [OF lay [unfolded bs] fr npos big parts(1) fb fnb fx fy st]
    show thesis
      by (rule that [OF run step(1)])
        (use step(2) bs big n fresh basics bb b32 fb lt in \<open>simp_all add: unat_ucast_small\<close>)
  qed
qed

section \<open>Freeing\<close>

text \<open>
  Merging with the next block and merging into the previous block make the same
  header updates: block \<open>b\<close> absorbs its successor \<open>c\<close>.
\<close>

definition merge_blocks :: "addr \<Rightarrow> addr \<Rightarrow> heap_state \<Rightarrow> heap_state" where
  "merge_blocks b c h =
     (let h1 = upd_blk b (\<lambda>x. x\<lparr>hb_size := hb_size x + (hb_size (blk h c) + 32)\<rparr>) h;
          nn = hb_next (blk h1 c);
          h2 = (if nn \<noteq> NULL then upd_blk nn (\<lambda>x. x\<lparr>hb_prev := b\<rparr>) h1 else h1)
      in upd_blk b (\<lambda>x. x\<lparr>hb_next := hb_next (blk h2 c)\<rparr>) h2)"

lemma is_valid_upd_size [simp]:
  "is_valid_heap_block (upd_blk b (\<lambda>x. x\<lparr>hb_size := g x\<rparr>) h) a = is_valid_heap_block h a"
  by (simp add: is_valid_heap_block_def)

lemma coalesce_next_merge:
  assumes sh: "heap_shape h (xs @ b # c # ys)" and "hb_is_free (blk h c) \<noteq> 0"
  shows "coalesce_next b h = Inr (merge_blocks b c h)"
proof -
  have nx: "hb_next (blk h b) = c" "hb_next (blk h c) = hd (ys @ [NULL])"
    using shape_links(1) [OF sh] shape_links(1) [of h "xs @ [b]" c ys] sh by simp_all
  have c: "c \<noteq> NULL" "is_valid_heap_block h c" "b \<noteq> c"
    using shape_block(3,5) [OF sh, of c] shape_distinct [OF sh] by auto
  have nn: "hd (ys @ [NULL]) = NULL \<or> is_valid_heap_block h (hd (ys @ [NULL]))"
    using shape_block(5) [OF sh, of "hd ys"] by (cases ys) auto
  have h32: "(ucast sizeof_heap_block :: u32) = 32" by (simp add: sizeof_heap_block_def)
  show ?thesis
    using nx c nn assms(2) unfolding coalesce_next_def merge_blocks_def Let_def h32 by auto
qed

lemma coalesce_prev_merge:
  assumes sh: "heap_shape h (xs @ b # c # ys)" and "hb_is_free (blk h b) \<noteq> 0"
  shows "coalesce_prev c h = merge_blocks b c h"
proof -
  have pv: "hb_prev (blk h c) = b" "hb_next (blk h c) = hd (ys @ [NULL])"
    using shape_links [of h "xs @ [b]" c ys] sh by simp_all
  have b: "b \<noteq> NULL" "is_valid_heap_block h b" "b \<noteq> c"
    using shape_block(3,5) [OF sh, of b] shape_distinct [OF sh] by auto
  have nn: "hd (ys @ [NULL]) = NULL \<or> is_valid_heap_block h (hd (ys @ [NULL]))"
    using shape_block(5) [OF sh, of "hd ys"] by (cases ys) auto
  have h32: "(ucast sizeof_heap_block :: u32) = 32" by (simp add: sizeof_heap_block_def)
  show ?thesis
    using pv b nn assms(2) unfolding coalesce_prev_def merge_blocks_def Let_def h32 by auto
qed

lemma coalesce_next_skip:
  assumes "heap_shape h (xs @ b # ys)" and "ys = [] \<or> hb_is_free (blk h (hd ys)) = 0"
  shows "coalesce_next b h = Inr h"
  using assms(2) shape_links(1) [OF assms(1)] by (cases ys) (auto simp: coalesce_next_def)

lemma coalesce_prev_skip:
  assumes "heap_shape h (xs @ b # ys)" and "xs = [] \<or> hb_is_free (blk h (last xs)) = 0"
  shows "coalesce_prev b h = h"
  using assms(2) shape_links(2) [OF assms(1)] by (auto simp: coalesce_prev_def split: if_splits)

lemma merge_shape:
  assumes sh: "heap_shape h (xs @ b # c # ys)" and fr: "hb_is_free (blk h b) \<noteq> 0"
  defines "h' \<equiv> merge_blocks b c h"
  shows "heap_shape h' (xs @ b # ys)"
    and "hb_is_free (blk h' b) = hb_is_free (blk h b)"
    and "\<And>a. a \<in> set xs \<union> set ys \<Longrightarrow>
      hb_size (blk h' a) = hb_size (blk h a) \<and> hb_is_free (blk h' a) = hb_is_free (blk h a)"
    and "payload h' = payload h" and "heap_used h' = heap_used h"
proof -
  let ?bs = "xs @ b # c # ys"
  have d: "distinct ?bs" by (rule shape_distinct [OF sh])
  have nz: "NULL \<notin> set ?bs" using shape_block(3) [OF sh] by blast
  have nx: "hb_next (blk h c) = hd (ys @ [NULL])"
    using shape_links(1) [of h "xs @ [b]" c ys] sh by simp
  have f: "blk h' = (let f1 = (blk h)(b := (blk h b)\<lparr>hb_size := hb_size (blk h b) + (hb_size (blk h c) + 32)\<rparr>);
        f2 = (if ys = [] then f1 else f1(hd ys := (f1 (hd ys))\<lparr>hb_prev := b\<rparr>))
      in f2(b := (f2 b)\<lparr>hb_next := hd (ys @ [NULL])\<rparr>))"
    using d nz nx unfolding h'_def merge_blocks_def Let_def by (cases ys) auto
  have st: "heap_start h' = heap_start h" "heap_end h' = heap_end h"
    "heap_free_list h' = heap_free_list h" "heap_size h' = heap_size h"
    by (simp_all add: h'_def merge_blocks_def Let_def)
  show "payload h' = payload h" "heap_used h' = heap_used h"
    by (simp_all add: h'_def merge_blocks_def Let_def)
  have ne: "ys = [] \<or> hd ys \<noteq> b" "b \<notin> set xs" "b \<notin> set ys" using d by (cases ys; auto)+
  have fb: "blk h' b = (blk h b)\<lparr>hb_size := hb_size (blk h b) + (hb_size (blk h c) + 32),
      hb_next := hd (ys @ [NULL])\<rparr>"
    unfolding f Let_def using ne(1) by auto
  then show "hb_is_free (blk h' b) = hb_is_free (blk h b)" by simp
  have fx: "blk h' a = blk h a" if "a \<in> set xs" for a
    unfolding f Let_def using that d by (cases ys) auto
  have fy: "blk h' a = (blk h a)\<lparr>hb_prev := (if a = hd ys then b else hb_prev (blk h a))\<rparr>"
    if "a \<in> set ys" for a
    unfolding f Let_def using that d by (cases ys) auto
  show "hb_size (blk h' a) = hb_size (blk h a) \<and> hb_is_free (blk h' a) = hb_is_free (blk h a)"
    if "a \<in> set xs \<union> set ys" for a
    using that fx fy by auto
  have t: "tiled (blk h) (unat (heap_start h)) ?bs (unat (heap_end h))"
    using sh by (simp add: heap_shape_def)
  have cb: "unat c = unat b + 32 + unat (hb_size (blk h b))"
    using t by (auto simp: tiled_append)
  have "unat c + 32 + unat (hb_size (blk h c)) \<le> unat (heap_end h)"
    "unat (heap_start h) \<le> unat b"
    using shape_block(1,2) [OF sh] by auto
  then have "unat (hb_size (blk h b)) + (unat (hb_size (blk h c)) + 32) < 2 ^ 32"
    using shape_size_bound [OF sh] cb by simp
  then have sz: "unat (hb_size (blk h' b)) = unat (hb_size (blk h b)) + (unat (hb_size (blk h c)) + 32)"
    using fb by (simp add: unat_plus_no_wrap)
  have ok: "header_ok (blk h b)" using shape_block(4) [OF sh] by simp
  have "heap_shape h' (xs @ [b] @ ys)"
  proof (rule shape_replace [where mid = "[b, c]" and f = "blk h'"])
    show "heap_shape h (xs @ [b, c] @ ys)" using sh by simp
    show "tiled (blk h') p [b] e" if "tiled (blk h) p [b, c] e" for p e
      using that sz cb by simp
    show "links (blk h') (last (NULL # xs)) [b] (hd (ys @ [NULL]))"
      using fb shape_links(2) [OF sh] by simp
    show "header_ok (blk h' a)" if "a \<in> set [b]" for a
      using that fb sz ok by (simp add: header_ok_def word_less_nat_alt)
  qed (simp_all add: fx fy st)
  then show "heap_shape h' (xs @ b # ys)" by simp
qed

text \<open>Every merge keeps the live areas around it.\<close>

lemma coalesce_next_phase:
  assumes sh: "heap_shape h (xs @ b # ys)" and fr: "hb_is_free (blk h b) \<noteq> 0"
    and adj: "no_adjacent_free (blk h) ys"
  obtains h' zs where "coalesce_next b h = Inr h'" and "heap_shape h' (xs @ b # zs)"
    and "hb_is_free (blk h' b) \<noteq> 0" and "zs = [] \<or> hb_is_free (blk h' (hd zs)) = 0"
    and "no_adjacent_free (blk h') zs" and "heap_live h' zs = heap_live h ys"
    and "\<And>a. a \<in> set xs \<Longrightarrow>
      hb_size (blk h' a) = hb_size (blk h a) \<and> hb_is_free (blk h' a) = hb_is_free (blk h a)"
    and "payload h' = payload h" and "heap_used h' = heap_used h"
proof (cases "ys = [] \<or> hb_is_free (blk h (hd ys)) = 0")
  case True
  then show thesis using that [OF coalesce_next_skip [OF sh True] sh fr] adj by simp
next
  case False
  then obtain c zs where ys: "ys = c # zs" and c: "hb_is_free (blk h c) \<noteq> 0"
    by (cases ys) auto
  note shc = sh [unfolded ys]
  note m = merge_shape [OF shc fr]
  have same: "a \<in> set zs \<Longrightarrow> hb_size (blk (merge_blocks b c h) a) = hb_size (blk h a) \<and>
      hb_is_free (blk (merge_blocks b c h) a) = hb_is_free (blk h a)" for a
    using m(3) by simp
  have "zs = [] \<or> hb_is_free (blk h (hd zs)) = 0" "no_adjacent_free (blk h) zs"
    using adj ys c by (cases zs; simp)+
  moreover have "no_adjacent_free (blk (merge_blocks b c h)) zs \<longleftrightarrow> no_adjacent_free (blk h) zs"
    by (rule no_adjacent_free_cong) (simp add: same)
  moreover have "heap_live (merge_blocks b c h) zs = heap_live h zs"
    by (rule heap_live_cong) (simp add: same)
  moreover have "heap_live h ys = heap_live h zs" using ys c by simp
  ultimately show thesis
    using that [OF coalesce_next_merge [OF shc c] m(1)] m(2-5) fr same
    by (cases zs) auto
qed

lemma coalesce_prev_phase:
  assumes sh: "heap_shape h (xs @ b # ys)" and fr: "hb_is_free (blk h b) \<noteq> 0"
    and adj: "no_adjacent_free (blk h) xs" "no_adjacent_free (blk h) ys"
      "ys = [] \<or> hb_is_free (blk h (hd ys)) = 0"
  obtains bs' where "heap_layout (coalesce_prev b h) bs'"
    and "heap_live (coalesce_prev b h) bs' = heap_live h xs \<union> heap_live h ys"
    and "payload (coalesce_prev b h) = payload h" and "heap_used (coalesce_prev b h) = heap_used h"
proof (cases "xs = [] \<or> hb_is_free (blk h (last xs)) = 0")
  case True
  have "heap_layout h (xs @ b # ys)"
    using sh adj True by (cases ys) (auto simp: heap_layout_def no_adjacent_free_append)
  moreover have "coalesce_prev b h = h" by (rule coalesce_prev_skip [OF sh True])
  ultimately show thesis using that fr by simp
next
  case False
  then obtain us a where xs: "xs = us @ [a]" and a: "hb_is_free (blk h a) \<noteq> 0"
    by (metis last_snoc rev_exhaust)
  have sha: "heap_shape h (us @ a # b # ys)" using sh xs by simp
  note m = merge_shape [OF sha a]
  define h' where "h' = merge_blocks a b h"
  have eq: "coalesce_prev b h = h'" unfolding h'_def by (rule coalesce_prev_merge [OF sha a])
  have same: "z \<in> set us \<union> set ys \<Longrightarrow>
      hb_size (blk h' z) = hb_size (blk h z) \<and> hb_is_free (blk h' z) = hb_is_free (blk h z)" for z
    unfolding h'_def by (rule m(3))
  have "no_adjacent_free (blk h') us \<longleftrightarrow> no_adjacent_free (blk h) us"
    "no_adjacent_free (blk h') ys \<longleftrightarrow> no_adjacent_free (blk h) ys"
    by (intro no_adjacent_free_cong; simp add: same)+
  moreover have "us = [] \<or> hb_is_free (blk h' (last us)) = 0"
    using adj(1) a same [of "last us"] by (cases "us = []") (auto simp: xs no_adjacent_free_append)
  moreover have "ys = [] \<or> hb_is_free (blk h' (hd ys)) = 0"
    using adj(3) same [of "hd ys"] by (cases ys) auto
  ultimately have "no_adjacent_free (blk h') (us @ a # ys)"
    using adj(1,2) by (cases ys) (auto simp: xs no_adjacent_free_append)
  then have lay: "heap_layout h' (us @ a # ys)"
    using m(1) by (simp add: heap_layout_def h'_def)
  have "heap_live h' us = heap_live h us" "heap_live h' ys = heap_live h ys"
    by (intro heap_live_cong; simp add: same)+
  then have "heap_live h' (us @ a # ys) = heap_live h xs \<union> heap_live h ys"
    using m(2) a by (simp add: xs h'_def)
  then show thesis
    using that [of "us @ a # ys"] lay m(4,5) unfolding eq h'_def by blast
qed

lemma kfree_dma_step:
  assumes lay: "heap_layout h bs" and mem: "(p, k) \<in> heap_live h bs"
  obtains bs' where "heap_layout (kfree_dma p h) bs'"
    and "heap_live (kfree_dma p h) bs' = heap_live h bs - {(p, k)}"
    and "payload (kfree_dma p h) = payload h"
    and "heap_used (kfree_dma p h) = heap_used h - (of_nat k + 32)"
proof -
  have sh: "heap_shape h bs" and adj: "no_adjacent_free (blk h) bs"
    using lay by (simp_all add: heap_layout_def)
  from mem obtain b where bmem: "b \<in> set bs" and used: "hb_is_free (blk h b) = 0"
    and p: "p = b + 32" and k: "k = unat (hb_size (blk h b))"
    by (auto simp: heap_live_def)
  from bmem obtain xs ys where bs: "bs = xs @ b # ys" by (metis split_list)
  note bb = shape_block [OF sh bmem]
  define h3 where "h3 = (upd_blk b (\<lambda>b. b\<lparr>hb_is_free := 1\<rparr>)
      (upd_blk b (\<lambda>b. b\<lparr>hb_magic := HEAP_MAGIC_FREE\<rparr>) h))
    \<lparr>heap_used := heap_used h - (of_nat k + 32), deallocation_count := deallocation_count h + 1\<rparr>"
  have h3: "blk h3 = (blk h)(b := (blk h b)\<lparr>hb_magic := HEAP_MAGIC_FREE, hb_is_free := 1\<rparr>)"
    "heap_start h3 = heap_start h" "heap_end h3 = heap_end h" "heap_free_list h3 = heap_free_list h"
    "heap_size h3 = heap_size h" "payload h3 = payload h"
    "heap_used h3 = heap_used h - (of_nat k + 32)"
    by (simp_all add: h3_def)
  have "unat (heap_start h + 32) = unat (heap_start h) + 32"
    using bb(1,2) unat_lt_2p [of "heap_end h"] by (subst unat_plus_no_wrap) simp_all
  then have guard: "\<not> (p < heap_start h + 32 \<or> p \<ge> heap_end h)" and ends: "heap_end h \<noteq> NULL"
    using bb(1,2,6) bb(4) by (auto simp: p word_less_nat_alt word_le_nat_alt header_ok_def)
  have hdr: "hb_magic (blk h b) = HEAP_MAGIC_ALLOCATED" using bb(4) used by (auto simp: header_ok_def)
  have "p \<noteq> NULL" using bb(6) p by (metis add_is_0 unat_0 zero_neq_numeral)
  moreover have "heap_start h \<noteq> NULL" using sh by (simp add: heap_shape_def)
  ultimately have run: "kfree_dma p h = coalesce_blocks b h3"
    using guard ends hdr used
    by (simp add: kfree_dma_def Let_def p sizeof_heap_block_def h3_def k bsize_def upd_blk_def)
  have sh3: "heap_shape h3 (xs @ b # ys)"
    and f_other: "a \<in> set xs \<or> a \<in> set ys \<Longrightarrow> blk h3 a = blk h a" for a
    using shape_mark [OF sh [unfolded bs] h3(1-5)] by simp_all
  have "no_adjacent_free (blk h3) xs \<longleftrightarrow> no_adjacent_free (blk h) xs"
    "no_adjacent_free (blk h3) ys \<longleftrightarrow> no_adjacent_free (blk h) ys"
    by (intro no_adjacent_free_cong; simp add: f_other)+
  then have adj3: "no_adjacent_free (blk h3) xs" "no_adjacent_free (blk h3) ys"
    using adj by (cases ys; simp add: bs no_adjacent_free_append)+
  have live3: "heap_live h3 xs = heap_live h xs" "heap_live h3 ys = heap_live h ys"
    by (intro heap_live_cong; simp add: f_other)+
  have fr3: "hb_is_free (blk h3 b) \<noteq> 0" using h3(1) by simp
  from coalesce_next_phase [OF sh3 fr3 adj3(2)] obtain h4 zs where n: "coalesce_next b h3 = Inr h4"
    and sh4: "heap_shape h4 (xs @ b # zs)" and fr4: "hb_is_free (blk h4 b) \<noteq> 0"
    and hd4: "zs = [] \<or> hb_is_free (blk h4 (hd zs)) = 0" and adj4: "no_adjacent_free (blk h4) zs"
    and live4: "heap_live h4 zs = heap_live h3 ys"
    and same4: "\<And>a. a \<in> set xs \<Longrightarrow> hb_size (blk h4 a) = hb_size (blk h3 a) \<and>
      hb_is_free (blk h4 a) = hb_is_free (blk h3 a)"
    and rest4: "payload h4 = payload h3" "heap_used h4 = heap_used h3" by metis
  have "no_adjacent_free (blk h4) xs" "heap_live h4 xs = heap_live h3 xs"
    using adj3(1) no_adjacent_free_cong [of xs "blk h4" "blk h3"] heap_live_cong [of xs h4 h3] same4
    by simp_all
  with coalesce_prev_phase [OF sh4 fr4 _ adj4 hd4] obtain bs'
    where fin: "heap_layout (coalesce_prev b h4) bs'"
      "heap_live (coalesce_prev b h4) bs' = heap_live h xs \<union> heap_live h ys"
      "payload (coalesce_prev b h4) = payload h" "heap_used (coalesce_prev b h4) = heap_used h - (of_nat k + 32)"
    using live3 live4 rest4 h3(6,7) by metis
  have "is_valid_heap_block h3 b" using shape_block(5) [OF sh3] by simp
  then have "kfree_dma p h = coalesce_prev b h4" using run n by (simp add: coalesce_blocks_def)
  moreover have "heap_live h xs \<union> heap_live h ys = heap_live h bs - {(p, k)}"
  proof -
    have "b \<notin> set xs" "b \<notin> set ys" using shape_distinct [OF sh] bs by auto
    then have "(p, k) \<notin> heap_live h xs \<union> heap_live h ys" by (auto simp: heap_live_def p)
    then show ?thesis using used by (auto simp: bs p k)
  qed
  ultimately show thesis using that fin by metis
qed

section \<open>The heap as an allocator\<close>

lemma tiled_unique: "tiled f p bs e \<Longrightarrow> tiled f p cs e \<Longrightarrow> bs = cs"
proof (induction bs arbitrary: p cs)
  case Nil
  then show ?case by (cases cs) (auto dest: tiled_le)
next
  case (Cons b bs)
  then obtain c cs' where cs: "cs = c # cs'" by (cases cs) (auto dest: tiled_le)
  have "unat b = unat c" using Cons.prems cs by simp
  then have "b = c" by (simp add: word_unat_eq_iff)
  then show ?case using Cons.IH [of "p + 32 + unat (hb_size (f b))" cs'] Cons.prems cs by simp
qed

lemma heap_layout_unique: "heap_layout h bs \<Longrightarrow> heap_layout h cs \<Longrightarrow> bs = cs"
  unfolding heap_layout_def heap_shape_def by (blast intro: tiled_unique)

definition heap_inv :: "heap_state \<Rightarrow> bool" where
  "heap_inv h \<longleftrightarrow> (\<exists>bs. heap_layout h bs)"

definition heap_areas :: "heap_state \<Rightarrow> (addr \<times> nat) set" where
  "heap_areas h = \<Union> {heap_live h bs | bs. heap_layout h bs}"

lemma heap_areas_eq: "heap_layout h bs \<Longrightarrow> heap_areas h = heap_live h bs"
  using heap_layout_unique by (auto simp: heap_areas_def)

definition dma_servable :: "u64 \<Rightarrow> bool" where
  "dma_servable n \<longleftrightarrow> n \<noteq> 0 \<and> unat n + 7 < 2 ^ 64"

lemma kalloc_dma_no_fit:
  assumes "heap_layout h bs" and "dma_servable n" and "first_fit (round8 (unat n)) h bs = None"
  shows "kalloc_dma n h = Some (NULL, h)"
proof -
  have sh: "heap_shape h bs" using assms(1) by (simp add: heap_layout_def)
  have "unat ((n + 7) AND NOT 7) = round8 (unat n)"
    using assms(2) by (intro align8_eq) (simp add: dma_servable_def)
  then have "find_free_block ((n + 7) AND NOT 7) h = Some NULL"
    using find_free_block_eq [OF sh, of "(n + 7) AND NOT 7"] assms(3)
    by (simp add: first_fit_def word_le_nat_alt unat_bsize)
  then show ?thesis
    unfolding kalloc_dma_def Let_def using assms(2) by (simp add: dma_servable_def)
qed

lemma heap_live_disjoint:
  assumes "heap_shape h bs" and "(p, k) \<in> heap_live h bs" and "(q, l) \<in> heap_live h bs"
    and "p \<noteq> q" and "in_block p k a"
  shows "\<not> in_block q l a"
proof -
  from assms(2,3) obtain b c where b: "b \<in> set bs" "p = b + 32" "k = unat (hb_size (blk h b))"
    and c: "c \<in> set bs" "q = c + 32" "l = unat (hb_size (blk h c))"
    by (auto simp: heap_live_def)
  have "b \<noteq> c" using assms(4) b c by auto
  moreover have "tiled (blk h) (unat (heap_start h)) bs (unat (heap_end h))"
    using assms(1) by (simp add: heap_shape_def)
  ultimately have sep: "unat b + 32 + k \<le> unat c \<or> unat c + 32 + l \<le> unat b"
    using tiled_separate [of _ _ bs _ b c] b c by simp
  have ub: "unat p = unat b + 32" "unat q = unat c + 32"
    "unat b + 32 + k < 2 ^ 64" "unat c + 32 + l < 2 ^ 64"
    using shape_block(2,6) [OF assms(1) b(1)] shape_block(2,6) [OF assms(1) c(1)] b c
      unat_lt_2p [of "heap_end h"]
    by simp_all
  show ?thesis
    using in_block_bounds [of p k a] in_block_bounds [of q l a] assms(5) ub sep by fastforce
qed

interpretation dma: allocator heap_inv heap_areas dma_servable kalloc_dma kfree_dma
proof (unfold_locales, goal_cases)
  case (1 s n)
  then obtain bs where lay: "heap_layout s bs" and n: "n \<noteq> 0" "unat n + 7 < 2 ^ 64"
    by (auto simp: heap_inv_def dma_servable_def)
  show ?case
  proof (cases "first_fit (round8 (unat n)) s bs")
    case None
    then show ?thesis using kalloc_dma_no_fit [OF lay 1(2)] 1(1) by blast
  next
    case (Some b)
    then show ?thesis using kalloc_dma_step [OF lay n Some] by (metis heap_inv_def)
  qed
next
  case (2 s n s')
  then obtain bs where lay: "heap_layout s bs" and n: "n \<noteq> 0" "unat n + 7 < 2 ^ 64"
    by (auto simp: heap_inv_def dma_servable_def)
  then have "first_fit (round8 (unat n)) s bs = None"
    using kalloc_dma_step [OF lay n] 2(3) by (metis option.collapse option.inject prod.inject)
  then show ?case using kalloc_dma_no_fit [OF lay 2(2)] 2(3) by simp
next
  case (3 s n p s')
  then obtain bs where lay: "heap_layout s bs" and n: "n \<noteq> 0" "unat n + 7 < 2 ^ 64"
    by (auto simp: heap_inv_def dma_servable_def)
  then obtain b where fit: "first_fit (round8 (unat n)) s bs = Some b"
    using kalloc_dma_no_fit [OF lay 3(2)] 3(3,4) by (cases "first_fit (round8 (unat n)) s bs") auto
  from kalloc_dma_step [OF lay n fit] obtain bs' k where
    "p = b + 32" "heap_layout s' bs'" "heap_live s' bs' = insert (p, k) (heap_live s bs)"
    "round8 (unat n) \<le> k" "\<forall>j. (p, j) \<notin> heap_live s bs"
    using 3(3) by (metis option.inject prod.inject)
  then show ?case
    using heap_areas_eq [OF lay] heap_areas_eq round8_facts(1) [of "unat n"] by (metis le_trans)
next
  case (4 s p k)
  then show ?case using kfree_dma_step by (metis heap_areas_eq heap_inv_def)
next
  case (5 s p k)
  then show ?case using kfree_dma_step by (metis heap_areas_eq heap_inv_def)
next
  case (6 s p k q l a)
  then show ?case
    using heap_live_disjoint by (metis heap_areas_eq heap_inv_def heap_layout_def)
qed

section \<open>Properties\<close>

text \<open>The heap as \<open>mm_initialize_heap\<close> leaves it: one free block.\<close>

definition boot_heap :: heap_state where
  "boot_heap = mm_initialize_heap 0xFFFFFFFF80400000
     \<lparr>heap_start = 0, heap_end = 0, heap_free_list = 0, heap_size = 0, heap_used = 0,
      allocation_count = 0, deallocation_count = 0,
      blk = \<lambda>_. \<lparr>hb_magic = 0, hb_size = 0, hb_is_free = 0, hb_next = 0, hb_prev = 0\<rparr>,
      payload = \<lambda>_. 0\<rparr>"

lemma initialize_layout:
  assumes "start \<noteq> NULL" and "unat start + 0x800000 < 2 ^ 64"
  shows "heap_layout (mm_initialize_heap start h) [start]"
    and "heap_live (mm_initialize_heap start h) [start] = {}"
proof -
  have "unat (start + 0x800000) = unat start + 0x800000"
    using assms(2) by (subst unat_plus_no_wrap) simp_all
  then show "heap_layout (mm_initialize_heap start h) [start]"
    using assms(1)
    by (simp add: mm_initialize_heap_def Let_def heap_layout_def heap_shape_def header_ok_def
        KERNEL_HEAP_SIZE_def sizeof_heap_block_def word_less_nat_alt)
  show "heap_live (mm_initialize_heap start h) [start] = {}"
    by (simp add: mm_initialize_heap_def Let_def)
qed

lemma boot_heap_layout: "heap_layout boot_heap [0xFFFFFFFF80400000]"
  unfolding boot_heap_def by (rule initialize_layout) simp_all

lemma boot_heap_size: "unat (hb_size (blk boot_heap 0xFFFFFFFF80400000)) = 8388576"
  "hb_is_free (blk boot_heap 0xFFFFFFFF80400000) = 1" "heap_used boot_heap = 0"
  by (simp_all add: boot_heap_def mm_initialize_heap_def Let_def KERNEL_HEAP_SIZE_def
      sizeof_heap_block_def)

lemma boot_heap_fit:
  "n \<le> 8388576 \<Longrightarrow> first_fit n boot_heap [0xFFFFFFFF80400000] = Some 0xFFFFFFFF80400000"
  by (simp add: first_fit_def boot_heap_size)

text \<open>Two allocations of 100 bytes on it.\<close>

definition heap1 :: heap_state where
  "heap1 = snd (the (kalloc_dma 100 boot_heap))"

definition heap2 :: heap_state where
  "heap2 = snd (the (kalloc_dma 100 heap1))"

lemmas heap_eval = kalloc_dma_def find_free_block_def find_free_block_from.simps split_block_def
  upd_blk_def bsize_def boot_heap_def mm_initialize_heap_def sizeof_heap_block_def
  KERNEL_HEAP_SIZE_def Let_def HEAP_MAGIC_ALLOCATED_def HEAP_MAGIC_FREE_def

lemma heap1_run: "kalloc_dma 100 boot_heap = Some (0xFFFFFFFF80400020, heap1)"
proof -
  have "map_option fst (kalloc_dma 100 boot_heap) = Some 0xFFFFFFFF80400020"
    by (simp add: heap_eval)
  then show ?thesis by (auto simp: heap1_def)
qed

lemma heap2_run: "kalloc_dma 100 heap1 = Some (0xFFFFFFFF804000A8, heap2)"
proof -
  have "map_option fst (kalloc_dma 100 heap1) = Some 0xFFFFFFFF804000A8"
    by (simp add: heap1_def heap_eval)
  then show ?thesis by (auto simp: heap2_def)
qed

text \<open>
  C24: \<open>kalloc_dma\<close> is a first-fit allocator. On a well-formed heap, for a request of
  at least 1 and at most \<open>2^64 - 8\<close> bytes: if no free block has the rounded size the
  call returns NULL and changes nothing; otherwise it returns the user area of the
  first free block that fits, the heap stays well formed (blocks tile the heap, both
  link directions agree, free neighbours are merged), the areas in use grow by
  exactly that area, the area is at least as long as requested and less than 64
  bytes longer than the rounded request, and no user byte changes.
\<close>

theorem kalloc_dma_correct:
  assumes "heap_layout h bs" and "sz \<noteq> 0" and "unat sz + 7 < 2 ^ 64"
  shows "case first_fit (round8 (unat sz)) h bs of
      None \<Rightarrow> kalloc_dma sz h = Some (NULL, h)
    | Some b \<Rightarrow> \<exists>h' bs' k. kalloc_dma sz h = Some (b + 32, h') \<and> heap_layout h' bs' \<and>
        heap_live h' bs' = insert (b + 32, k) (heap_live h bs) \<and>
        (\<forall>j. (b + 32, j) \<notin> heap_live h bs) \<and>
        unat sz \<le> k \<and> k < round8 (unat sz) + 64 \<and> payload h' = payload h"
proof (cases "first_fit (round8 (unat sz)) h bs")
  case None
  then show ?thesis
    using kalloc_dma_no_fit [OF assms(1) _ None] assms(2,3) by (simp add: dma_servable_def)
next
  case (Some b)
  from kalloc_dma_step [OF assms Some] obtain h' bs' k where
    "kalloc_dma sz h = Some (b + 32, h')" "heap_layout h' bs'"
    "heap_live h' bs' = insert (b + 32, k) (heap_live h bs)"
    "round8 (unat sz) \<le> k" "k < round8 (unat sz) + 64"
    "\<forall>j. (b + 32, j) \<notin> heap_live h bs" "payload h' = payload h"
    by metis
  then have "kalloc_dma sz h = Some (b + 32, h') \<and> heap_layout h' bs' \<and>
      heap_live h' bs' = insert (b + 32, k) (heap_live h bs) \<and>
      (\<forall>j. (b + 32, j) \<notin> heap_live h bs) \<and>
      unat sz \<le> k \<and> k < round8 (unat sz) + 64 \<and> payload h' = payload h"
    using round8_facts(1) [of "unat sz"] by simp
  then show ?thesis unfolding Some option.case by blast
qed

theorem kalloc_dma_correct_witness:
  "\<exists>bs' k. kalloc_dma 100 boot_heap = Some (0xFFFFFFFF80400020, heap1) \<and> heap_layout heap1 bs' \<and>
     heap_live heap1 bs' = {(0xFFFFFFFF80400020, k)} \<and> 100 \<le> k \<and> k < 168"
proof -
  have "heap_live boot_heap [0xFFFFFFFF80400000] = {}" using boot_heap_size by simp
  with kalloc_dma_correct [OF boot_heap_layout, of 100] boot_heap_fit [of 104] show ?thesis
    by (auto simp: round8_def heap1_run)
qed

text \<open>
  \<open>kfree_dma\<close> takes back exactly the area it is given. For an area in use, the heap
  stays well formed (in particular the freed block has been merged with every free
  neighbour), the areas in use lose that one area, no user byte changes, and the
  accounted memory drops by the length of the block and its header.
\<close>

theorem kfree_dma_correct:
  assumes "heap_layout h bs" and "(p, k) \<in> heap_live h bs"
  shows "\<exists>bs'. heap_layout (kfree_dma p h) bs' \<and>
    heap_live (kfree_dma p h) bs' = heap_live h bs - {(p, k)} \<and>
    payload (kfree_dma p h) = payload h \<and>
    heap_used (kfree_dma p h) = heap_used h - (of_nat k + 32)"
  using kfree_dma_step [OF assms] by metis

lemma heap1_areas: "\<exists>bs k. heap_layout heap1 bs \<and> heap_live heap1 bs = {(0xFFFFFFFF80400020, k)}"
proof -
  have i: "heap_inv boot_heap" and s: "dma_servable 100"
    using boot_heap_layout by (auto simp: dma_servable_def heap_inv_def)
  have "heap_areas boot_heap = {}"
    using heap_areas_eq [OF boot_heap_layout] boot_heap_size by simp
  then obtain k where "heap_areas heap1 = {(0xFFFFFFFF80400020, k)}"
    using dma.alloc_live [OF i s heap1_run] by auto
  then show ?thesis
    using dma.alloc_inv [OF i s heap1_run] heap_areas_eq by (fastforce simp: heap_inv_def)
qed

text \<open>
  C6: The DMA areas in use never overlap. Whatever sequence of servable requests and frees a client makes
  on a freshly initialised heap, any two areas it holds, each of the size it asked for, have no byte in
  common, and every further servable request returns.
\<close>

theorem dma_areas_never_overlap:
  assumes "start \<noteq> NULL" and "unat start + 0x800000 < 2 ^ 64"
    and "dma.holds (mm_initialize_heap start h0) H h"
  shows "(\<forall>(p, n) \<in> H. \<forall>(q, m) \<in> H. (p, n) \<noteq> (q, m) \<longrightarrow>
      \<not> (in_block p (unat n) a \<and> in_block q (unat m) a)) \<and>
    (dma_servable n \<longrightarrow> (\<exists>p h'. kalloc_dma n h = Some (p, h')))"
proof -
  have "heap_inv (mm_initialize_heap start h0)"
    using initialize_layout(1) [OF assms(1,2)] by (auto simp: heap_inv_def)
  then show ?thesis using dma.holds_disjoint [OF assms(3)] dma.holds_returns [OF assms(3)] by blast
qed

theorem dma_areas_never_overlap_witness:
  "dma.holds boot_heap {(0xFFFFFFFF80400020, 100), (0xFFFFFFFF804000A8, 100)} heap2 \<and>
   \<not> (in_block 0xFFFFFFFF80400020 100 0xFFFFFFFF804000A8 \<and> in_block 0xFFFFFFFF804000A8 100 0xFFFFFFFF804000A8)"
proof -
  have s: "dma_servable 100" by (simp add: dma_servable_def)
  have h: "dma.holds boot_heap {(0xFFFFFFFF80400020, 100), (0xFFFFFFFF804000A8, 100)} heap2"
    using dma.step_alloc [OF dma.step_alloc [OF dma.start s heap1_run] s heap2_run] by (simp add: insert_commute)
  note d = dma_areas_never_overlap [OF _ _ h [unfolded boot_heap_def], of "0xFFFFFFFF804000A8" 1]
  have "\<not> (in_block 0xFFFFFFFF80400020 (unat (100 :: u64)) 0xFFFFFFFF804000A8 \<and>
      in_block 0xFFFFFFFF804000A8 (unat (100 :: u64)) 0xFFFFFFFF804000A8)"
    using d by simp
  with h show ?thesis by simp
qed

text \<open>
  The accounting of DMA memory drifts. An allocation adds the rounded request to
  \<open>heap_used\<close>, but freeing it subtracts the size of the block, which is larger when
  the block was handed out whole; after the pair the counter has lost the
  difference (modulo \<open>2^64\<close>) although the heap is as before.
\<close>

theorem heap_used_drifts:
  assumes "heap_layout h bs" and "sz \<noteq> 0" and "unat sz + 7 < 2 ^ 64"
    and "first_fit (round8 (unat sz)) h bs = Some b"
  shows "\<exists>h'. kalloc_dma sz h = Some (b + 32, h') \<and>
    heap_used (kfree_dma (b + 32) h') = heap_used h -
      of_nat (if unat (hb_size (blk h b)) < round8 (unat sz) + 64
              then unat (hb_size (blk h b)) - round8 (unat sz) else 0)"
proof -
  from kalloc_dma_step [OF assms] obtain h' bs' k where run: "kalloc_dma sz h = Some (b + 32, h')"
    and lay: "heap_layout h' bs'" and live: "heap_live h' bs' = insert (b + 32, k) (heap_live h bs)"
    and le: "round8 (unat sz) \<le> k"
    and used: "heap_used h' = heap_used h + (of_nat (round8 (unat sz)) + 32)"
    and k: "k = (if unat (hb_size (blk h b)) < round8 (unat sz) + 64
              then unat (hb_size (blk h b)) else round8 (unat sz))"
    by metis
  have "(b + 32, k) \<in> heap_live h' bs'" using live by simp
  then have "heap_used (kfree_dma (b + 32) h') = heap_used h' - (of_nat k + 32)"
    using kfree_dma_step [OF lay] by metis
  also have "\<dots> = heap_used h - of_nat (k - round8 (unat sz))"
    using le by (simp add: used of_nat_diff)
  finally have "heap_used (kfree_dma (b + 32) h') = heap_used h - of_nat (k - round8 (unat sz))" .
  with run k show ?thesis by auto
qed

text \<open>
  A request within 7 bytes of \<open>2^64\<close> does not fail. The rounding wraps to 0, so on
  any heap with a free block \<open>kalloc_dma\<close> returns a non-null pointer to an area of
  less than 64 bytes for a request of almost \<open>2^64\<close> bytes.
\<close>

theorem kalloc_dma_overflow:
  assumes lay: "heap_layout h bs" and big: "2 ^ 64 - 8 < unat sz"
    and fit: "first_fit 0 h bs = Some b"
  shows "\<exists>h'. kalloc_dma sz h = Some (b + 32, h') \<and> b + 32 \<noteq> NULL \<and>
    unat (hb_size (blk h' b)) < 64"
proof -
  have "unat sz + 7 - 2 ^ 64 < 7" "2 ^ 64 \<le> unat sz + 7" using big unat_lt_2p [of sz] by simp_all
  then have "unat (sz + 7) < 7" by (simp add: unat_word_ariths mod_if)
  then have "unat ((sz + 7) AND NOT (mask 3)) = 0" by (simp add: unat_and_not_mask)
  moreover have "(7 :: u64) = mask 3" by (simp add: mask_eq_exp_minus_1)
  ultimately have n: "(sz + 7) AND NOT 7 = 0" by (metis unat_eq_zero)
  have sh: "heap_shape h bs" using lay by (simp add: heap_layout_def)
  from find_split [OF fit [unfolded first_fit_def]] obtain xs ys where bs: "bs = xs @ b # ys"
    by auto
  have bmem: "b \<in> set bs" using bs by simp
  note bb = shape_block [OF sh bmem]
  have "find_free_block 0 h = Some b"
    using find_free_block_eq [OF sh, of 0] fit by (simp add: first_fit_def)
  moreover have "sz \<noteq> 0" using big by auto
  moreover have "unat (hb_size (blk (split_block b 0 h) b)) < 64"
  proof (cases "unat (hb_size (blk h b)) < 64")
    case True
    then show ?thesis using split_block_whole [of h b 0] by (simp add: unat_bsize)
  next
    case False
    then show ?thesis using split_block_parts(2) [of h xs b ys 0] sh bs by simp
  qed
  moreover have "b + 32 \<noteq> NULL" using bb(6) by (metis add_is_0 unat_0 zero_neq_numeral)
  ultimately show ?thesis
    unfolding kalloc_dma_def Let_def n
    using bb(3) by (auto simp: sizeof_heap_block_def)
qed

text \<open>
  \<open>kcalloc_dma\<close> returns zeroed memory. When the product does not overflow, the
  call behaves like \<open>kalloc_dma\<close> on the product and, if it returns an area, every
  byte of it is 0 and every byte of every other area in use is unchanged.
\<close>

theorem kcalloc_dma_zeroes:
  assumes "heap_layout h bs" and "count * sz \<noteq> 0" and "unat count * unat sz + 7 < 2 ^ 64"
    and "kcalloc_dma count sz h = Some (p, h')" and "p \<noteq> NULL"
  shows "\<exists>bs' k. heap_layout h' bs' \<and> heap_live h' bs' = insert (p, k) (heap_live h bs) \<and>
    unat count * unat sz \<le> k \<and>
    (\<forall>a. in_block p (unat count * unat sz) a \<longrightarrow> payload h' a = 0) \<and>
    (\<forall>q l a. (q, l) \<in> heap_live h bs \<longrightarrow> in_block q l a \<longrightarrow> payload h' a = payload h a)"
proof -
  have prod: "unat (count * sz) = unat count * unat sz"
    using assms(3) by (intro unat_times_no_wrap) simp
  define n where "n = count * sz"
  obtain h1 where run: "kalloc_dma n h = Some (p, h1)"
    and h': "h' = h1\<lparr>payload := mm_memset p 0 n (payload h1)\<rparr>"
    using assms(4,5) by (auto simp: kcalloc_dma_def n_def Let_def split: option.splits if_splits)
  have n: "n \<noteq> 0" "unat n + 7 < 2 ^ 64" "unat n = unat count * unat sz"
    using assms(2,3) prod by (simp_all add: n_def)
  obtain b where fit: "first_fit (round8 (unat n)) h bs = Some b"
    using kalloc_dma_no_fit [OF assms(1), of n] run n assms(5)
    by (cases "first_fit (round8 (unat n)) h bs") (auto simp: dma_servable_def)
  from kalloc_dma_step [OF assms(1) n(1,2) fit] obtain bs' k where p: "p = b + 32"
    and lay: "heap_layout h1 bs'" and live: "heap_live h1 bs' = insert (p, k) (heap_live h bs)"
    and k: "round8 (unat n) \<le> k" and new: "\<forall>j. (p, j) \<notin> heap_live h bs"
    and pay: "payload h1 = payload h"
    using run by (metis option.inject prod.inject)
  have same: "heap_layout h' bs' = heap_layout h1 bs'" "heap_live h' bs' = heap_live h1 bs'"
    by (simp_all add: h' heap_layout_def heap_shape_def heap_live_def)
  have pay': "payload h' = (\<lambda>a. if in_block p (unat n) a then 0 else payload h a)"
    unfolding h' by (auto simp: mm_memset_eq pay)
  have "payload h' a = payload h a" if "(q, l) \<in> heap_live h bs" "in_block q l a" for q l a
  proof -
    have "\<not> in_block p k a"
      using heap_live_disjoint [of h1 bs' q l p k a] lay live new that
      by (auto simp: heap_layout_def)
    then show ?thesis
      using k round8_facts(1) [of "unat n"] by (simp add: pay' in_block_def)
  qed
  then show ?thesis
    using same lay live k round8_facts(1) [of "unat n"] pay' n(3) by (intro exI [of _ bs'] exI [of _ k]) auto
qed

text \<open>The validators on a well-formed heap.\<close>

lemma heap_validate_from_shape:
  assumes "heap_shape h (xs @ bs)"
  shows "heap_validate_from n (hd (bs @ [NULL])) h = 0"
  using assms
proof (induction bs arbitrary: xs n)
  case Nil
  then show ?case by (cases n) simp_all
next
  case (Cons b bs)
  show ?case
  proof (cases n)
    case (Suc m)
    note bb = shape_block [OF Cons.prems, of b]
    have size: "unat (heap_size h) = unat (heap_end h) - unat (heap_start h)"
      using Cons.prems by (simp add: heap_shape_def unat_minus_no_wrap word_less_nat_alt)
    have "\<not> bsize h b > heap_size h"
      using bb(1,2) size by (simp add: word_less_nat_alt unat_bsize)
    moreover have "hb_next (blk h b) = hd (bs @ [NULL])" by (rule shape_links [OF Cons.prems])
    moreover have "hd (bs @ [NULL]) = NULL \<or>
        \<not> (hd (bs @ [NULL]) < heap_start h \<or> hd (bs @ [NULL]) \<ge> heap_end h)"
      using shape_block(1,2) [OF Cons.prems, of "hd bs"]
      by (cases bs) (auto simp: word_less_nat_alt word_le_nat_alt)
    moreover have "heap_validate_from m (hd (bs @ [NULL])) h = 0"
      using Cons.IH [of "xs @ [b]"] Cons.prems by simp
    ultimately show ?thesis using bb(3,4) Suc by (auto simp: header_ok_def)
  qed simp
qed

lemma mm_validate_from_shape:
  assumes "heap_shape h (xs @ bs)"
  shows "mm_validate_from n (hd (bs @ [NULL])) h \<longleftrightarrow> length bs \<le> n"
  using assms
proof (induction bs arbitrary: xs n)
  case Nil
  then show ?case by (subst mm_validate_from.simps) simp
next
  case (Cons b bs)
  note bb = shape_block [OF Cons.prems, of b]
  have "unat (b + 32 + bsize h b) = unat b + 32 + unat (hb_size (blk h b))"
    using bb(2,6) unat_lt_2p [of "heap_end h"] by (subst unat_plus_no_wrap) (simp_all add: unat_bsize)
  then have in_heap: "b < heap_end h" "\<not> heap_end h < b + 32 + bsize h b"
    using bb(2) by (simp_all add: word_less_nat_alt)
  moreover have "hb_next (blk h b) = hd (bs @ [NULL])" by (rule shape_links [OF Cons.prems])
  moreover have "mm_validate_from m (hd (bs @ [NULL])) h \<longleftrightarrow> length bs \<le> m" for m
    using Cons.IH [of "xs @ [b]"] Cons.prems by simp
  ultimately show ?case
    using bb(3,4)
    by (subst mm_validate_from.simps)
      (auto simp: header_ok_def sizeof_heap_block_def split: nat.split)
qed

text \<open>
  The integrity checks. On every well-formed heap \<open>heap_validate\<close> reports no
  corruption; \<open>mm_validate_heap\<close> accepts it exactly when it has at most 1000 blocks.
\<close>

theorem heap_checks_accept:
  assumes "heap_layout h bs"
  shows "heap_validate h = 0 \<and> (mm_validate_heap h \<longleftrightarrow> length bs \<le> 1000)"
proof -
  have sh: "heap_shape h ([] @ bs)" using assms by (simp add: heap_layout_def)
  moreover have "hd (bs @ [NULL]) = heap_start h" "heap_free_list h = heap_start h"
    using sh by (cases bs; auto simp: heap_shape_def word_less_nat_alt word_unat_eq_iff)+
  ultimately show ?thesis
    using heap_validate_from_shape [OF sh, of 1000] mm_validate_from_shape [OF sh, of 1000]
    by (simp add: heap_validate_def mm_validate_heap_def)
qed

end
