(* ===== verification/Links.thy ===== *)
theory Links
  imports Prelude
begin

text \<open>
  Pointer structures the kernel builds by hand: singly linked chains that end in
  NULL, with removal through a pointer to the link (\<^verbatim>\<open>T **pp\<close>), and circular doubly
  linked lists with a sentinel. The link fields are maps from addresses to addresses;
  the lemmas say what an update of a field does to the list of nodes.
\<close>

section \<open>Chains\<close>

text \<open>\<open>chained f h xs\<close>: following \<open>f\<close> from \<open>h\<close> visits \<open>xs\<close> and then ends in NULL.\<close>

fun chained :: "(addr \<Rightarrow> addr) \<Rightarrow> addr \<Rightarrow> addr list \<Rightarrow> bool" where
  "chained f h [] \<longleftrightarrow> h = NULL"
| "chained f h (x # xs) \<longleftrightarrow> h = x \<and> x \<noteq> NULL \<and> chained f (f x) xs"

lemma chained_unique: "chained f h xs \<Longrightarrow> chained f h ys \<Longrightarrow> xs = ys"
proof (induction xs arbitrary: h ys)
  case Nil
  then show ?case by (cases ys) auto
next
  case (Cons x xs)
  then show ?case by (cases ys) auto
qed

lemma chained_not_null: "chained f h xs \<Longrightarrow> NULL \<notin> set xs"
  by (induction xs arbitrary: h) auto

lemma chained_suffix: "chained f h (ys @ x # zs) \<Longrightarrow> chained f (f x) zs"
  by (induction ys arbitrary: h) auto

lemma chained_link:
  "chained f h (us @ vs) \<Longrightarrow> (if us = [] then h else f (last us)) = (case vs of [] \<Rightarrow> NULL | v # _ \<Rightarrow> v)"
  by (induction us arbitrary: h) (auto split: list.split)

lemma chained_distinct: "chained f h xs \<Longrightarrow> distinct xs"
proof (induction xs arbitrary: h)
  case (Cons x xs)
  have "x \<notin> set xs"
  proof
    assume "x \<in> set xs"
    then obtain ys zs where xs: "xs = ys @ x # zs" by (auto simp: in_set_conv_decomp)
    have "chained f (f x) xs" and "chained f (f x) zs"
      using Cons.prems chained_suffix [of f "f x" ys x zs] xs by auto
    then have "xs = zs" by (rule chained_unique)
    then show False using xs by simp
  qed
  then show ?case using Cons by auto
qed simp

lemma chained_cong: "(\<And>x. x \<in> set xs \<Longrightarrow> g x = f x) \<Longrightarrow> chained g h xs \<longleftrightarrow> chained f h xs"
  by (induction xs arbitrary: h) auto

lemma chained_upd [simp]: "a \<notin> set xs \<Longrightarrow> chained (f(a := b)) h xs \<longleftrightarrow> chained f h xs"
  by (rule chained_cong) auto

lemma chained_push:
  "chained f h xs \<Longrightarrow> a \<noteq> NULL \<Longrightarrow> a \<notin> set xs \<Longrightarrow> chained (f(a := h)) a (a # xs)"
  by simp

text \<open>Bypassing \<open>x\<close>: by its predecessor's link, or by the head when \<open>x\<close> is the first node.\<close>

lemma chained_bypass_first: "chained f h (x # zs) \<Longrightarrow> chained f (f x) zs"
  by simp

lemma chained_bypass:
  assumes "chained f h (ys @ x # zs)" and "ys \<noteq> []"
  shows "chained (f(last ys := f x)) h (ys @ zs)"
  using assms
proof (induction ys arbitrary: h)
  case (Cons y ys)
  have d: "distinct (y # ys @ x # zs)"
    using chained_distinct [OF Cons.prems(1)] by simp
  show ?case
  proof (cases "ys = []")
    case True
    have "chained (f(y := f x)) (f x) zs \<longleftrightarrow> chained f (f x) zs"
      using d by (intro chained_cong) auto
    then show ?thesis using Cons.prems(1) unfolding True by (simp add: fun_upd_def)
  next
    case False
    then have "y \<noteq> last ys" using d by auto
    then show ?thesis using Cons.IH [of "f y"] Cons.prems(1) False by simp
  qed
qed simp

section \<open>Searching a chain\<close>

text \<open>The loop \<^verbatim>\<open>while (e) { if (P(e)) return e; e = e->next; } return 0;\<close>.\<close>

partial_function (option) find_node :: "(addr \<Rightarrow> addr) \<Rightarrow> (addr \<Rightarrow> bool) \<Rightarrow> addr \<Rightarrow> addr option" where
  "find_node nxt P e =
     (if e = NULL then Some NULL else if P e then Some e else find_node nxt P (nxt e))"

declare find_node.simps [code]

text \<open>
  The loop \<^verbatim>\<open>while (*pp) { if (P( *pp)) break; pp = &( *pp)->next; }\<close>. The pointer \<^verbatim>\<open>pp\<close> is
  \<open>None\<close> for the head of the chain and \<open>Some a\<close> for the link field of node \<open>a\<close>; \<open>e\<close> is
  the node it points to. The result is the final \<^verbatim>\<open>pp\<close> with its node (NULL at the end).
\<close>

partial_function (option) find_slot ::
    "(addr \<Rightarrow> addr) \<Rightarrow> (addr \<Rightarrow> bool) \<Rightarrow> addr option \<Rightarrow> addr \<Rightarrow> (addr option \<times> addr) option" where
  "find_slot nxt P pp e =
     (if e = NULL then Some (pp, NULL)
      else if P e then Some (pp, e)
      else find_slot nxt P (Some e) (nxt e))"

declare find_slot.simps [code]

lemma find_node_chained:
  "chained nxt h xs \<Longrightarrow>
     find_node nxt P h = Some (case find P xs of None \<Rightarrow> NULL | Some x \<Rightarrow> x)"
proof (induction xs arbitrary: h)
  case Nil
  then show ?case by (subst find_node.simps) simp
next
  case (Cons x xs)
  then show ?case by (subst find_node.simps) simp
qed

lemma find_node_found:
  assumes "chained nxt h (ys @ x # zs)" and "P x" and "\<And>y. y \<in> set ys \<Longrightarrow> \<not> P y"
  shows "find_node nxt P h = Some x"
  using assms
proof (induction ys arbitrary: h)
  case Nil
  then show ?case by (subst find_node.simps) simp
next
  case (Cons y ys)
  then show ?case by (subst find_node.simps) simp
qed

lemma find_slot_found:
  assumes "chained nxt h (ys @ x # zs)" and "P x" and "\<And>y. y \<in> set ys \<Longrightarrow> \<not> P y"
  shows "find_slot nxt P pp h = Some (if ys = [] then pp else Some (last ys), x)"
  using assms
proof (induction ys arbitrary: h pp)
  case Nil
  then show ?case by (subst find_slot.simps) simp
next
  case (Cons y ys)
  then have "find_slot nxt P (Some y) (nxt y) =
      Some (if ys = [] then Some y else Some (last ys), x)" by simp
  then show ?case using Cons.prems by (subst find_slot.simps) auto
qed

lemma find_slot_none:
  assumes "chained nxt h xs" and "\<And>y. y \<in> set xs \<Longrightarrow> \<not> P y"
  shows "\<exists>pp'. find_slot nxt P pp h = Some (pp', NULL)"
  using assms
proof (induction xs arbitrary: h pp)
  case Nil
  then show ?case by (subst find_slot.simps) simp
next
  case (Cons y ys)
  then show ?case by (subst find_slot.simps) simp
qed

section \<open>Doubly linked lists\<close>

text \<open>From \<open>a\<close> the nodes \<open>xs\<close> lead to \<open>b\<close>, forwards by \<open>n\<close> and backwards by \<open>p\<close>.\<close>

fun dll :: "(addr \<Rightarrow> addr) \<Rightarrow> (addr \<Rightarrow> addr) \<Rightarrow> addr \<Rightarrow> addr list \<Rightarrow> addr \<Rightarrow> bool" where
  "dll n p a [] b \<longleftrightarrow> n a = b \<and> p b = a"
| "dll n p a (x # xs) b \<longleftrightarrow> n a = x \<and> p x = a \<and> dll n p x xs b"

lemma dll_append: "dll n p a (xs @ x # ys) b \<longleftrightarrow> dll n p a xs x \<and> dll n p x ys b"
  by (induction xs arbitrary: a) auto

lemma dll_cong:
  "(\<And>x. x \<in> set (a # xs) \<Longrightarrow> n' x = n x) \<Longrightarrow> (\<And>x. x \<in> set (xs @ [b]) \<Longrightarrow> p' x = p x) \<Longrightarrow>
     dll n' p' a xs b \<longleftrightarrow> dll n p a xs b"
  by (induction xs arbitrary: a) auto

lemma dll_ends: "dll n p a xs b \<Longrightarrow> n a = hd (xs @ [b]) \<and> p b = last (a # xs)"
  by (induction xs arbitrary: a) auto

lemma dll_unique:
  "dll n p a xs b \<Longrightarrow> dll n p a ys b \<Longrightarrow> b \<notin> set xs \<Longrightarrow> b \<notin> set ys \<Longrightarrow> xs = ys"
proof (induction xs arbitrary: a ys)
  case Nil
  then show ?case by (cases ys) auto
next
  case (Cons x xs)
  then show ?case by (cases ys) auto
qed

text \<open>The ring with sentinel \<open>s\<close>.\<close>

definition ring :: "(addr \<Rightarrow> addr) \<Rightarrow> (addr \<Rightarrow> addr) \<Rightarrow> addr \<Rightarrow> addr list \<Rightarrow> bool" where
  "ring n p s xs \<longleftrightarrow> dll n p s xs s \<and> distinct (s # xs) \<and> NULL \<notin> set (s # xs)"

lemma ring_unique: "ring n p s xs \<Longrightarrow> ring n p s ys \<Longrightarrow> xs = ys"
  by (auto simp: ring_def intro: dll_unique)

lemma ring_nil: "n s = s \<Longrightarrow> p s = s \<Longrightarrow> s \<noteq> NULL \<Longrightarrow> ring n p s []"
  by (simp add: ring_def)

lemma ring_last: "ring n p s xs \<Longrightarrow> p s = last (s # xs)"
  unfolding ring_def using dll_ends by blast

lemma ring_upd_other:
  assumes "ring n p s xs" and "e \<notin> set (s # xs)"
  shows "ring (n(e := v)) (p(e := w)) s xs"
proof -
  have "dll (n(e := v)) (p(e := w)) s xs s \<longleftrightarrow> dll n p s xs s"
    using assms(2) by (intro dll_cong) auto
  then show ?thesis using assms(1) by (simp add: ring_def)
qed

text \<open>Inserting behind the sentinel.\<close>

lemma ring_push:
  assumes "ring n p s xs" and "e \<notin> set (s # xs)" and "e \<noteq> NULL"
  shows "ring (n(e := n s, s := e)) (p(e := s, n s := e)) s (e # xs)"
proof (cases xs)
  case Nil
  then show ?thesis using assms by (simp add: ring_def)
next
  case (Cons y ys)
  then have d: "n s = y" "dll n p y ys s" "distinct (s # y # ys)" "e \<notin> {s, y} \<union> set ys"
    using assms by (auto simp: ring_def)
  have "dll (n(e := n s, s := e)) (p(e := s, n s := e)) y ys s \<longleftrightarrow> dll n p y ys s"
    using d by (intro dll_cong) auto
  then show ?thesis using d assms Cons by (auto simp: ring_def)
qed

text \<open>Unlinking a node.\<close>

lemma ring_unlink:
  assumes "ring n p s (xs @ x # ys)"
  shows "ring (n(p x := n x, x := NULL)) (p(n x := p x, x := NULL)) s (xs @ ys)"
    and "p x \<noteq> NULL" and "n x \<noteq> NULL" and "p x \<noteq> x" and "n x \<noteq> x"
proof -
  have l: "dll n p s xs x" and r: "dll n p x ys s"
    using assms by (simp_all add: ring_def dll_append)
  have d: "distinct (s # xs @ x # ys)" "NULL \<notin> set (s # xs @ x # ys)"
    using assms by (simp_all add: ring_def)
  have px: "p x = last (s # xs)" and nx: "n x = hd (ys @ [s])"
    using dll_ends [OF l] dll_ends [OF r] by simp_all
  have in_l: "p x \<in> set (s # xs)" and in_r: "n x \<in> set (ys @ [s])"
    unfolding px nx by (rule last_in_set, simp, rule hd_in_set, simp)
  show "p x \<noteq> NULL" "n x \<noteq> NULL" "p x \<noteq> x" "n x \<noteq> x" using in_l in_r d by auto
  let ?n = "n(p x := n x, x := NULL)" and ?p = "p(n x := p x, x := NULL)"
  have "dll ?n ?p s (xs @ ys) s"
  proof (cases ys)
    case Nil
    have "dll ?n ?p s xs s"
    proof (cases xs rule: rev_cases)
      case Nil
      then show ?thesis using px nx \<open>ys = []\<close> d by simp
    next
      case (snoc zs z)
      have "dll ?n ?p s zs z \<longleftrightarrow> dll n p s zs z"
        using d px nx snoc \<open>ys = []\<close> by (intro dll_cong) auto
      then show ?thesis using l snoc px nx \<open>ys = []\<close> d by (simp add: dll_append)
    qed
    then show ?thesis using Nil by simp
  next
    case (Cons y zs)
    have r': "dll ?n ?p y zs s \<longleftrightarrow> dll n p y zs s"
      using d in_l nx Cons by (intro dll_cong) auto
    have "dll ?n ?p s xs y"
    proof (cases xs rule: rev_cases)
      case Nil
      then show ?thesis using px nx Cons d by auto
    next
      case (snoc ws w)
      have "dll ?n ?p s ws w \<longleftrightarrow> dll n p s ws w"
        using d px nx snoc Cons by (intro dll_cong) auto
      then show ?thesis using l snoc px nx Cons d by (auto simp: dll_append)
    qed
    then show ?thesis using r' r Cons by (simp add: dll_append)
  qed
  then show "ring ?n ?p s (xs @ ys)" using d by (auto simp: ring_def)
qed

lemma remove1_split: "distinct (ys @ x # zs) \<Longrightarrow> remove1 x (ys @ x # zs) = ys @ zs"
  by (simp add: remove1_append)

lemma ring_remove1:
  assumes "ring n p s xs" and "x \<in> set xs"
  shows "ring (n(p x := n x, x := NULL)) (p(n x := p x, x := NULL)) s (remove1 x xs)"
    and "p x \<noteq> NULL" and "n x \<noteq> NULL" and "p x \<noteq> x" and "n x \<noteq> x"
proof -
  from assms(2) obtain ys zs where xs: "xs = ys @ x # zs" by (auto simp: in_set_conv_decomp)
  have "remove1 x xs = ys @ zs"
    using assms(1) xs by (simp add: ring_def remove1_append)
  with ring_unlink [of n p s ys x zs] assms(1) xs
  show "ring (n(p x := n x, x := NULL)) (p(n x := p x, x := NULL)) s (remove1 x xs)"
    and "p x \<noteq> NULL" and "n x \<noteq> NULL" and "p x \<noteq> x" and "n x \<noteq> x"
    by simp_all
qed

lemma ring_neighbours:
  assumes "ring n p s xs" and "x \<in> set xs"
  shows "p x \<in> insert s (set xs)" and "n x \<in> insert s (set xs)"
proof -
  from assms(2) obtain ys zs where xs: "xs = ys @ x # zs" by (auto simp: in_set_conv_decomp)
  then have "dll n p s ys x" "dll n p x zs s" using assms(1) by (simp_all add: ring_def dll_append)
  from dll_ends [OF this(1)] dll_ends [OF this(2)]
  have "p x = last (s # ys)" "n x = hd (zs @ [s])" by simp_all
  then show "p x \<in> insert s (set xs)" "n x \<in> insert s (set xs)"
    using last_in_set [of "s # ys"] hd_in_set [of "zs @ [s]"] xs by auto
qed

section \<open>Hash tables of chains\<close>

text \<open>
  Bucket \<open>b < N\<close> chains, from its head and by the link map \<open>hn\<close>, the nodes of \<open>xs\<close> that \<open>bk\<close>
  sends to \<open>b\<close>.
\<close>

definition hash_buckets ::
    "nat \<Rightarrow> (addr \<Rightarrow> addr) \<Rightarrow> (nat \<Rightarrow> addr) \<Rightarrow> (addr \<Rightarrow> nat) \<Rightarrow> addr list \<Rightarrow> bool" where
  "hash_buckets N hn hs bk xs \<longleftrightarrow>
     (\<forall>b < N. \<exists>cs. chained hn (hs b) cs \<and> set cs = {a \<in> set xs. bk a = b})"

lemma hash_buckets_cong: "set ys = set xs \<Longrightarrow> hash_buckets N hn hs bk ys \<longleftrightarrow> hash_buckets N hn hs bk xs"
  by (simp add: hash_buckets_def)

lemma hash_buckets_set:
  assumes "hash_buckets N hn hs bk xs" and "b < N" and "chained hn (hs b) cs"
  shows "set cs = {a \<in> set xs. bk a = b}"
proof -
  obtain cs' where "chained hn (hs b) cs'" "set cs' = {a \<in> set xs. bk a = b}"
    using assms(1,2) by (auto simp: hash_buckets_def)
  then show ?thesis using chained_unique [OF assms(3)] by blast
qed

lemma hash_buckets_chains:
  assumes "hash_buckets N hn hs bk xs"
  obtains cs where "\<And>b. b < N \<Longrightarrow> chained hn (hs b) (cs b)"
    and "\<And>b. b < N \<Longrightarrow> set (cs b) = {a \<in> set xs. bk a = b}"
proof -
  have "\<forall>b. \<exists>cs. b < N \<longrightarrow> chained hn (hs b) cs \<and> set cs = {a \<in> set xs. bk a = b}"
    using assms by (simp add: hash_buckets_def)
  from choice [OF this] that show ?thesis by blast
qed

lemma hash_buckets_split:
  assumes "hash_buckets N hn hs bk xs" and "x \<in> set xs" and "bk x < N"
  obtains us vs where "chained hn (hs (bk x)) (us @ x # vs)"
    and "set (us @ x # vs) = {a \<in> set xs. bk a = bk x}"
proof -
  obtain cs where cs: "chained hn (hs (bk x)) cs" "set cs = {a \<in> set xs. bk a = bk x}"
    using assms(1,3) by (auto simp: hash_buckets_def)
  then have "x \<in> set cs" using assms by auto
  then obtain us vs where "cs = us @ x # vs" by (auto simp: in_set_conv_decomp)
  with cs that show ?thesis by auto
qed

text \<open>Unlinking \<open>x\<close> through the slot \<open>pp\<close> that points to it.\<close>

lemma hash_buckets_unlink:
  assumes ok: "hash_buckets N hn hs bk xs" and d: "distinct xs" and b: "b < N"
    and ch: "chained hn (hs b) (us @ x # vs)"
    and pp: "pp = (if us = [] then None else Some (last us))"
    and hn': "hn' = (case pp of None \<Rightarrow> hn | Some a \<Rightarrow> hn(a := hn x))"
    and hs': "hs' = (case pp of None \<Rightarrow> hs(b := hn x) | Some a \<Rightarrow> hs)"
  shows "chained hn' (hs' b) (us @ vs)" and "hash_buckets N hn' hs' bk (remove1 x xs)"
proof -
  show c: "chained hn' (hs' b) (us @ vs)"
    using ch chained_bypass [OF ch] by (auto simp: hn' hs' pp)
  have set_b: "set (us @ x # vs) = {a \<in> set xs. bk a = b}"
    by (rule hash_buckets_set [OF ok b ch])
  show "hash_buckets N hn' hs' bk (remove1 x xs)"
    unfolding hash_buckets_def
  proof (intro allI impI)
    fix b' assume b': "b' < N"
    show "\<exists>cs. chained hn' (hs' b') cs \<and> set cs = {a \<in> set (remove1 x xs). bk a = b'}"
    proof (cases "b' = b")
      case True
      have "set (us @ vs) = set (us @ x # vs) - {x}" using chained_distinct [OF ch] by auto
      then have "set (us @ vs) = {a \<in> set (remove1 x xs). bk a = b'}" using set_b True d by auto
      then show ?thesis using c True by blast
    next
      case False
      obtain cs where cs: "chained hn (hs b') cs" and set_cs: "set cs = {a \<in> set xs. bk a = b'}"
        using ok b' by (auto simp: hash_buckets_def)
      have dis: "set cs \<inter> set (us @ x # vs) = {}" using set_cs set_b False by auto
      then have "us \<noteq> [] \<Longrightarrow> last us \<notin> set cs" using last_in_set [of us] by auto
      then have "chained hn' (hs' b') cs" using cs False by (auto simp: hn' hs' pp)
      moreover have "x \<notin> set cs" using dis by auto
      ultimately show ?thesis using set_cs d by (intro exI [of _ cs]) auto
    qed
  qed
qed

lemma hash_buckets_push:
  assumes ok: "hash_buckets N hn hs bk xs" and e: "e \<noteq> NULL" "e \<notin> set xs" "bk' e < N"
    and bk': "\<And>a. a \<in> set xs \<Longrightarrow> bk' a = bk a"
  shows "hash_buckets N (hn(e := hs (bk' e))) (hs(bk' e := e)) bk' (e # xs)"
  unfolding hash_buckets_def
proof (intro allI impI)
  fix b assume "b < N"
  then obtain cs where cs: "chained hn (hs b) cs" and set_cs: "set cs = {a \<in> set xs. bk a = b}"
    using ok by (auto simp: hash_buckets_def)
  have ecs: "e \<notin> set cs" using e(2) set_cs by simp
  show "\<exists>cs. chained (hn(e := hs (bk' e))) ((hs(bk' e := e)) b) cs \<and>
      set cs = {a \<in> set (e # xs). bk' a = b}"
  proof (cases "b = bk' e")
    case True
    then have "chained (hn(e := hs (bk' e))) ((hs(bk' e := e)) b) (e # cs)"
      using cs ecs e(1) by simp
    moreover have "set (e # cs) = {a \<in> set (e # xs). bk' a = b}" using set_cs True bk' by auto
    ultimately show ?thesis by blast
  next
    case False
    then have "chained (hn(e := hs (bk' e))) ((hs(bk' e := e)) b) cs" using cs ecs by simp
    moreover have "set cs = {a \<in> set (e # xs). bk' a = b}" using set_cs False bk' by auto
    ultimately show ?thesis by blast
  qed
qed

end
