(* ===== verification/Dcache.thy ===== *)
theory Dcache
  imports Links
begin

text \<open>
  The dentry cache of \<^verbatim>\<open>kernel/fs/dcache.c\<close>: a hash table of chained entries and an LRU
  ring through the same entries. The model keeps the entries in a store indexed by
  address, with their link fields; \<^verbatim>\<open>kalloc\<close> is an argument (a function of the state,
  0 for failure), and \<open>dc_live\<close> records which entries are allocated. The operations run
  under the bucket and LRU spinlocks and are modelled as atomic.

  The specification is a list of entries in order of use with at most one entry per
  key; the operations are shown to implement lookup, insertion with eviction of the
  least recently used entry, and invalidation on it.
\<close>

section \<open>State\<close>

definition DC_HASH_BUCKETS :: nat where "DC_HASH_BUCKETS = 1024"
definition DC_HASH_MASK :: u64 where "DC_HASH_MASK = 1023"
definition DC_MAX_ENTRIES :: u64 where "DC_MAX_ENTRIES = 4096"
definition DC_NAME_MAX :: nat where "DC_NAME_MAX = 255"
definition DC_VALID :: u32 where "DC_VALID = 1"
definition DC_NEGATIVE :: u32 where "DC_NEGATIVE = 2"
definition DC_DIRECTORY :: u32 where "DC_DIRECTORY = 4"

record dc_entry =
  parent_cluster :: u64
  name_hash :: u64
  start_cluster :: u64
  dc_size :: u64
  attr :: u32
  wrt_time :: u16
  wrt_date :: u16
  dirent_cluster :: u64
  dirent_index :: u32
  lfn_start_cluster :: u64
  lfn_start_index :: u32
  dc_name :: cstr
  dc_flags :: u32
  hash_next :: addr
  lru_prev :: addr
  lru_next :: addr

record dcache =
  dc_ent :: "addr \<Rightarrow> dc_entry"
  dc_head :: "nat \<Rightarrow> addr"
  dc_lru_sentinel :: addr
  dc_live :: "addr \<Rightarrow> bool"
  dc_entry_count :: u64
  dc_stat_hits :: u64
  dc_stat_neg_hits :: u64
  dc_stat_misses :: u64
  dc_stat_insertions :: u64
  dc_stat_evictions :: u64
  dc_initialized :: bool

text \<open>Assignment to fields of the entry at an address.\<close>

definition upd_ent :: "addr \<Rightarrow> (dc_entry \<Rightarrow> dc_entry) \<Rightarrow> dcache \<Rightarrow> dcache" where
  "upd_ent a f st = st\<lparr>dc_ent := (dc_ent st)(a := f (dc_ent st a))\<rparr>"

text \<open>An object filled with zero bytes.\<close>

definition zero_entry :: dc_entry where
  "zero_entry = \<lparr>parent_cluster = 0, name_hash = 0, start_cluster = 0, dc_size = 0, attr = 0,
     wrt_time = 0, wrt_date = 0, dirent_cluster = 0, dirent_index = 0, lfn_start_cluster = 0,
     lfn_start_index = 0, dc_name = [], dc_flags = 0, hash_next = 0, lru_prev = 0, lru_next = 0\<rparr>"

section \<open>Operations\<close>

definition dcache_init :: "dcache \<Rightarrow> dcache" where
  "dcache_init st =
     (let s = dc_lru_sentinel st;
          st1 = st\<lparr>dc_head := (\<lambda>i. if i < DC_HASH_BUCKETS then 0 else dc_head st i)\<rparr>;
          st2 = upd_ent s (\<lambda>e. e\<lparr>lru_prev := s\<rparr>) st1;
          st3 = upd_ent s (\<lambda>e. e\<lparr>lru_next := s\<rparr>) st2
      in st3\<lparr>dc_entry_count := 0, dc_stat_hits := 0, dc_stat_neg_hits := 0, dc_stat_misses := 0,
             dc_stat_insertions := 0, dc_stat_evictions := 0, dc_initialized := True\<rparr>)"

text \<open>The test \<^verbatim>\<open>c >= 'A' && c <= 'Z'\<close> and the addition of 32.\<close>

definition dc_lower :: "u8 \<Rightarrow> u8" where
  "dc_lower c = (if 0x41 \<le> c \<and> c \<le> 0x5A then c + 32 else c)"

definition dc_name_hash :: "cstr \<Rightarrow> u64" where
  "dc_name_hash name =
     fold (\<lambda>c h. (h XOR ucast (dc_lower c)) * 1099511628211) name 14695981039346656037"

fun dc_strcasecmp :: "cstr \<Rightarrow> cstr \<Rightarrow> int" where
  "dc_strcasecmp (a # as) (b # bs) =
     (if dc_lower a \<noteq> dc_lower b then sint (dc_lower a) - sint (dc_lower b)
      else dc_strcasecmp as bs)"
| "dc_strcasecmp (a # as) [] = uint a"
| "dc_strcasecmp [] (b # bs) = - uint b"
| "dc_strcasecmp [] [] = 0"

definition dc_lru_add :: "addr \<Rightarrow> dcache \<Rightarrow> dcache" where
  "dc_lru_add e st =
     (let s = dc_lru_sentinel st;
          st1 = upd_ent e (\<lambda>x. x\<lparr>lru_next := lru_next (dc_ent st s)\<rparr>) st;
          st2 = upd_ent e (\<lambda>x. x\<lparr>lru_prev := s\<rparr>) st1;
          st3 = upd_ent (lru_next (dc_ent st2 s)) (\<lambda>x. x\<lparr>lru_prev := e\<rparr>) st2
      in upd_ent s (\<lambda>x. x\<lparr>lru_next := e\<rparr>) st3)"

definition dc_lru_remove :: "addr \<Rightarrow> dcache \<Rightarrow> dcache" where
  "dc_lru_remove e st =
     (let p = lru_prev (dc_ent st e);
          st1 = (if p \<noteq> NULL then upd_ent p (\<lambda>x. x\<lparr>lru_next := lru_next (dc_ent st e)\<rparr>) st else st);
          n = lru_next (dc_ent st1 e);
          st2 = (if n \<noteq> NULL
                 then upd_ent n (\<lambda>x. x\<lparr>lru_prev := lru_prev (dc_ent st1 e)\<rparr>) st1 else st1)
      in upd_ent e (\<lambda>x. x\<lparr>lru_prev := 0, lru_next := 0\<rparr>) st2)"

definition dc_lru_touch :: "addr \<Rightarrow> dcache \<Rightarrow> dcache" where
  "dc_lru_touch e st = dc_lru_add e (dc_lru_remove e st)"

definition dc_bucket_index :: "u64 \<Rightarrow> u64 \<Rightarrow> nat" where
  "dc_bucket_index parent nh = unat ((parent * 2654435761 XOR nh) AND DC_HASH_MASK)"

text \<open>The assignment \<^verbatim>\<open>*pp = v\<close>, for \<^verbatim>\<open>pp\<close> the head of bucket \<open>b\<close> or a \<^verbatim>\<open>hash_next\<close> field.\<close>

definition set_slot :: "nat \<Rightarrow> addr option \<Rightarrow> addr \<Rightarrow> dcache \<Rightarrow> dcache" where
  "set_slot b pp v st =
     (case pp of None \<Rightarrow> st\<lparr>dc_head := (dc_head st)(b := v)\<rparr>
      | Some a \<Rightarrow> upd_ent a (\<lambda>x. x\<lparr>hash_next := v\<rparr>) st)"

definition dc_kfree :: "addr \<Rightarrow> dcache \<Rightarrow> dcache" where
  "dc_kfree a st = st\<lparr>dc_live := (dc_live st)(a := False)\<rparr>"

text \<open>
  \<^verbatim>\<open>dc_evict_one\<close> holds the LRU lock for its first half and the bucket lock for its
  second half, so it is the composition of two atomic steps.
\<close>

definition dc_evict_pick :: "dcache \<Rightarrow> (addr \<times> dcache) option" where
  "dc_evict_pick st =
     (let victim = lru_prev (dc_ent st (dc_lru_sentinel st)) in
      if victim = dc_lru_sentinel st then None else Some (victim, dc_lru_remove victim st))"

definition dc_evict_finish :: "addr \<Rightarrow> dcache \<Rightarrow> dcache option" where
  "dc_evict_finish victim st =
     (let b = dc_bucket_index (parent_cluster (dc_ent st victim)) (name_hash (dc_ent st victim))
      in case find_slot (\<lambda>a. hash_next (dc_ent st a)) (\<lambda>a. a = victim) None (dc_head st b) of
           None \<Rightarrow> None
         | Some (pp, a) \<Rightarrow>
             let st2 = (if a = NULL then st
                        else set_slot b pp (hash_next (dc_ent st victim)) st);
                 st3 = dc_kfree victim st2
             in Some (st3\<lparr>dc_entry_count := dc_entry_count st3 - 1,
                          dc_stat_evictions := dc_stat_evictions st3 + 1\<rparr>))"

definition dc_evict_one :: "dcache \<Rightarrow> dcache option" where
  "dc_evict_one st =
     (case dc_evict_pick st of None \<Rightarrow> Some st
      | Some (victim, st1) \<Rightarrow> dc_evict_finish victim st1)"

text \<open>The test all the searches in a bucket share.\<close>

definition dc_match :: "dcache \<Rightarrow> u64 \<Rightarrow> u64 \<Rightarrow> cstr \<Rightarrow> addr \<Rightarrow> bool" where
  "dc_match st parent nh name a \<longleftrightarrow>
     parent_cluster (dc_ent st a) = parent \<and> name_hash (dc_ent st a) = nh \<and>
     dc_strcasecmp (dc_name (dc_ent st a)) name = 0"

definition dcache_lookup :: "u64 \<Rightarrow> cstr option \<Rightarrow> dcache \<Rightarrow> (addr \<times> dcache) option" where
  "dcache_lookup parent name_ptr st =
     (case name_ptr of None \<Rightarrow> Some (NULL, st)
      | Some name \<Rightarrow>
     (if \<not> dc_initialized st then Some (NULL, st)
      else
        let nh = dc_name_hash name;
            b = dc_bucket_index parent nh
        in case find_node (\<lambda>a. hash_next (dc_ent st a)) (dc_match st parent nh name) (dc_head st b) of
             None \<Rightarrow> None
           | Some e \<Rightarrow>
               (if e \<noteq> NULL
                then let st1 = dc_lru_touch e st
                     in if dc_flags (dc_ent st1 e) AND DC_NEGATIVE \<noteq> 0
                        then Some (e, st1\<lparr>dc_stat_neg_hits := dc_stat_neg_hits st1 + 1\<rparr>)
                        else Some (e, st1\<lparr>dc_stat_hits := dc_stat_hits st1 + 1\<rparr>)
                else Some (NULL, st\<lparr>dc_stat_misses := dc_stat_misses st + 1\<rparr>))))"

partial_function (option) dc_make_room :: "dcache \<Rightarrow> dcache option" where
  "dc_make_room st =
     (if dc_entry_count st \<ge> DC_MAX_ENTRIES
      then Option.bind (dc_evict_one st) dc_make_room
      else Some st)"

declare dc_make_room.simps [code]

definition dc_alloc_entry ::
    "(dcache \<Rightarrow> addr) \<Rightarrow> u64 \<Rightarrow> cstr \<Rightarrow> u64 \<Rightarrow> dcache \<Rightarrow> (addr \<times> dcache) option" where
  "dc_alloc_entry kalloc parent name nh st =
     (case dc_make_room st of None \<Rightarrow> None
      | Some st1 \<Rightarrow>
          let e = kalloc st1 in
          if e = NULL then Some (NULL, st1)
          else
            let st2 = st1\<lparr>dc_live := (dc_live st1)(e := True)\<rparr>;
                st3 = upd_ent e (\<lambda>_. zero_entry) st2
            in Some (e, upd_ent e (\<lambda>x. x\<lparr>parent_cluster := parent, name_hash := nh,
                                          dc_name := take DC_NAME_MAX name\<rparr>) st3))"

text \<open>Both \<^verbatim>\<open>dc_remove_existing\<close> and \<^verbatim>\<open>dcache_invalidate\<close> run this loop.\<close>

definition dc_remove_existing :: "u64 \<Rightarrow> cstr \<Rightarrow> u64 \<Rightarrow> nat \<Rightarrow> dcache \<Rightarrow> dcache option" where
  "dc_remove_existing parent name nh b st =
     (case find_slot (\<lambda>a. hash_next (dc_ent st a)) (dc_match st parent nh name) None (dc_head st b) of
        None \<Rightarrow> None
      | Some (pp, e) \<Rightarrow>
          (if e = NULL then Some st
           else
             let st1 = set_slot b pp (hash_next (dc_ent st e)) st;
                 st2 = dc_lru_remove e st1;
                 st3 = dc_kfree e st2
             in Some (st3\<lparr>dc_entry_count := dc_entry_count st3 - 1\<rparr>)))"

text \<open>The end of both insertions: push on the bucket, then on the LRU ring.\<close>

definition dc_link :: "nat \<Rightarrow> addr \<Rightarrow> dcache \<Rightarrow> dcache" where
  "dc_link b e st =
     (let st1 = upd_ent e (\<lambda>x. x\<lparr>hash_next := dc_head st b\<rparr>) st;
          st2 = st1\<lparr>dc_head := (dc_head st1)(b := e)\<rparr>;
          st3 = dc_lru_add e st2
      in st3\<lparr>dc_entry_count := dc_entry_count st3 + 1, dc_stat_insertions := dc_stat_insertions st3 + 1\<rparr>)"

text \<open>What a caller of \<^verbatim>\<open>dcache_insert\<close> passes besides the key.\<close>

record dc_info =
  i_start_cluster :: u64
  i_size :: u64
  i_attr :: u32
  i_wrt_time :: u16
  i_wrt_date :: u16
  i_dirent_cluster :: u64
  i_dirent_index :: u32
  i_lfn_start_cluster :: u64
  i_lfn_start_index :: u32

definition set_info :: "dc_info \<Rightarrow> dc_entry \<Rightarrow> dc_entry" where
  "set_info i x = x\<lparr>start_cluster := i_start_cluster i, dc_size := i_size i, attr := i_attr i,
     wrt_time := i_wrt_time i, wrt_date := i_wrt_date i, dirent_cluster := i_dirent_cluster i,
     dirent_index := i_dirent_index i, lfn_start_cluster := i_lfn_start_cluster i,
     lfn_start_index := i_lfn_start_index i,
     dc_flags := (if i_attr i AND 0x10 \<noteq> 0 then DC_VALID OR DC_DIRECTORY else DC_VALID)\<rparr>"

definition dcache_insert ::
    "(dcache \<Rightarrow> addr) \<Rightarrow> u64 \<Rightarrow> cstr option \<Rightarrow> dc_info \<Rightarrow> dcache \<Rightarrow> dcache option" where
  "dcache_insert kalloc parent name_ptr i st =
     (case name_ptr of None \<Rightarrow> Some st
      | Some name \<Rightarrow>
     (if \<not> dc_initialized st \<or> name = [] then Some st
      else
        let nh = dc_name_hash name;
            b = dc_bucket_index parent nh
        in case dc_remove_existing parent name nh b st of None \<Rightarrow> None
           | Some st1 \<Rightarrow>
               (case dc_alloc_entry kalloc parent name nh st1 of None \<Rightarrow> None
                | Some (e, st2) \<Rightarrow>
                    if e = NULL then Some st2
                    else Some (dc_link b e (upd_ent e (set_info i) st2)))))"

definition dcache_insert_negative ::
    "(dcache \<Rightarrow> addr) \<Rightarrow> u64 \<Rightarrow> cstr option \<Rightarrow> dcache \<Rightarrow> dcache option" where
  "dcache_insert_negative kalloc parent name_ptr st =
     (case name_ptr of None \<Rightarrow> Some st
      | Some name \<Rightarrow>
     (if \<not> dc_initialized st \<or> name = [] then Some st
      else
        let nh = dc_name_hash name;
            b = dc_bucket_index parent nh
        in case dc_remove_existing parent name nh b st of None \<Rightarrow> None
           | Some st1 \<Rightarrow>
               (case dc_alloc_entry kalloc parent name nh st1 of None \<Rightarrow> None
                | Some (e, st2) \<Rightarrow>
                    if e = NULL then Some st2
                    else Some (dc_link b e
                           (upd_ent e (\<lambda>x. x\<lparr>dc_flags := DC_VALID OR DC_NEGATIVE\<rparr>) st2)))))"

definition dcache_invalidate :: "u64 \<Rightarrow> cstr option \<Rightarrow> dcache \<Rightarrow> dcache option" where
  "dcache_invalidate parent name_ptr st =
     (case name_ptr of None \<Rightarrow> Some st
      | Some name \<Rightarrow>
     (if \<not> dc_initialized st then Some st
      else let nh = dc_name_hash name
           in dc_remove_existing parent name nh (dc_bucket_index parent nh) st))"

text \<open>The loop of \<^verbatim>\<open>dcache_invalidate_dir\<close> over one bucket, \<open>pp\<close> as in \<open>set_slot\<close>.\<close>

partial_function (option) dc_drop_dir :: "u64 \<Rightarrow> nat \<Rightarrow> addr option \<Rightarrow> dcache \<Rightarrow> dcache option" where
  "dc_drop_dir parent b pp st =
     (let e = (case pp of None \<Rightarrow> dc_head st b | Some a \<Rightarrow> hash_next (dc_ent st a)) in
      if e = NULL then Some st
      else if parent_cluster (dc_ent st e) = parent
      then let st1 = set_slot b pp (hash_next (dc_ent st e)) st;
               st2 = dc_lru_remove e st1;
               st3 = dc_kfree e st2
           in dc_drop_dir parent b pp (st3\<lparr>dc_entry_count := dc_entry_count st3 - 1\<rparr>)
      else dc_drop_dir parent b (Some e) st)"

declare dc_drop_dir.simps [code]

fun dc_drop_dirs :: "u64 \<Rightarrow> nat list \<Rightarrow> dcache \<Rightarrow> dcache option" where
  "dc_drop_dirs parent [] st = Some st"
| "dc_drop_dirs parent (b # bs) st =
     (case dc_drop_dir parent b None st of None \<Rightarrow> None | Some st1 \<Rightarrow> dc_drop_dirs parent bs st1)"

definition dcache_invalidate_dir :: "u64 \<Rightarrow> dcache \<Rightarrow> dcache option" where
  "dcache_invalidate_dir parent st =
     (if \<not> dc_initialized st then Some st else dc_drop_dirs parent [0..<DC_HASH_BUCKETS] st)"

text \<open>The loop of \<^verbatim>\<open>dcache_invalidate_all\<close> that frees the entries of a bucket.\<close>

partial_function (option) dc_free_chain :: "addr \<Rightarrow> dcache \<Rightarrow> dcache option" where
  "dc_free_chain e st =
     (if e = NULL then Some st
      else let nxt = hash_next (dc_ent st e) in dc_free_chain nxt (dc_kfree e st))"

declare dc_free_chain.simps [code]

fun dc_free_buckets :: "nat list \<Rightarrow> dcache \<Rightarrow> dcache option" where
  "dc_free_buckets [] st = Some st"
| "dc_free_buckets (b # bs) st =
     (case dc_free_chain (dc_head st b) st of None \<Rightarrow> None
      | Some st1 \<Rightarrow> dc_free_buckets bs (st1\<lparr>dc_head := (dc_head st1)(b := 0)\<rparr>))"

definition dcache_invalidate_all :: "dcache \<Rightarrow> dcache option" where
  "dcache_invalidate_all st =
     (if \<not> dc_initialized st then Some st
      else case dc_free_buckets [0..<DC_HASH_BUCKETS] st of None \<Rightarrow> None
        | Some st1 \<Rightarrow>
            let s = dc_lru_sentinel st1;
                st2 = upd_ent s (\<lambda>x. x\<lparr>lru_prev := s\<rparr>) st1;
                st3 = upd_ent s (\<lambda>x. x\<lparr>lru_next := s\<rparr>) st2
            in Some (st3\<lparr>dc_entry_count := 0\<rparr>))"

record dc_stats =
  hits :: u64
  neg_hits :: u64
  misses :: u64
  insertions :: u64
  evictions :: u64
  total_entries :: u64

definition dcache_get_stats :: "dcache \<Rightarrow> dc_stats" where
  "dcache_get_stats st =
     \<lparr>hits = dc_stat_hits st, neg_hits = dc_stat_neg_hits st, misses = dc_stat_misses st,
      insertions = dc_stat_insertions st, evictions = dc_stat_evictions st,
      total_entries = dc_entry_count st\<rparr>"

section \<open>Views of the state\<close>

text \<open>The link fields as maps, and an entry without its links.\<close>

definition nexts :: "dcache \<Rightarrow> addr \<Rightarrow> addr" where "nexts st a = lru_next (dc_ent st a)"
definition prevs :: "dcache \<Rightarrow> addr \<Rightarrow> addr" where "prevs st a = lru_prev (dc_ent st a)"
definition hnexts :: "dcache \<Rightarrow> addr \<Rightarrow> addr" where "hnexts st a = hash_next (dc_ent st a)"

definition unlinked :: "dc_entry \<Rightarrow> dc_entry" where
  "unlinked e = e\<lparr>hash_next := 0, lru_prev := 0, lru_next := 0\<rparr>"

definition body :: "dcache \<Rightarrow> addr \<Rightarrow> dc_entry" where "body st a = unlinked (dc_ent st a)"

lemma body_sel:
  "parent_cluster (dc_ent st a) = parent_cluster (body st a)"
  "name_hash (dc_ent st a) = name_hash (body st a)"
  "dc_name (dc_ent st a) = dc_name (body st a)"
  "dc_flags (dc_ent st a) = dc_flags (body st a)"
  by (simp_all add: body_def unlinked_def)

lemmas views = nexts_def prevs_def hnexts_def body_def unlinked_def

text \<open>What stays the same when only the LRU links change.\<close>

definition same_but_lru :: "dcache \<Rightarrow> dcache \<Rightarrow> bool" where
  "same_but_lru st st' \<longleftrightarrow> hnexts st' = hnexts st \<and> body st' = body st \<and>
     dc_head st' = dc_head st \<and> dc_live st' = dc_live st \<and> dc_lru_sentinel st' = dc_lru_sentinel st \<and>
     dc_entry_count st' = dc_entry_count st \<and> dc_initialized st' = dc_initialized st"

lemma lru_add_views:
  assumes "e \<noteq> dc_lru_sentinel st"
  shows "nexts (dc_lru_add e st) = (nexts st)(e := nexts st (dc_lru_sentinel st), dc_lru_sentinel st := e)"
    and "prevs (dc_lru_add e st) = (prevs st)(e := dc_lru_sentinel st, nexts st (dc_lru_sentinel st) := e)"
    and "same_but_lru st (dc_lru_add e st)"
  using assms
  by (auto simp: fun_eq_iff views same_but_lru_def dc_lru_add_def upd_ent_def Let_def)

lemma lru_remove_views:
  assumes "prevs st e \<noteq> NULL" and "nexts st e \<noteq> NULL" and "prevs st e \<noteq> e" and "nexts st e \<noteq> e"
  shows "nexts (dc_lru_remove e st) = (nexts st)(prevs st e := nexts st e, e := NULL)"
    and "prevs (dc_lru_remove e st) = (prevs st)(nexts st e := prevs st e, e := NULL)"
    and "same_but_lru st (dc_lru_remove e st)"
  using assms
  by (auto simp: fun_eq_iff views same_but_lru_def dc_lru_remove_def upd_ent_def Let_def)

lemma set_slot_views:
  "nexts (set_slot b pp v st) = nexts st" "prevs (set_slot b pp v st) = prevs st"
  "body (set_slot b pp v st) = body st" "dc_live (set_slot b pp v st) = dc_live st"
  "dc_lru_sentinel (set_slot b pp v st) = dc_lru_sentinel st"
  "dc_entry_count (set_slot b pp v st) = dc_entry_count st"
  "dc_initialized (set_slot b pp v st) = dc_initialized st"
  "hnexts (set_slot b pp v st) = (case pp of None \<Rightarrow> hnexts st | Some a \<Rightarrow> (hnexts st)(a := v))"
  "dc_head (set_slot b pp v st) = (case pp of None \<Rightarrow> (dc_head st)(b := v) | Some a \<Rightarrow> dc_head st)"
  by (auto simp: fun_eq_iff views set_slot_def upd_ent_def split: option.split)

section \<open>The specification\<close>

text \<open>A key: the parent directory and the name with letters in lower case.\<close>

definition key :: "dc_entry \<Rightarrow> u64 \<times> cstr" where
  "key e = (parent_cluster e, map dc_lower (dc_name e))"

text \<open>The well-formed entries: the stored hash is that of the stored name.\<close>

definition entry_ok :: "dc_entry \<Rightarrow> bool" where
  "entry_ok e \<longleftrightarrow> name_hash e = dc_name_hash (dc_name e) \<and> 0 \<notin> set (dc_name e) \<and>
     length (dc_name e) \<le> DC_NAME_MAX"

definition bucket_of :: "dc_entry \<Rightarrow> nat" where
  "bucket_of e = dc_bucket_index (parent_cluster e) (name_hash e)"

text \<open>
  The entries \<open>xs\<close> in order of use: they form the LRU ring, bucket \<open>b\<close> chains those that
  hash to \<open>b\<close>, they are the allocated entries and their number is the counter.
\<close>

definition buckets_ok :: "dcache \<Rightarrow> addr list \<Rightarrow> bool" where
  "buckets_ok st xs \<longleftrightarrow>
     hash_buckets DC_HASH_BUCKETS (hnexts st) (dc_head st) (\<lambda>a. bucket_of (body st a)) xs"

definition dc_shape :: "dcache \<Rightarrow> addr list \<Rightarrow> bool" where
  "dc_shape st xs \<longleftrightarrow>
     ring (nexts st) (prevs st) (dc_lru_sentinel st) xs \<and> buckets_ok st xs \<and>
     dc_live st = (\<lambda>a. a \<in> set xs) \<and> dc_entry_count st = of_nat (length xs) \<and>
     length xs \<le> unat DC_MAX_ENTRIES \<and> dc_initialized st"

text \<open>The state implements the list \<open>c\<close> of entries, most recently used first.\<close>

definition dc_rel :: "dcache \<Rightarrow> dc_entry list \<Rightarrow> bool" where
  "dc_rel st c \<longleftrightarrow> (\<exists>xs. dc_shape st xs \<and> c = map (body st) xs) \<and>
     list_all entry_ok c \<and> distinct (map key c)"

section \<open>Names\<close>

lemma dc_lower_idem [simp]: "dc_lower (dc_lower c) = dc_lower c"
proof -
  have "\<not> (0x41 \<le> c + 32 \<and> c + 32 \<le> 0x5A)" if "0x41 \<le> c" "c \<le> 0x5A"
    using that by (simp add: word_le_nat_alt unat_word_ariths)
  then show ?thesis by (auto simp: dc_lower_def)
qed

lemma dc_lower_zero: "dc_lower c = 0 \<longleftrightarrow> c = 0"
proof -
  have "c + 32 \<noteq> 0" if "0x41 \<le> c" "c \<le> 0x5A"
    using that by (auto simp: word_le_nat_alt unat_word_ariths word_unat_eq_iff)
  then show ?thesis by (auto simp: dc_lower_def)
qed

lemma dc_name_hash_lower: "dc_name_hash (map dc_lower s) = dc_name_hash s"
  by (simp add: dc_name_hash_def fold_map comp_def)

lemma dc_name_hash_cong: "map dc_lower s = map dc_lower t \<Longrightarrow> dc_name_hash s = dc_name_hash t"
  by (metis dc_name_hash_lower)

lemma dc_strcasecmp_eq:
  "0 \<notin> set s \<Longrightarrow> 0 \<notin> set t \<Longrightarrow> dc_strcasecmp s t = 0 \<longleftrightarrow> map dc_lower s = map dc_lower t"
proof (induction s t rule: dc_strcasecmp.induct)
  case (1 a as b bs)
  have "sint (dc_lower a) = sint (dc_lower b) \<longleftrightarrow> dc_lower a = dc_lower b"
    by (metis signed_word_eqI)
  then show ?case using 1 by auto
qed (auto simp: uint_0_iff)

lemma dc_bucket_index_less: "dc_bucket_index p nh < DC_HASH_BUCKETS"
proof -
  have m: "DC_HASH_MASK = mask 10" by (simp add: DC_HASH_MASK_def mask_eq_exp_minus_1)
  show ?thesis
    unfolding dc_bucket_index_def DC_HASH_BUCKETS_def m unat_and_mask by simp
qed

text \<open>A search in a bucket finds the entry with the key and no other.\<close>

lemma dc_match_key:
  assumes "entry_ok (body st a)" and "0 \<notin> set name"
  shows "dc_match st parent (dc_name_hash name) name a \<longleftrightarrow>
    key (body st a) = (parent, map dc_lower name)"
proof -
  have n: "0 \<notin> set (dc_name (dc_ent st a))"
    and h: "name_hash (dc_ent st a) = dc_name_hash (dc_name (dc_ent st a))"
    using assms(1) by (simp_all add: entry_ok_def views)
  show ?thesis
    using dc_strcasecmp_eq [OF n assms(2)] h dc_name_hash_cong [of "dc_name (dc_ent st a)" name]
    by (auto simp: dc_match_def key_def views)
qed

lemma bucket_of_key:
  assumes "entry_ok e" and "key e = (parent, map dc_lower name)"
  shows "bucket_of e = dc_bucket_index parent (dc_name_hash name)"
  using assms dc_name_hash_cong [of "dc_name e" name] by (simp add: bucket_of_def key_def entry_ok_def)

section \<open>Removing an entry\<close>

lemma buckets_ok_cong:
  assumes "hnexts st' = hnexts st" and "dc_head st' = dc_head st" and "body st' = body st"
  shows "buckets_ok st' xs \<longleftrightarrow> buckets_ok st xs"
  unfolding buckets_ok_def assms ..

lemma buckets_set:
  assumes "buckets_ok st xs" and "b < DC_HASH_BUCKETS" and "chained (hnexts st) (dc_head st b) cs"
  shows "set cs = {a \<in> set xs. bucket_of (body st a) = b}"
  by (rule hash_buckets_set [OF assms(1) [unfolded buckets_ok_def] assms(2,3)])

lemma unlink_chain:
  assumes ok: "buckets_ok st xs" and d: "distinct xs" and b: "b < DC_HASH_BUCKETS"
    and ch: "chained (hnexts st) (dc_head st b) (us @ x # vs)"
    and pp: "pp = (if us = [] then None else Some (last us))"
  defines "st' \<equiv> set_slot b pp (hnexts st x) st"
  shows "chained (hnexts st') (dc_head st' b) (us @ vs)"
    and "buckets_ok st' (remove1 x xs)"
  using hash_buckets_unlink [OF ok [unfolded buckets_ok_def] d b ch pp refl refl]
  by (simp_all add: buckets_ok_def st'_def set_slot_views)

text \<open>
  Taking entry \<open>x\<close> out of the ring and out of its chain, in either order, freeing it and
  counting down.
\<close>

lemma shape_removed:
  assumes sh: "dc_shape st xs" and x: "x \<in> set xs"
    and ring_n: "nexts st' = (nexts st)(prevs st x := nexts st x, x := NULL)"
    and ring_p: "prevs st' = (prevs st)(nexts st x := prevs st x, x := NULL)"
    and bk: "buckets_ok st' (remove1 x xs)"
    and rest: "dc_live st' = (dc_live st)(x := False)" "dc_entry_count st' = dc_entry_count st - 1"
      "dc_lru_sentinel st' = dc_lru_sentinel st" "dc_initialized st' = dc_initialized st"
  shows "dc_shape st' (remove1 x xs)"
proof -
  have r: "ring (nexts st) (prevs st) (dc_lru_sentinel st) xs" using sh by (simp add: dc_shape_def)
  have d: "distinct xs" using r by (simp add: ring_def)
  have l: "length xs = Suc (length (remove1 x xs))"
    using x length_pos_if_in_set [OF x] by (simp add: length_remove1)
  have "dc_live st' = (\<lambda>a. a \<in> set (remove1 x xs))"
    using sh d by (auto simp: rest dc_shape_def fun_eq_iff)
  moreover have "dc_entry_count st' = of_nat (length (remove1 x xs))"
    using sh l by (simp add: rest dc_shape_def)
  ultimately show ?thesis
    using sh ring_remove1(1) [OF r x] bk l by (simp add: dc_shape_def ring_n ring_p rest)
qed

lemma lru_remove_shape:
  assumes "dc_shape st xs" and "x \<in> set xs"
  shows "nexts (dc_lru_remove x st) = (nexts st)(prevs st x := nexts st x, x := NULL)"
    and "prevs (dc_lru_remove x st) = (prevs st)(nexts st x := prevs st x, x := NULL)"
    and "same_but_lru st (dc_lru_remove x st)"
  using lru_remove_views ring_remove1 [of "nexts st" "prevs st" "dc_lru_sentinel st" xs x] assms
  by (simp_all add: dc_shape_def)

lemma bucket_of_less: "bucket_of e < DC_HASH_BUCKETS"
  by (simp add: bucket_of_def dc_bucket_index_less)

lemma buckets_chain:
  assumes "buckets_ok st xs" and "x \<in> set xs" and "b = bucket_of (body st x)"
  obtains us vs where "chained (hnexts st) (dc_head st b) (us @ x # vs)"
    and "set (us @ x # vs) = {a \<in> set xs. bucket_of (body st a) = b}" and "b < DC_HASH_BUCKETS"
  by (rule hash_buckets_split [OF assms(1) [unfolded buckets_ok_def] assms(2) bucket_of_less])
    (use that assms(3) bucket_of_less in blast)

text \<open>One step of the loops that remove entries of a bucket: node \<open>x\<close> follows the nodes \<open>us\<close>.\<close>

lemma drop_node:
  assumes sh: "dc_shape st xs" and b: "b < DC_HASH_BUCKETS"
    and ch: "chained (hnexts st) (dc_head st b) (us @ x # vs)"
    and pp: "pp = (if us = [] then None else Some (last us))"
  defines "st1 \<equiv> set_slot b pp (hnexts st x) st"
  defines "st3 \<equiv> dc_kfree x (dc_lru_remove x st1)"
  defines "st4 \<equiv> st3\<lparr>dc_entry_count := dc_entry_count st3 - 1\<rparr>"
  shows "dc_shape st4 (remove1 x xs)" and "chained (hnexts st4) (dc_head st4 b) (us @ vs)"
    and "body st4 = body st" and "x \<in> set xs" and "dc_lru_sentinel st4 = dc_lru_sentinel st"
proof -
  have bk: "buckets_ok st xs" and r: "ring (nexts st) (prevs st) (dc_lru_sentinel st) xs"
    using sh by (simp_all add: dc_shape_def)
  have d: "distinct xs" using r by (simp add: ring_def)
  show x: "x \<in> set xs" using buckets_set [OF bk b ch] by auto
  have v1: "nexts st1 = nexts st" "prevs st1 = prevs st" by (simp_all add: st1_def set_slot_views)
  note lv = lru_remove_views [of st1 x, unfolded v1, OF ring_remove1(2-5) [OF r x]]
  have v4: "nexts st4 = nexts (dc_lru_remove x st1)" "prevs st4 = prevs (dc_lru_remove x st1)"
    "hnexts st4 = hnexts (dc_lru_remove x st1)" "body st4 = body (dc_lru_remove x st1)"
    by (simp_all add: fun_eq_iff views st4_def st3_def dc_kfree_def)
  have r4: "hnexts st4 = hnexts st1" "body st4 = body st" "dc_head st4 = dc_head st1"
    "dc_live st4 = (dc_live st)(x := False)" "dc_entry_count st4 = dc_entry_count st - 1"
    "dc_lru_sentinel st4 = dc_lru_sentinel st" "dc_initialized st4 = dc_initialized st"
    using lv(3) v4
    by (simp_all add: same_but_lru_def st4_def st3_def dc_kfree_def st1_def set_slot_views)
  show "body st4 = body st" "dc_lru_sentinel st4 = dc_lru_sentinel st" by (rule r4)+
  note uc = unlink_chain [OF bk d b ch pp, folded st1_def]
  have "buckets_ok st4 (remove1 x xs)"
    using uc(2) buckets_ok_cong [of st4 st1] r4 by (simp add: st1_def set_slot_views)
  then show "dc_shape st4 (remove1 x xs)" using shape_removed [OF sh x] lv v4 r4 by simp
  show "chained (hnexts st4) (dc_head st4 b) (us @ vs)" using uc(1) r4 by simp
qed

lemma rel_remove1:
  assumes "c = map (body st) xs" and "distinct (map key c)" and "x \<in> set xs" and "key (body st x) = k"
  shows "map (body st) (remove1 x xs) = filter (\<lambda>e. key e \<noteq> k) c"
  using assms
proof (induction xs arbitrary: c)
  case (Cons y ys)
  show ?case
  proof (cases "x = y")
    case True
    then have "\<forall>e \<in> set (map (body st) ys). key e \<noteq> k" using Cons.prems by (auto simp: image_iff)
    then have "filter (\<lambda>e. key e \<noteq> k) (map (body st) ys) = map (body st) ys"
      by (simp add: filter_id_conv)
    then show ?thesis using True Cons.prems by simp
  next
    case False
    then have "key (body st y) \<noteq> k" using Cons.prems by auto
    then show ?thesis using Cons False by simp
  qed
qed simp

lemma rel_cong:
  assumes "dc_rel st c" and "nexts st' = nexts st" and "prevs st' = prevs st" and "same_but_lru st st'"
  shows "dc_rel st' c"
  using assms buckets_ok_cong [of st' st]
  by (simp add: dc_rel_def dc_shape_def same_but_lru_def)

text \<open>\<^verbatim>\<open>dc_remove_existing\<close>: the entry with the key, if there is one, is gone.\<close>

lemma remove_existing_refines:
  assumes rel: "dc_rel st c" and nm: "0 \<notin> set name"
  shows "\<exists>st'. dc_remove_existing parent name (dc_name_hash name)
      (dc_bucket_index parent (dc_name_hash name)) st = Some st' \<and>
    dc_rel st' (filter (\<lambda>e. key e \<noteq> (parent, map dc_lower name)) c) \<and>
    dc_lru_sentinel st' = dc_lru_sentinel st"
proof -
  let ?nh = "dc_name_hash name" and ?k = "(parent, map dc_lower name)"
  define b where "b = dc_bucket_index parent ?nh"
  define P where "P = dc_match st parent ?nh name"
  obtain xs where sh: "dc_shape st xs" and c: "c = map (body st) xs"
    and ok: "list_all entry_ok c" and dk: "distinct (map key c)"
    using rel by (auto simp: dc_rel_def)
  have bk: "buckets_ok st xs" and d: "distinct xs" using sh by (simp_all add: dc_shape_def ring_def)
  have b: "b < DC_HASH_BUCKETS" by (simp add: b_def dc_bucket_index_less)
  have P: "P a \<longleftrightarrow> key (body st a) = ?k" if "a \<in> set xs" for a
    using that ok by (simp add: P_def c list_all_iff dc_match_key nm)
  have hn: "(\<lambda>a. hash_next (dc_ent st a)) = hnexts st" by (simp add: hnexts_def fun_eq_iff)
  show ?thesis
  proof (cases "\<exists>x \<in> set xs. key (body st x) = ?k")
    case False
    obtain cs where cs: "chained (hnexts st) (dc_head st b) cs" "set cs \<subseteq> set xs"
      using bk b by (auto simp: buckets_ok_def hash_buckets_def)
    then obtain pp where "find_slot (hnexts st) P None (dc_head st b) = Some (pp, NULL)"
      using find_slot_none [OF cs(1), of P None] P False by blast
    then have "dc_remove_existing parent name ?nh b st = Some st"
      by (simp add: dc_remove_existing_def hn P_def)
    moreover have "filter (\<lambda>e. key e \<noteq> ?k) c = c" using False c by (auto simp: filter_id_conv)
    ultimately show ?thesis using rel b_def by simp
  next
    case True
    then obtain x where x: "x \<in> set xs" and k: "key (body st x) = ?k" by blast
    have bx: "b = bucket_of (body st x)"
      using bucket_of_key [OF _ k] ok x by (simp add: b_def c list_all_iff)
    obtain us vs where ch: "chained (hnexts st) (dc_head st b) (us @ x # vs)"
      and set_b: "set (us @ x # vs) = {a \<in> set xs. bucket_of (body st a) = b}"
      by (rule buckets_chain [OF bk x bx])
    have uniq: "y = x" if "y \<in> set xs" "P y" for y
      using that P k x dk by (simp add: c distinct_map inj_on_def)
    have us: "\<not> P y" if "y \<in> set us" for y
      using uniq [of y] that set_b chained_distinct [OF ch] by auto
    define pp where "pp = (if us = [] then None else Some (last us))"
    have fs: "find_slot (hnexts st) P None (dc_head st b) = Some (pp, x)"
      unfolding pp_def by (rule find_slot_found [OF ch _ us]) (use P x k in auto)
    define st1 where "st1 = set_slot b pp (hnexts st x) st"
    define st3 where "st3 = dc_kfree x (dc_lru_remove x st1)"
    define st4 where "st4 = st3\<lparr>dc_entry_count := dc_entry_count st3 - 1\<rparr>"
    note dn = drop_node [OF sh b ch pp_def, folded st1_def, folded st3_def, folded st4_def]
    have x0: "x \<noteq> NULL" using chained_not_null [OF ch] by auto
    have run: "dc_remove_existing parent name ?nh b st = Some st4"
      using fs x0
      by (simp add: dc_remove_existing_def hn P_def Let_def st1_def st3_def st4_def hnexts_def)
    have "dc_shape st4 (remove1 x xs)" by (rule dn(1))
    moreover have "map (body st4) (remove1 x xs) = filter (\<lambda>e. key e \<noteq> ?k) c"
      using rel_remove1 [OF c dk x k] dn(3) by simp
    moreover have "list_all entry_ok (filter (\<lambda>e. key e \<noteq> ?k) c)"
      "distinct (map key (filter (\<lambda>e. key e \<noteq> ?k) c))"
      using ok dk by (auto simp: list_all_iff intro: distinct_map_filter)
    ultimately have "dc_rel st4 (filter (\<lambda>e. key e \<noteq> ?k) c)"
      unfolding dc_rel_def by metis
    then show ?thesis using run dn(5) b_def by auto
  qed
qed

text \<open>\<^verbatim>\<open>dc_evict_one\<close>: the least recently used entry is gone.\<close>

lemma butlast_remove1: "distinct xs \<Longrightarrow> xs \<noteq> [] \<Longrightarrow> remove1 (last xs) xs = butlast xs"
  by (cases xs rule: rev_cases) (auto simp: remove1_append)

lemma evict_refines:
  assumes rel: "dc_rel st c" and ne: "c \<noteq> []"
  shows "\<exists>st'. dc_evict_one st = Some st' \<and> dc_rel st' (butlast c) \<and>
    dc_lru_sentinel st' = dc_lru_sentinel st"
proof -
  obtain xs where sh: "dc_shape st xs" and c: "c = map (body st) xs"
    and ok: "list_all entry_ok c" and dk: "distinct (map key c)"
    using rel by (auto simp: dc_rel_def)
  let ?s = "dc_lru_sentinel st"
  have bk: "buckets_ok st xs" and r: "ring (nexts st) (prevs st) ?s xs"
    using sh by (simp_all add: dc_shape_def)
  have d: "distinct (?s # xs)" using r by (simp add: ring_def)
  have xs: "xs \<noteq> []" using ne c by simp
  define x where "x = last xs"
  have x: "x \<in> set xs" by (simp add: x_def xs)
  have victim: "lru_prev (dc_ent st ?s) = x" "x \<noteq> ?s"
    using ring_last [OF r] xs d x by (auto simp: prevs_def x_def [symmetric])
  define b where "b = bucket_of (body st x)"
  obtain us vs where ch: "chained (hnexts st) (dc_head st b) (us @ x # vs)"
    and b: "b < DC_HASH_BUCKETS"
    by (rule buckets_chain [OF bk x b_def])
  define pp where "pp = (if us = [] then None else Some (last us))"
  define st1 where "st1 = dc_lru_remove x st"
  note lv = lru_remove_shape [OF sh x, folded st1_def]
  have h1: "hnexts st1 = hnexts st" "dc_head st1 = dc_head st" "body st1 = body st"
    using lv(3) by (simp_all add: same_but_lru_def)
  have hn: "(\<lambda>a. hash_next (dc_ent st1 a)) = hnexts st" using h1(1) by (simp add: hnexts_def fun_eq_iff)
  have "\<forall>y \<in> set us. y \<noteq> x" using chained_distinct [OF ch] by auto
  then have fs: "find_slot (hnexts st) (\<lambda>a. a = x) None (dc_head st b) = Some (pp, x)"
    unfolding pp_def by (intro find_slot_found [OF ch]) auto
  have bi: "dc_bucket_index (parent_cluster (dc_ent st1 x)) (name_hash (dc_ent st1 x)) = b"
    by (simp add: b_def bucket_of_def body_sel h1)
  have x0: "x \<noteq> NULL" using chained_not_null [OF ch] by auto
  define st2 where "st2 = set_slot b pp (hnexts st1 x) st1"
  define st4 where "st4 = (dc_kfree x st2)\<lparr>dc_entry_count := dc_entry_count (dc_kfree x st2) - 1,
    dc_stat_evictions := dc_stat_evictions (dc_kfree x st2) + 1\<rparr>"
  have run: "dc_evict_one st = Some st4"
    using victim fs x0
    by (simp add: dc_evict_one_def dc_evict_pick_def dc_evict_finish_def Let_def st1_def [symmetric] bi hn h1 st2_def
        st4_def hnexts_def [symmetric])
  have v4: "nexts st4 = nexts st1" "prevs st4 = prevs st1" "hnexts st4 = hnexts st2"
    "body st4 = body st" "dc_head st4 = dc_head st2" "dc_live st4 = (dc_live st)(x := False)"
    "dc_entry_count st4 = dc_entry_count st - 1" "dc_lru_sentinel st4 = ?s"
    "dc_initialized st4 = dc_initialized st" "body st2 = body st"
    using lv(3) by (auto simp: fun_eq_iff views st4_def dc_kfree_def st2_def same_but_lru_def
        set_slot_def upd_ent_def split: option.split)
  have "buckets_ok st2 (remove1 x xs)"
    unfolding st2_def
    by (rule unlink_chain(2) [of st1, OF _ _ b _ pp_def])
      (use bk buckets_ok_cong [OF h1] d ch h1 in auto)
  then have "buckets_ok st4 (remove1 x xs)" using buckets_ok_cong [of st4 st2] v4 by simp
  then have "dc_shape st4 (remove1 x xs)" using shape_removed [OF sh x] lv v4 by simp
  moreover have "butlast c = map (body st4) (remove1 x xs)"
    using butlast_remove1 [of xs] xs d by (simp add: c v4 x_def map_butlast)
  moreover have "list_all entry_ok (butlast c)" "distinct (map key (butlast c))"
    using ok dk by (auto simp: list_all_iff map_butlast distinct_butlast dest: in_set_butlastD)
  ultimately have "dc_rel st4 (butlast c)" unfolding dc_rel_def by metis
  then show ?thesis using run v4(8) by auto
qed

lemma rel_count:
  assumes "dc_rel st c"
  shows "dc_entry_count st \<ge> DC_MAX_ENTRIES \<longleftrightarrow> length c = 4096" and "length c \<le> 4096"
proof -
  have l: "dc_entry_count st = of_nat (length c)" "length c \<le> 4096"
    using assms by (auto simp: dc_rel_def dc_shape_def DC_MAX_ENTRIES_def)
  then have "unat (dc_entry_count st) = length c" by (simp add: unat_of_nat)
  then show "dc_entry_count st \<ge> DC_MAX_ENTRIES \<longleftrightarrow> length c = 4096" and "length c \<le> 4096"
    using l(2) by (auto simp: DC_MAX_ENTRIES_def word_le_nat_alt)
qed

lemma make_room_refines:
  assumes rel: "dc_rel st c"
  shows "\<exists>st'. dc_make_room st = Some st' \<and> dc_rel st' (take 4095 c) \<and>
    dc_lru_sentinel st' = dc_lru_sentinel st"
proof (cases "length c = 4096")
  case False
  then show ?thesis
    using rel rel_count [OF rel] by (subst dc_make_room.simps) simp
next
  case True
  then obtain st' where st': "dc_evict_one st = Some st'" "dc_rel st' (butlast c)"
    "dc_lru_sentinel st' = dc_lru_sentinel st"
    using evict_refines [OF rel] by (cases c) auto
  have "dc_make_room st' = Some st'"
    using rel_count [OF st'(2)] True by (subst dc_make_room.simps) simp
  then show ?thesis
    using st' rel_count(1) [OF rel] True
    by (subst dc_make_room.simps) (simp add: butlast_conv_take)
qed

section \<open>Lookup and insertion\<close>

lemma buckets_ok_set: "set ys = set xs \<Longrightarrow> buckets_ok st ys \<longleftrightarrow> buckets_ok st xs"
  unfolding buckets_ok_def by (rule hash_buckets_cong)

lemma touch_shape:
  assumes sh: "dc_shape st xs" and x: "x \<in> set xs"
  shows "dc_shape (dc_lru_touch x st) (x # remove1 x xs)"
    and "same_but_lru st (dc_lru_touch x st)"
proof -
  define st1 where "st1 = dc_lru_remove x st"
  have r: "ring (nexts st) (prevs st) (dc_lru_sentinel st) xs" using sh by (simp add: dc_shape_def)
  note lv = lru_remove_shape [OF sh x, folded st1_def]
  have s1: "dc_lru_sentinel st1 = dc_lru_sentinel st" using lv(3) by (simp add: same_but_lru_def)
  have r1: "ring (nexts st1) (prevs st1) (dc_lru_sentinel st1) (remove1 x xs)"
    using ring_remove1(1) [OF r x] lv s1 by simp
  have d: "distinct (dc_lru_sentinel st # xs)" "x \<noteq> NULL" using r x by (auto simp: ring_def)
  have xs: "x \<notin> set (dc_lru_sentinel st1 # remove1 x xs)" using d x s1 by auto
  then have ne: "x \<noteq> dc_lru_sentinel st1" by simp
  note av = lru_add_views [OF ne]
  have t: "dc_lru_touch x st = dc_lru_add x st1" by (simp add: dc_lru_touch_def st1_def)
  show sb: "same_but_lru st (dc_lru_touch x st)"
    using lv(3) av(3) by (simp add: t same_but_lru_def)
  have "ring (nexts (dc_lru_touch x st)) (prevs (dc_lru_touch x st)) (dc_lru_sentinel st1) (x # remove1 x xs)"
    using ring_push [OF r1 xs d(2)] av by (simp add: t)
  moreover have "set (x # remove1 x xs) = set xs" "length (x # remove1 x xs) = length xs"
    using d x length_pos_if_in_set [OF x] by (auto simp: length_remove1)
  moreover have "buckets_ok (dc_lru_touch x st) xs"
    using sh sb buckets_ok_cong [of "dc_lru_touch x st" st] by (simp add: dc_shape_def same_but_lru_def)
  ultimately show "dc_shape (dc_lru_touch x st) (x # remove1 x xs)"
    using sh sb s1 buckets_ok_set [of "x # remove1 x xs" xs]
    by (simp add: dc_shape_def same_but_lru_def)
qed

text \<open>Statistics are not part of the relation.\<close>

lemma rel_stats [simp]:
  "dc_rel (st\<lparr>dc_stat_hits := v\<rparr>) c \<longleftrightarrow> dc_rel st c"
  "dc_rel (st\<lparr>dc_stat_neg_hits := v\<rparr>) c \<longleftrightarrow> dc_rel st c"
  "dc_rel (st\<lparr>dc_stat_misses := v\<rparr>) c \<longleftrightarrow> dc_rel st c"
  by (simp_all add: dc_rel_def dc_shape_def buckets_ok_def views [abs_def])

lemma lookup_refines:
  fixes parent :: u64
  assumes rel: "dc_rel st c" and nm: "0 \<notin> set name"
  defines "k \<equiv> (parent, map dc_lower name)"
  shows "\<exists>e st'. dcache_lookup parent (Some name) st = Some (e, st') \<and>
    (case find (\<lambda>x. key x = k) c of
       None \<Rightarrow> e = NULL \<and> dc_rel st' c
     | Some x \<Rightarrow> e \<noteq> NULL \<and> body st' e = x \<and> dc_rel st' (x # filter (\<lambda>x. key x \<noteq> k) c))"
proof -
  let ?nh = "dc_name_hash name"
  define b where "b = dc_bucket_index parent ?nh"
  define P where "P = dc_match st parent ?nh name"
  obtain xs where sh: "dc_shape st xs" and c: "c = map (body st) xs"
    and ok: "list_all entry_ok c" and dk: "distinct (map key c)"
    using rel by (auto simp: dc_rel_def)
  have bk: "buckets_ok st xs" and ini: "dc_initialized st" using sh by (simp_all add: dc_shape_def)
  have P: "P a \<longleftrightarrow> key (body st a) = k" if "a \<in> set xs" for a
    using that ok by (simp add: P_def c list_all_iff dc_match_key nm k_def)
  have b: "b < DC_HASH_BUCKETS" by (simp add: b_def dc_bucket_index_less)
  obtain cs where cs: "chained (hnexts st) (dc_head st b) cs"
    and set_cs: "set cs = {a \<in> set xs. bucket_of (body st a) = b}"
    using bk b by (auto simp: buckets_ok_def hash_buckets_def)
  have hn: "(\<lambda>a. hash_next (dc_ent st a)) = hnexts st" by (simp add: hnexts_def fun_eq_iff)
  note fn = find_node_chained [OF cs, of P]
  show ?thesis
  proof (cases "\<exists>x \<in> set xs. key (body st x) = k")
    case False
    then have "find P cs = None" using set_cs P by (auto simp: find_None_iff)
    moreover have "find (\<lambda>x. key x = k) c = None" using False by (auto simp: c find_None_iff)
    ultimately show ?thesis
      using fn rel ini by (simp add: dcache_lookup_def hn Let_def b_def [symmetric] P_def [symmetric])
  next
    case True
    then obtain x where x: "x \<in> set xs" and kx: "key (body st x) = k" by blast
    have uniq: "y = x" if "y \<in> set xs" "key (body st y) = k" for y
      using that kx x dk by (simp add: c distinct_map inj_on_def)
    have "b = bucket_of (body st x)"
      using bucket_of_key [of "body st x" parent name] kx ok x by (simp add: b_def c list_all_iff k_def)
    then have "x \<in> set cs" using set_cs x by simp
    then have "find P cs \<noteq> None" using P x kx by (auto simp: find_None_iff)
    moreover have "y = x" if "find P cs = Some y" for y
      using that P uniq set_cs by (auto simp: find_Some_iff) (metis (mono_tags, lifting) mem_Collect_eq nth_mem)
    ultimately have f: "find P cs = Some x" by auto
    have "find (\<lambda>x. key x = k) c \<noteq> None" using x kx by (auto simp: c find_None_iff)
    moreover have "y = body st x" if y: "find (\<lambda>x. key x = k) c = Some y" for y
    proof -
      obtain i where "i < length xs" "key (body st (xs ! i)) = k" "y = body st (xs ! i)"
        using y by (auto simp: c find_Some_iff)
      then show ?thesis using uniq [of "xs ! i"] by simp
    qed
    ultimately have fc: "find (\<lambda>x. key x = k) c = Some (body st x)" by auto
    have x0: "x \<noteq> NULL" using sh x by (auto simp: dc_shape_def ring_def)
    define st1 where "st1 = dc_lru_touch x st"
    note t = touch_shape [OF sh x, folded st1_def]
    have b1: "body st1 = body st" using t(2) by (simp add: same_but_lru_def)
    have m: "map (body st1) (x # remove1 x xs) = body st x # filter (\<lambda>x. key x \<noteq> k) c"
      using rel_remove1 [OF c dk x kx] b1 by simp
    have "list_all entry_ok (body st x # filter (\<lambda>x. key x \<noteq> k) c)"
      "distinct (map key (body st x # filter (\<lambda>x. key x \<noteq> k) c))"
      using ok x dk kx by (auto simp: c list_all_iff distinct_map_filter)
    then have "dc_rel st1 (body st x # filter (\<lambda>x. key x \<noteq> k) c)"
      unfolding dc_rel_def using t(1) m by metis
    moreover have "body (st1\<lparr>dc_stat_hits := v\<rparr>) = body st" "body (st1\<lparr>dc_stat_neg_hits := v\<rparr>) = body st" for v
      using b1 by (simp_all add: body_def [abs_def])
    ultimately show ?thesis
      using fn f fc x0 ini
      by (auto simp: dcache_lookup_def hn Let_def b_def [symmetric] P_def [symmetric] st1_def [symmetric])
  qed
qed

lemma link_views:
  fixes b :: nat and y :: dc_entry
  assumes "e \<noteq> dc_lru_sentinel st"
  defines "st' \<equiv> dc_link b e (upd_ent e (\<lambda>_. y) (st\<lparr>dc_live := (dc_live st)(e := True)\<rparr>))"
  shows "nexts st' = (nexts st)(e := nexts st (dc_lru_sentinel st), dc_lru_sentinel st := e)"
    and "prevs st' = (prevs st)(e := dc_lru_sentinel st, nexts st (dc_lru_sentinel st) := e)"
    and "hnexts st' = (hnexts st)(e := dc_head st b)"
    and "body st' = (body st)(e := unlinked y)"
    and "dc_head st' = (dc_head st)(b := e)"
    and "dc_live st' = (dc_live st)(e := True)"
    and "dc_entry_count st' = dc_entry_count st + 1"
    and "dc_lru_sentinel st' = dc_lru_sentinel st"
    and "dc_initialized st' = dc_initialized st"
proof -
  define sa where "sa = (upd_ent e (\<lambda>_. y\<lparr>hash_next := dc_head st b\<rparr>)
    (st\<lparr>dc_live := (dc_live st)(e := True)\<rparr>))\<lparr>dc_head := (dc_head st)(b := e)\<rparr>"
  have va: "nexts sa = (nexts st)(e := lru_next y)" "prevs sa = (prevs st)(e := lru_prev y)"
    "hnexts sa = (hnexts st)(e := dc_head st b)" "body sa = (body st)(e := unlinked y)"
    "dc_head sa = (dc_head st)(b := e)" "dc_live sa = (dc_live st)(e := True)"
    "dc_entry_count sa = dc_entry_count st" "dc_lru_sentinel sa = dc_lru_sentinel st"
    "dc_initialized sa = dc_initialized st"
    by (auto simp: fun_eq_iff views sa_def upd_ent_def)
  have st': "st' = (dc_lru_add e sa)\<lparr>dc_entry_count := dc_entry_count (dc_lru_add e sa) + 1,
      dc_stat_insertions := dc_stat_insertions (dc_lru_add e sa) + 1\<rparr>"
    by (simp add: st'_def dc_link_def Let_def upd_ent_def sa_def)
  have w: "nexts st' = nexts (dc_lru_add e sa)" "prevs st' = prevs (dc_lru_add e sa)"
    "hnexts st' = hnexts (dc_lru_add e sa)" "body st' = body (dc_lru_add e sa)"
    by (simp_all add: st' views [abs_def])
  note av = lru_add_views [of e sa, unfolded va(8), OF assms(1)]
  show "nexts st' = (nexts st)(e := nexts st (dc_lru_sentinel st), dc_lru_sentinel st := e)"
    and "prevs st' = (prevs st)(e := dc_lru_sentinel st, nexts st (dc_lru_sentinel st) := e)"
    using assms(1) by (simp_all add: w av va)
  show "hnexts st' = (hnexts st)(e := dc_head st b)" "body st' = (body st)(e := unlinked y)"
    "dc_head st' = (dc_head st)(b := e)" "dc_live st' = (dc_live st)(e := True)"
    "dc_entry_count st' = dc_entry_count st + 1" "dc_lru_sentinel st' = dc_lru_sentinel st"
    "dc_initialized st' = dc_initialized st"
    using av(3) va by (simp_all add: w same_but_lru_def) (simp_all add: st')
qed

lemma link_refines:
  assumes rel: "dc_rel st c" and len: "length c < 4096"
    and e: "e \<noteq> NULL" "\<not> dc_live st e" "e \<noteq> dc_lru_sentinel st"
    and y: "entry_ok (unlinked y)" "key (unlinked y) \<notin> set (map key c)"
    and b: "b = bucket_of (unlinked y)"
  shows "dc_rel (dc_link b e (upd_ent e (\<lambda>_. y) (st\<lparr>dc_live := (dc_live st)(e := True)\<rparr>)))
    (unlinked y # c)"
proof -
  obtain xs where sh: "dc_shape st xs" and c: "c = map (body st) xs"
    and ok: "list_all entry_ok c" and dk: "distinct (map key c)"
    using rel by (auto simp: dc_rel_def)
  define st' where "st' = dc_link b e (upd_ent e (\<lambda>_. y) (st\<lparr>dc_live := (dc_live st)(e := True)\<rparr>))"
  note v = link_views [OF e(3), of b y, folded st'_def]
  have r: "ring (nexts st) (prevs st) (dc_lru_sentinel st) xs" and bk: "buckets_ok st xs"
    using sh by (simp_all add: dc_shape_def)
  have en: "e \<notin> set xs" using e(2) sh by (simp add: dc_shape_def)
  have be: "bucket_of (body st' e) = b" by (simp add: v b)
  have "bucket_of (body st' a) = bucket_of (body st a)" if "a \<in> set xs" for a
    using that en by (auto simp: v)
  then have "hash_buckets DC_HASH_BUCKETS ((hnexts st)(e := dc_head st (bucket_of (body st' e))))
      ((dc_head st)(bucket_of (body st' e) := e)) (\<lambda>a. bucket_of (body st' a)) (e # xs)"
    by (intro hash_buckets_push [OF bk [unfolded buckets_ok_def]] e(1) en bucket_of_less)
  then have "buckets_ok st' (e # xs)" unfolding buckets_ok_def v(3,5) be .
  moreover have "ring (nexts st') (prevs st') (dc_lru_sentinel st') (e # xs)"
    using ring_push [OF r, of e] en e by (simp add: v)
  ultimately have "dc_shape st' (e # xs)"
    using sh en len by (auto simp: dc_shape_def v c fun_eq_iff DC_MAX_ENTRIES_def)
  moreover have "unlinked y # c = map (body st') (e # xs)" using en by (auto simp: v c)
  ultimately show ?thesis unfolding st'_def [symmetric] dc_rel_def using ok dk y by auto
qed

text \<open>The contract of \<^verbatim>\<open>kalloc\<close>: a non-null result is not in use.\<close>

definition kalloc_fresh :: "(dcache \<Rightarrow> addr) \<Rightarrow> bool" where
  "kalloc_fresh kalloc \<longleftrightarrow>
     (\<forall>st. kalloc st \<noteq> NULL \<longrightarrow> \<not> dc_live st (kalloc st) \<and> kalloc st \<noteq> dc_lru_sentinel st)"

definition new_entry :: "u64 \<Rightarrow> cstr \<Rightarrow> dc_entry" where
  "new_entry parent name =
     zero_entry\<lparr>parent_cluster := parent, name_hash := dc_name_hash name, dc_name := name\<rparr>"

text \<open>Both insertions, with the payload set by \<open>f\<close>.\<close>

lemma insert_refines:
  fixes parent :: u64
  assumes rel: "dc_rel st c" and nm: "0 \<notin> set name" "length name \<le> DC_NAME_MAX"
    and fresh: "kalloc_fresh kalloc"
    and f: "\<And>x. parent_cluster (f x) = parent_cluster x \<and> name_hash (f x) = name_hash x \<and>
      dc_name (f x) = dc_name x \<and> unlinked (f x) = f (unlinked x)"
  defines "k \<equiv> (parent, map dc_lower name)"
  defines "nh \<equiv> dc_name_hash name"
  defines "b \<equiv> dc_bucket_index parent nh"
  defines "c1 \<equiv> take 4095 (filter (\<lambda>x. key x \<noteq> k) c)"
  shows "\<exists>st0 st1 e st2. dc_remove_existing parent name nh b st = Some st0 \<and> dc_rel st1 c1 \<and>
    dc_alloc_entry kalloc parent name nh st0 = Some (e, st2) \<and> e = kalloc st1 \<and>
    (if e = NULL then st2 = st1
     else dc_rel (dc_link b e (upd_ent e f st2)) (f (new_entry parent name) # c1))"
proof -
  obtain st0 where st0: "dc_remove_existing parent name nh b st = Some st0"
    "dc_rel st0 (filter (\<lambda>x. key x \<noteq> k) c)"
    using remove_existing_refines [OF rel nm(1), of parent] by (auto simp: k_def nh_def b_def)
  obtain st1 where st1: "dc_make_room st0 = Some st1" "dc_rel st1 c1"
    using make_room_refines [OF st0(2)] by (auto simp: c1_def)
  define e where "e = kalloc st1"
  show ?thesis
  proof (cases "e = NULL")
    case True
    then show ?thesis using st0 st1 by (auto simp: dc_alloc_entry_def e_def)
  next
    case False
    have fr: "\<not> dc_live st1 e" "e \<noteq> dc_lru_sentinel st1"
      using fresh False by (auto simp: kalloc_fresh_def e_def)
    define stl where "stl = st1\<lparr>dc_live := (dc_live st1)(e := True)\<rparr>"
    define st2 where "st2 = upd_ent e (\<lambda>_. new_entry parent name) stl"
    have run: "dc_alloc_entry kalloc parent name nh st0 = Some (e, st2)"
      using st1(1) False nm(2)
      by (simp add: dc_alloc_entry_def e_def [symmetric] Let_def upd_ent_def st2_def stl_def
          new_entry_def nh_def)
    define y where "y = f (new_entry parent name)"
    have uy: "unlinked y = y"
      using f [of "new_entry parent name"] by (simp add: y_def new_entry_def zero_entry_def unlinked_def)
    have st3: "upd_ent e f st2 = upd_ent e (\<lambda>_. y) stl"
      by (simp add: upd_ent_def st2_def y_def)
    have sel: "parent_cluster y = parent" "name_hash y = nh" "dc_name y = name"
      using f [of "new_entry parent name"] by (simp_all add: y_def new_entry_def nh_def)
    have "entry_ok y" "key y = k" "b = bucket_of y"
      using sel nm by (simp_all add: entry_ok_def key_def bucket_of_def b_def k_def nh_def)
    moreover have "k \<notin> set (map key c1)" unfolding c1_def by (auto dest: in_set_takeD)
    moreover have "length c1 < 4096" by (simp add: c1_def)
    ultimately have "dc_rel (dc_link b e (upd_ent e f st2)) (y # c1)"
      using link_refines [OF st1(2) _ False fr, of y b] uy by (simp add: st3 stl_def)
    then show ?thesis using st0(1) st1(2) run False e_def y_def by auto
  qed
qed

section \<open>Invalidation of a directory and of everything\<close>

lemma filter_remove1_eq:
  assumes "distinct xs" and "\<not> Q x" and "\<And>a. a \<in> set xs \<Longrightarrow> a \<noteq> x \<Longrightarrow> Q' a = Q a"
  shows "filter Q' (remove1 x xs) = filter Q xs"
  using assms by (induction xs) (auto intro: filter_cong)

lemma drop_dir_shape:
  assumes "dc_shape st xs" and "b < DC_HASH_BUCKETS"
    and "chained (hnexts st) (dc_head st b) (us @ vs)"
    and "pp = (if us = [] then None else Some (last us))"
  shows "\<exists>st'. dc_drop_dir parent b pp st = Some st' \<and> body st' = body st \<and>
    dc_shape st' (filter (\<lambda>a. \<not> (a \<in> set vs \<and> parent_cluster (body st a) = parent)) xs)"
  using assms
proof (induction vs arbitrary: us pp st xs)
  case Nil
  have "(case pp of None \<Rightarrow> dc_head st b | Some a \<Rightarrow> hash_next (dc_ent st a)) = NULL"
    using chained_link [OF Nil.prems(3)] Nil.prems(4) by (auto simp: hnexts_def split: if_splits)
  then show ?case using Nil.prems(1) by (subst dc_drop_dir.simps) simp
next
  case (Cons x vs)
  note sh = Cons.prems(1) and b = Cons.prems(2) and ch = Cons.prems(3) and pp = Cons.prems(4)
  have slot: "(case pp of None \<Rightarrow> dc_head st b | Some a \<Rightarrow> hash_next (dc_ent st a)) = x"
    using chained_link [OF ch] pp by (auto simp: hnexts_def split: if_splits)
  have x0: "x \<noteq> NULL" and xvs: "x \<notin> set vs"
    using chained_not_null [OF ch] chained_distinct [OF ch] by auto
  have d: "distinct xs" using sh by (simp add: dc_shape_def ring_def)
  show ?case
  proof (cases "parent_cluster (body st x) = parent")
    case True
    define st1 where "st1 = set_slot b pp (hnexts st x) st"
    define st3 where "st3 = dc_kfree x (dc_lru_remove x st1)"
    define st4 where "st4 = st3\<lparr>dc_entry_count := dc_entry_count st3 - 1\<rparr>"
    note dn = drop_node [OF sh b ch pp, folded st1_def, folded st3_def, folded st4_def]
    from Cons.IH [OF dn(1) b dn(2) pp] obtain st' where
      st': "dc_drop_dir parent b pp st4 = Some st'" "body st' = body st4"
      "dc_shape st' (filter (\<lambda>a. \<not> (a \<in> set vs \<and> parent_cluster (body st4 a) = parent)) (remove1 x xs))"
      by blast
    have "dc_drop_dir parent b pp st = dc_drop_dir parent b pp st4"
      using slot x0 True
      by (subst dc_drop_dir.simps) (simp add: Let_def body_sel st1_def st3_def st4_def hnexts_def)
    moreover have "filter (\<lambda>a. \<not> (a \<in> set vs \<and> parent_cluster (body st4 a) = parent)) (remove1 x xs) =
        filter (\<lambda>a. \<not> (a \<in> set (x # vs) \<and> parent_cluster (body st a) = parent)) xs"
      by (rule filter_remove1_eq [OF d]) (use True dn(3) in auto)
    ultimately show ?thesis using st' dn(3) by auto
  next
    case False
    have "dc_drop_dir parent b pp st = dc_drop_dir parent b (Some x) st"
      using slot x0 False by (subst dc_drop_dir.simps) (simp add: body_sel)
    moreover have "filter (\<lambda>a. \<not> (a \<in> set vs \<and> parent_cluster (body st a) = parent)) xs =
        filter (\<lambda>a. \<not> (a \<in> set (x # vs) \<and> parent_cluster (body st a) = parent)) xs"
      using False by (intro filter_cong) auto
    ultimately show ?thesis
      using Cons.IH [of st xs "us @ [x]" "Some x"] sh b ch by auto
  qed
qed

lemma drop_dirs_shape:
  assumes "dc_shape st xs" and "set bs \<subseteq> {..<DC_HASH_BUCKETS}"
  shows "\<exists>st'. dc_drop_dirs parent bs st = Some st' \<and> body st' = body st \<and>
    dc_shape st' (filter (\<lambda>a. \<not> (bucket_of (body st a) \<in> set bs \<and> parent_cluster (body st a) = parent)) xs)"
  using assms
proof (induction bs arbitrary: st xs)
  case (Cons b bs)
  obtain cs where cs: "chained (hnexts st) (dc_head st b) cs"
    "set cs = {a \<in> set xs. bucket_of (body st a) = b}"
    using Cons.prems by (auto simp: dc_shape_def buckets_ok_def hash_buckets_def)
  obtain st1 where st1: "dc_drop_dir parent b None st = Some st1" "body st1 = body st"
    "dc_shape st1 (filter (\<lambda>a. \<not> (a \<in> set cs \<and> parent_cluster (body st a) = parent)) xs)"
    using drop_dir_shape [of st xs b "[]" cs None parent] Cons.prems cs(1) by auto
  obtain st2 where st2: "dc_drop_dirs parent bs st1 = Some st2" "body st2 = body st1"
    "dc_shape st2 (filter (\<lambda>a. \<not> (bucket_of (body st1 a) \<in> set bs \<and> parent_cluster (body st1 a) = parent))
      (filter (\<lambda>a. \<not> (a \<in> set cs \<and> parent_cluster (body st a) = parent)) xs))"
    using Cons.IH [OF st1(3)] Cons.prems(2) by auto
  have "filter (\<lambda>a. \<not> (bucket_of (body st1 a) \<in> set bs \<and> parent_cluster (body st1 a) = parent))
      (filter (\<lambda>a. \<not> (a \<in> set cs \<and> parent_cluster (body st a) = parent)) xs) =
    filter (\<lambda>a. \<not> (bucket_of (body st a) \<in> set (b # bs) \<and> parent_cluster (body st a) = parent)) xs"
    unfolding filter_filter st1(2) using cs(2) by (intro filter_cong) auto
  then show ?case using st1 st2 by auto
qed auto

lemma free_chain_live:
  assumes "chained (hnexts st) e cs"
  shows "dc_free_chain e st = Some (st\<lparr>dc_live := \<lambda>a. dc_live st a \<and> a \<notin> set cs\<rparr>)"
  using assms
proof (induction cs arbitrary: e st)
  case Nil
  then show ?case by (subst dc_free_chain.simps) simp
next
  case (Cons c cs)
  have h: "hnexts (dc_kfree c st) = hnexts st" by (simp add: hnexts_def [abs_def] dc_kfree_def)
  have "dc_free_chain (hnexts st c) (dc_kfree c st) =
      Some ((dc_kfree c st)\<lparr>dc_live := \<lambda>a. dc_live (dc_kfree c st) a \<and> a \<notin> set cs\<rparr>)"
    using Cons.prems by (intro Cons.IH) (simp add: h)
  moreover have "(dc_kfree c st)\<lparr>dc_live := \<lambda>a. dc_live (dc_kfree c st) a \<and> a \<notin> set cs\<rparr> =
      st\<lparr>dc_live := \<lambda>a. dc_live st a \<and> a \<notin> set (c # cs)\<rparr>"
    by (auto simp: dc_kfree_def fun_eq_iff intro!: dcache.equality)
  ultimately show ?case
    using Cons.prems by (subst dc_free_chain.simps) (simp add: hnexts_def)
qed

lemma free_buckets_live:
  assumes "\<And>b. b \<in> set bs \<Longrightarrow> chained (hnexts st) (dc_head st b) (cs b)" and "distinct bs"
  shows "dc_free_buckets bs st =
    Some (st\<lparr>dc_live := \<lambda>a. dc_live st a \<and> (\<forall>b \<in> set bs. a \<notin> set (cs b)),
             dc_head := \<lambda>b. if b \<in> set bs then 0 else dc_head st b\<rparr>)"
  using assms
proof (induction bs arbitrary: st)
  case Nil
  then show ?case by simp
next
  case (Cons b bs)
  define st1 where "st1 = st\<lparr>dc_live := \<lambda>a. dc_live st a \<and> a \<notin> set (cs b), dc_head := (dc_head st)(b := 0)\<rparr>"
  have "dc_free_buckets bs st1 =
    Some (st1\<lparr>dc_live := \<lambda>a. dc_live st1 a \<and> (\<forall>b \<in> set bs. a \<notin> set (cs b)),
             dc_head := \<lambda>b. if b \<in> set bs then 0 else dc_head st1 b\<rparr>)"
  proof (rule Cons.IH)
    fix b' assume "b' \<in> set bs"
    then show "chained (hnexts st1) (dc_head st1 b') (cs b')"
      using Cons.prems(1) [of b'] Cons.prems(2) by (auto simp: st1_def hnexts_def [abs_def])
  qed (use Cons.prems in auto)
  moreover have "st1\<lparr>dc_live := \<lambda>a. dc_live st1 a \<and> (\<forall>b \<in> set bs. a \<notin> set (cs b)),
             dc_head := \<lambda>b. if b \<in> set bs then 0 else dc_head st1 b\<rparr> =
    st\<lparr>dc_live := \<lambda>a. dc_live st a \<and> (\<forall>b \<in> set (b # bs). a \<notin> set (cs b)),
             dc_head := \<lambda>b'. if b' \<in> set (b # bs) then 0 else dc_head st b'\<rparr>"
    by (auto simp: st1_def fun_eq_iff intro!: dcache.equality)
  moreover have "dc_free_chain (dc_head st b) st =
      Some (st\<lparr>dc_live := \<lambda>a. dc_live st a \<and> a \<notin> set (cs b)\<rparr>)"
    using Cons.prems(1) by (intro free_chain_live) simp
  ultimately show ?case by (simp add: st1_def)
qed

lemma rel_filter:
  assumes "dc_rel st c" and "body st' = body st"
    and "\<And>xs. dc_shape st xs \<Longrightarrow> dc_shape st' (filter (\<lambda>a. Q (body st a)) xs)"
  shows "dc_rel st' (filter Q c)"
proof -
  obtain xs where sh: "dc_shape st xs" and c: "c = map (body st) xs"
    and ok: "list_all entry_ok c" and dk: "distinct (map key c)"
    using assms(1) by (auto simp: dc_rel_def)
  have "filter Q c = map (body st') (filter (\<lambda>a. Q (body st a)) xs)"
    by (simp add: c assms(2) filter_map comp_def)
  moreover have "list_all entry_ok (filter Q c)" "distinct (map key (filter Q c))"
    using ok dk by (auto simp: list_all_iff distinct_map_filter)
  ultimately show ?thesis unfolding dc_rel_def using assms(3) [OF sh] by metis
qed

lemma invalidate_dir_refines:
  assumes rel: "dc_rel st c"
  shows "\<exists>st'. dcache_invalidate_dir parent st = Some st' \<and>
    dc_rel st' (filter (\<lambda>x. parent_cluster x \<noteq> parent) c)"
proof -
  obtain xs where sh: "dc_shape st xs" using rel by (auto simp: dc_rel_def)
  have eq: "filter (\<lambda>a. \<not> (bucket_of (body st a) \<in> set [0..<DC_HASH_BUCKETS] \<and>
      parent_cluster (body st a) = parent)) ys = filter (\<lambda>a. parent_cluster (body st a) \<noteq> parent) ys" for ys
    by (intro filter_cong) (auto simp: bucket_of_def dc_bucket_index_less)
  obtain st' where st': "dc_drop_dirs parent [0..<DC_HASH_BUCKETS] st = Some st'" "body st' = body st"
    "dc_shape st' (filter (\<lambda>a. parent_cluster (body st a) \<noteq> parent) xs)"
    using drop_dirs_shape [OF sh, of "[0..<DC_HASH_BUCKETS]" parent] unfolding eq
    by (auto simp: atLeast0LessThan)
  have "dc_rel st' (filter (\<lambda>x. parent_cluster x \<noteq> parent) c)"
  proof (rule rel_filter [OF rel st'(2)])
    fix ys assume "dc_shape st ys"
    then have "ys = xs" using sh ring_unique by (auto simp: dc_shape_def)
    then show "dc_shape st' (filter (\<lambda>a. parent_cluster (body st a) \<noteq> parent) ys)" using st'(3) by simp
  qed
  then show ?thesis using st'(1) sh by (simp add: dcache_invalidate_dir_def dc_shape_def)
qed

lemma invalidate_all_refines:
  assumes rel: "dc_rel st c"
  shows "\<exists>st'. dcache_invalidate_all st = Some st' \<and> dc_rel st' []"
proof -
  obtain xs where sh: "dc_shape st xs" using rel by (auto simp: dc_rel_def)
  have hb: "hash_buckets DC_HASH_BUCKETS (hnexts st) (dc_head st) (\<lambda>a. bucket_of (body st a)) xs"
    using sh by (simp add: dc_shape_def buckets_ok_def)
  obtain cs where cs: "\<And>b. b < DC_HASH_BUCKETS \<Longrightarrow> chained (hnexts st) (dc_head st b) (cs b)"
    "\<And>b. b < DC_HASH_BUCKETS \<Longrightarrow> set (cs b) = {a \<in> set xs. bucket_of (body st a) = b}"
    by (rule hash_buckets_chains [OF hb]) blast
  define st1 where "st1 = st\<lparr>dc_live := \<lambda>a. dc_live st a \<and> (\<forall>b \<in> set [0..<DC_HASH_BUCKETS]. a \<notin> set (cs b)),
             dc_head := \<lambda>b. if b \<in> set [0..<DC_HASH_BUCKETS] then 0 else dc_head st b\<rparr>"
  have run: "dc_free_buckets [0..<DC_HASH_BUCKETS] st = Some st1"
    unfolding st1_def by (rule free_buckets_live) (use cs in auto)
  define s where "s = dc_lru_sentinel st"
  define st3 where "st3 = upd_ent s (\<lambda>x. x\<lparr>lru_next := s\<rparr>) (upd_ent s (\<lambda>x. x\<lparr>lru_prev := s\<rparr>) st1)"
  have run': "dcache_invalidate_all st = Some (st3\<lparr>dc_entry_count := 0\<rparr>)"
    using run sh
    by (simp add: dcache_invalidate_all_def dc_shape_def Let_def st3_def s_def) (simp add: st1_def)
  have s0: "s \<noteq> NULL" using sh by (simp add: dc_shape_def ring_def s_def)
  have "dc_live st1 a = False" for a
  proof (cases "a \<in> set xs")
    case True
    have "bucket_of (body st a) < DC_HASH_BUCKETS" by (simp add: bucket_of_def dc_bucket_index_less)
    then show ?thesis using cs(2) True by (auto simp: st1_def)
  next
    case False
    then show ?thesis using sh by (simp add: st1_def dc_shape_def)
  qed
  then have "dc_shape (st3\<lparr>dc_entry_count := 0\<rparr>) []"
    using sh s0
    by (auto simp: dc_shape_def buckets_ok_def hash_buckets_def st3_def upd_ent_def s_def st1_def fun_eq_iff
        nexts_def prevs_def intro!: ring_nil)
  then show ?thesis using run' by (auto simp: dc_rel_def)
qed

section \<open>Properties\<close>

definition demo_kalloc :: "dcache \<Rightarrow> addr" where
  "demo_kalloc st =
     (case filter (\<lambda>a. \<not> dc_live st a \<and> a \<noteq> dc_lru_sentinel st) [0x2000, 0x3000, 0x4000, 0x5000] of
        [] \<Rightarrow> 0 | a # _ \<Rightarrow> a)"

lemma demo_kalloc_fresh: "kalloc_fresh demo_kalloc"
  unfolding kalloc_fresh_def demo_kalloc_def
proof (intro allI impI)
  fix st :: dcache
  let ?l = "filter (\<lambda>a. \<not> dc_live st a \<and> a \<noteq> dc_lru_sentinel st) [0x2000, 0x3000, 0x4000, 0x5000]"
  assume "(case ?l of [] \<Rightarrow> 0 | a # _ \<Rightarrow> a) \<noteq> NULL"
  then obtain a as where l: "?l = a # as" by (cases ?l) auto
  then have "a \<in> set ?l" by simp
  then have "\<not> dc_live st a \<and> a \<noteq> dc_lru_sentinel st" unfolding set_filter by blast
  then show "\<not> dc_live st (case ?l of [] \<Rightarrow> 0 | a # _ \<Rightarrow> a) \<and>
      (case ?l of [] \<Rightarrow> 0 | a # _ \<Rightarrow> a) \<noteq> dc_lru_sentinel st"
    unfolding l list.case .
qed

definition demo_dcache :: dcache where
  "demo_dcache = dcache_init
     \<lparr>dc_ent = (\<lambda>_. zero_entry), dc_head = (\<lambda>_. 0), dc_lru_sentinel = 0x1000, dc_live = (\<lambda>_. False),
      dc_entry_count = 0, dc_stat_hits = 0, dc_stat_neg_hits = 0, dc_stat_misses = 0,
      dc_stat_insertions = 0, dc_stat_evictions = 0, dc_initialized = False\<rparr>"

lemma demo_dcache_rel: "dc_rel demo_dcache []"
  by (auto simp: dc_rel_def dc_shape_def buckets_ok_def hash_buckets_def demo_dcache_def dcache_init_def Let_def
      upd_ent_def nexts_def prevs_def fun_eq_iff intro!: ring_nil)

text \<open>
  C27: Lookup implements the specification. In a cache that holds the entries \<open>c\<close>,
  \<^verbatim>\<open>dcache_lookup\<close> returns; it returns NULL exactly when no entry has the key (the same
  directory, the same name up to case), and otherwise the entry with that key, which
  becomes the most recently used one; no entry is lost or changed.
\<close>

theorem dcache_lookup_correct:
  assumes "dc_rel st c" and "0 \<notin> set name"
  shows "\<exists>e st'. dcache_lookup parent (Some name) st = Some (e, st') \<and>
    (case find (\<lambda>x. key x = (parent, map dc_lower name)) c of
       None \<Rightarrow> e = NULL \<and> dc_rel st' c
     | Some x \<Rightarrow> e \<noteq> NULL \<and> body st' e = x \<and>
         dc_rel st' (x # filter (\<lambda>x. key x \<noteq> (parent, map dc_lower name)) c))"
  using lookup_refines [OF assms] .

theorem dcache_lookup_correct_witness:
  "dc_rel demo_dcache [] \<and> map_option fst (dcache_lookup 2 (Some [0x61]) demo_dcache) = Some NULL"
  using demo_dcache_rel dcache_lookup_correct [OF demo_dcache_rel, of "[0x61]" 2] by auto

lemma dcache_insert_refines:
  assumes rel: "dc_rel st c" and nm: "0 \<notin> set name" "length name \<le> DC_NAME_MAX" "name \<noteq> []"
    and fresh: "kalloc_fresh kalloc"
  shows "\<exists>st1 st'. dcache_insert kalloc parent (Some name) i st = Some st' \<and>
    dc_rel st1 (take 4095 (filter (\<lambda>x. key x \<noteq> (parent, map dc_lower name)) c)) \<and>
    dc_rel st' ((if kalloc st1 = NULL then [] else [set_info i (new_entry parent name)]) @
      take 4095 (filter (\<lambda>x. key x \<noteq> (parent, map dc_lower name)) c))"
proof -
  have ini: "dc_initialized st" using rel by (auto simp: dc_rel_def dc_shape_def)
  have f: "parent_cluster (set_info i x) = parent_cluster x \<and> name_hash (set_info i x) = name_hash x \<and>
      dc_name (set_info i x) = dc_name x \<and> unlinked (set_info i x) = set_info i (unlinked x)" for x
    by (simp add: set_info_def unlinked_def)
  from insert_refines [OF rel nm(1,2) fresh, of "set_info i" parent, OF f] ini nm(3) show ?thesis
    by (auto simp: dcache_insert_def Let_def split: if_splits)
qed

text \<open>
  C7: Insertion implements the specification: an entry with the same key is replaced,
  the least recently used entry makes room when 4096 are cached, and the new entry is
  the most recently used one. If \<^verbatim>\<open>kalloc\<close> fails, only the old entries are affected.
\<close>

theorem dcache_insert_correct:
  assumes rel: "dc_rel st c" and nm: "0 \<notin> set name" "length name \<le> DC_NAME_MAX" "name \<noteq> []"
    and fresh: "kalloc_fresh kalloc"
  shows "\<exists>st1 st'. dcache_insert kalloc parent (Some name) i st = Some st' \<and>
    dc_rel st1 (take 4095 (filter (\<lambda>x. key x \<noteq> (parent, map dc_lower name)) c)) \<and>
    dc_rel st' ((if kalloc st1 = NULL then [] else [set_info i (new_entry parent name)]) @
      take 4095 (filter (\<lambda>x. key x \<noteq> (parent, map dc_lower name)) c))"
  using dcache_insert_refines [OF assms] .

definition demo_info :: dc_info where
  "demo_info = \<lparr>i_start_cluster = 5, i_size = 10, i_attr = 0, i_wrt_time = 0, i_wrt_date = 0,
     i_dirent_cluster = 2, i_dirent_index = 0, i_lfn_start_cluster = 0, i_lfn_start_index = 0\<rparr>"

theorem dcache_insert_correct_witness:
  "kalloc_fresh demo_kalloc \<and>
   (\<exists>st'. dcache_insert demo_kalloc 2 (Some [0x61]) demo_info demo_dcache = Some st' \<and> dc_initialized st')"
  using demo_kalloc_fresh
    dcache_insert_correct [OF demo_dcache_rel, of "[0x61]" demo_kalloc 2, OF _ _ _ demo_kalloc_fresh]
  by (fastforce simp: DC_NAME_MAX_def dc_rel_def dc_shape_def)

text \<open>
  What was inserted is found. After a successful insertion a lookup of the name, in
  whatever case it is written, returns an entry with the inserted cluster, size and
  attributes, and it is no negative entry.
\<close>

theorem dcache_insert_lookup:
  assumes rel: "dc_rel st c" and nm: "0 \<notin> set name" "length name \<le> DC_NAME_MAX" "name \<noteq> []"
    and fresh: "kalloc_fresh kalloc"
    and some: "\<And>st. dc_rel st (take 4095 (filter (\<lambda>x. key x \<noteq> (parent, map dc_lower name)) c)) \<Longrightarrow>
      kalloc st \<noteq> NULL"
    and nm2: "map dc_lower spelling = map dc_lower name"
  shows "\<exists>st1 e st2. dcache_insert kalloc parent (Some name) i st = Some st1 \<and>
    dcache_lookup parent (Some spelling) st1 = Some (e, st2) \<and> e \<noteq> NULL \<and>
    start_cluster (dc_ent st2 e) = i_start_cluster i \<and> dc_size (dc_ent st2 e) = i_size i \<and>
    attr (dc_ent st2 e) = i_attr i \<and> dc_flags (dc_ent st2 e) AND DC_NEGATIVE = 0"
proof -
  define x where "x = set_info i (new_entry parent name)"
  obtain st1 c1 where ins: "dcache_insert kalloc parent (Some name) i st = Some st1"
    and rel1: "dc_rel st1 (x # c1)"
    using dcache_insert_refines [OF rel nm fresh, of parent i] some by (auto simp: x_def)
  have k: "key x = (parent, map dc_lower spelling)"
    using nm2 by (simp add: x_def key_def set_info_def new_entry_def)
  have "0 \<notin> set spelling"
    using nm(1) nm2 dc_lower_zero by (metis (mono_tags, opaque_lifting) image_iff list.set_map)
  from lookup_refines [OF rel1 this, of parent] k obtain e st2 where
    look: "dcache_lookup parent (Some spelling) st1 = Some (e, st2)" "e \<noteq> NULL" "body st2 e = x"
    by auto
  have "start_cluster (body st2 e) = i_start_cluster i" "dc_size (body st2 e) = i_size i"
    "attr (body st2 e) = i_attr i" "dc_flags (body st2 e) AND DC_NEGATIVE = 0"
    unfolding look(3)
    by (simp_all add: x_def set_info_def DC_VALID_def DC_DIRECTORY_def DC_NEGATIVE_def)
  then show ?thesis using ins look by (auto simp: body_def unlinked_def)
qed

text \<open>
  C28: Invalidation removes what it should and nothing else: one key, all the entries of a
  directory, or everything; the remaining entries keep their order of use.
\<close>

theorem dcache_invalidate_correct:
  assumes "dc_rel st c" and "0 \<notin> set name"
  shows "(\<exists>st'. dcache_invalidate parent (Some name) st = Some st' \<and>
      dc_rel st' (filter (\<lambda>x. key x \<noteq> (parent, map dc_lower name)) c)) \<and>
    (\<exists>st'. dcache_invalidate_dir parent st = Some st' \<and>
      dc_rel st' (filter (\<lambda>x. parent_cluster x \<noteq> parent) c)) \<and>
    (\<exists>st'. dcache_invalidate_all st = Some st' \<and> dc_rel st' [])"
proof -
  have ini: "dc_initialized st" using assms(1) by (auto simp: dc_rel_def dc_shape_def)
  then show ?thesis
    using remove_existing_refines [OF assms, of parent] invalidate_dir_refines [OF assms(1)]
      invalidate_all_refines [OF assms(1)]
    by (auto simp: dcache_invalidate_def Let_def)
qed

theorem dcache_invalidate_correct_witness:
  "\<exists>st'. dcache_invalidate_dir 2 demo_dcache = Some st' \<and> dc_rel st' []"
  using dcache_invalidate_correct [OF demo_dcache_rel, of "[0x61]" 2] by simp

section \<open>Eviction and lookup on two processors\<close>

lemma relink_views:
  assumes "prevs st e = NULL" and "nexts st e = NULL" and "e \<noteq> dc_lru_sentinel st"
  shows "same_but_lru st (dc_lru_touch e st)" and "nexts (dc_lru_touch e st) (dc_lru_sentinel st) = e"
proof -
  have "dc_ent (dc_lru_remove e st) = dc_ent st"
    using assms by (auto simp: dc_lru_remove_def upd_ent_def views fun_eq_iff)
  then have "dc_lru_remove e st = st"
    using assms by (auto simp: dc_lru_remove_def upd_ent_def views Let_def intro!: dcache.equality)
  then have t: "dc_lru_touch e st = dc_lru_add e st" by (simp add: dc_lru_touch_def)
  show "same_but_lru st (dc_lru_touch e st)" "nexts (dc_lru_touch e st) (dc_lru_sentinel st) = e"
    using lru_add_views [OF assms(3)] by (simp_all add: t)
qed

lemma shape_unique: "dc_shape st xs \<Longrightarrow> dc_shape st ys \<Longrightarrow> xs = ys"
  unfolding dc_shape_def by (blast intro: ring_unique)

text \<open>A search for the key of entry \<open>v\<close> finds \<open>v\<close>, also when \<open>v\<close> is not on the ring.\<close>

lemma bucket_search:
  assumes rel: "dc_rel st c" and sh: "dc_shape st xs" and v: "v \<in> set xs"
    and st1: "hnexts st1 = hnexts st" "body st1 = body st" "dc_head st1 = dc_head st"
  defines "x \<equiv> body st v"
  defines "b \<equiv> dc_bucket_index (parent_cluster x) (name_hash x)"
  shows "\<exists>pp. find_slot (hnexts st1) (\<lambda>a. a = v) None (dc_head st1 b) = Some (pp, v)"
    and "find_node (hnexts st1) (dc_match st1 (parent_cluster x) (dc_name_hash (dc_name x)) (dc_name x))
      (dc_head st1 b) = Some v"
    and "b = dc_bucket_index (parent_cluster x) (dc_name_hash (dc_name x))"
proof -
  have c: "c = map (body st) xs" and ok: "list_all entry_ok c" and dk: "distinct (map key c)"
    using rel shape_unique [OF sh] by (auto simp: dc_rel_def)
  have okx: "entry_ok x" using ok v by (simp add: c list_all_iff x_def)
  show "b = dc_bucket_index (parent_cluster x) (dc_name_hash (dc_name x))"
    using okx by (simp add: b_def entry_ok_def)
  have bk: "buckets_ok st xs" using sh by (simp add: dc_shape_def)
  have bv: "b = bucket_of (body st v)" by (simp add: b_def bucket_of_def x_def)
  obtain us ws where ch: "chained (hnexts st) (dc_head st b) (us @ v # ws)"
    and set_b: "set (us @ v # ws) = {a \<in> set xs. bucket_of (body st a) = b}"
    by (rule buckets_chain [OF bk v bv])
  have us: "a \<in> set xs \<and> a \<noteq> v" if "a \<in> set us" for a
    using that set_b chained_distinct [OF ch] by auto
  have ch1: "chained (hnexts st1) (dc_head st1 b) (us @ v # ws)" using ch st1 by simp
  show "\<exists>pp. find_slot (hnexts st1) (\<lambda>a. a = v) None (dc_head st1 b) = Some (pp, v)"
    using find_slot_found [OF ch1, of "\<lambda>a. a = v"] us by blast
  have P: "dc_match st1 (parent_cluster x) (dc_name_hash (dc_name x)) (dc_name x) a \<longleftrightarrow> a = v"
    if a: "a \<in> set xs" for a
  proof -
    have "entry_ok (body st1 a)" using ok a by (simp add: c st1 list_all_iff)
    then have "dc_match st1 (parent_cluster x) (dc_name_hash (dc_name x)) (dc_name x) a \<longleftrightarrow>
        key (body st a) = key (body st v)"
      using okx st1 by (simp add: dc_match_key entry_ok_def key_def x_def)
    also have "\<dots> \<longleftrightarrow> a = v" using dk a v unfolding c by (auto simp: distinct_map inj_on_def)
    finally show ?thesis .
  qed
  show "find_node (hnexts st1) (dc_match st1 (parent_cluster x) (dc_name_hash (dc_name x)) (dc_name x))
      (dc_head st1 b) = Some v"
    by (rule find_node_found [OF ch1]) (use P v us in auto)
qed

text \<open>
  C29: Eviction and lookup race. Between the two halves of \<^verbatim>\<open>dc_evict_one\<close> no lock is held,
  and the victim is still in its hash bucket. If another processor looks the victim up
  at that moment, the lookup succeeds and puts the victim back on the LRU ring; the
  evicting processor then frees it. Whatever the cache holds, the freed entry remains
  linked as the most recently used one, and the caller of the lookup holds it.
\<close>

theorem dcache_evict_race:
  assumes rel: "dc_rel st (c @ [x])"
  shows "\<exists>victim st1 st2 st3. dc_evict_pick st = Some (victim, st1) \<and>
    dcache_lookup (parent_cluster x) (Some (dc_name x)) st1 = Some (victim, st2) \<and>
    dc_evict_finish victim st2 = Some st3 \<and>
    \<not> dc_live st3 victim \<and> lru_next (dc_ent st3 (dc_lru_sentinel st3)) = victim"
proof -
  obtain xs where sh: "dc_shape st xs" and c: "c @ [x] = map (body st) xs"
    using rel unfolding dc_rel_def by blast
  have xs: "xs \<noteq> []" using c by auto
  define v where "v = last xs"
  have v: "v \<in> set xs" and vx: "body st v = x"
    using xs arg_cong [OF c, of last] by (simp_all add: v_def last_map)
  let ?s = "dc_lru_sentinel st"
  have r: "ring (nexts st) (prevs st) ?s xs" using sh by (simp add: dc_shape_def)
  have vs: "v \<noteq> ?s" "v \<noteq> NULL" using r v by (auto simp: ring_def)
  define st1 where "st1 = dc_lru_remove v st"
  have pick: "dc_evict_pick st = Some (v, st1)"
    using ring_last [OF r] xs vs by (simp add: dc_evict_pick_def prevs_def v_def st1_def Let_def)
  note lv = lru_remove_shape [OF sh v, folded st1_def]
  have e1: "hnexts st1 = hnexts st" "body st1 = body st" "dc_head st1 = dc_head st"
    "dc_lru_sentinel st1 = ?s" "dc_initialized st1"
    using lv(3) sh by (simp_all add: same_but_lru_def dc_shape_def)
  define b where "b = dc_bucket_index (parent_cluster x) (name_hash x)"
  note s1 = bucket_search [OF rel sh v e1(1-3), unfolded vx, folded b_def]
  have "prevs st1 v = NULL" "nexts st1 v = NULL" "v \<noteq> dc_lru_sentinel st1" by (simp_all add: lv e1 vs)
  note rv = relink_views [OF this]
  define st1' where "st1' = dc_lru_touch v st1"
  have "dcache_lookup (parent_cluster x) (Some (dc_name x)) st1 =
      Some (v, if dc_flags (dc_ent st1' v) AND DC_NEGATIVE \<noteq> 0
               then st1'\<lparr>dc_stat_neg_hits := dc_stat_neg_hits st1' + 1\<rparr>
               else st1'\<lparr>dc_stat_hits := dc_stat_hits st1' + 1\<rparr>)" (is "_ = Some (v, ?st2)")
    using s1(2) vs e1 unfolding dcache_lookup_def
    by (simp add: hnexts_def [symmetric] Let_def s1(3) [symmetric] st1'_def)
  then obtain st2 where look: "dcache_lookup (parent_cluster x) (Some (dc_name x)) st1 = Some (v, st2)"
    and st2: "st2 = ?st2" by blast
  have e2: "hnexts st2 = hnexts st" "body st2 = body st" "dc_head st2 = dc_head st"
    "dc_lru_sentinel st2 = ?s" and n2: "nexts st2 ?s = v"
    using rv e1 by (simp_all add: st2 st1'_def same_but_lru_def views [abs_def])
  obtain pp where "find_slot (hnexts st2) (\<lambda>a. a = v) None (dc_head st2 b) = Some (pp, v)"
    using bucket_search(1) [OF rel sh v e2(1-3), unfolded vx, folded b_def] by blast
  moreover have "dc_bucket_index (parent_cluster (dc_ent st2 v)) (name_hash (dc_ent st2 v)) = b"
    by (simp add: body_sel e2 vx b_def)
  ultimately have "\<exists>st3. dc_evict_finish v st2 = Some st3 \<and> dc_live st3 v = False \<and>
      dc_lru_sentinel st3 = ?s \<and> nexts st3 = nexts st2"
    using vs e2 set_slot_views(1) [of b pp "hnexts st v" st2]
    by (simp add: dc_evict_finish_def Let_def hnexts_def [symmetric] dc_kfree_def set_slot_views
        nexts_def [abs_def])
  then obtain st3 where st3: "dc_evict_finish v st2 = Some st3" "\<not> dc_live st3 v"
    "dc_lru_sentinel st3 = ?s" "nexts st3 = nexts st2" by blast
  then have "lru_next (dc_ent st3 (dc_lru_sentinel st3)) = v" using n2 by (metis nexts_def)
  then show ?thesis using pick look st3(1,2) by blast
qed

theorem dcache_evict_race_witness:
  "\<exists>st x victim st1 st2 st3. dc_rel st [x] \<and> dc_evict_pick st = Some (victim, st1) \<and>
    dcache_lookup (parent_cluster x) (Some (dc_name x)) st1 = Some (victim, st2) \<and>
    dc_evict_finish victim st2 = Some st3 \<and> \<not> dc_live st3 victim"
proof -
  have "demo_kalloc st \<noteq> NULL" if "dc_rel st []" for st
  proof -
    have "dc_live st = (\<lambda>_. False)" using that by (auto simp: dc_rel_def dc_shape_def)
    then show ?thesis by (simp add: demo_kalloc_def)
  qed
  moreover have "0 \<notin> set [0x61 :: u8]" "length [0x61 :: u8] \<le> DC_NAME_MAX" "[0x61 :: u8] \<noteq> []"
    by (simp_all add: DC_NAME_MAX_def)
  note ins = dcache_insert_refines [OF demo_dcache_rel this demo_kalloc_fresh, of 2 demo_info]
  obtain st1 st' where "dc_rel st1 []"
    and "dc_rel st' ((if demo_kalloc st1 = NULL then [] else [set_info demo_info (new_entry 2 [0x61])]) @ [])"
    using ins unfolding filter.simps take_Nil by blast
  ultimately have rel: "dc_rel st' ([] @ [set_info demo_info (new_entry 2 [0x61])])" by simp
  from dcache_evict_race [OF this] rel show ?thesis unfolding append_Nil by blast
qed

end
