(* ===== verification/Icache.thy ===== *)
theory Icache
  imports Links
begin

text \<open>
  The inode cache of \<^verbatim>\<open>kernel/fs/icache.c\<close>: a hash table of reference-counted inodes, an
  LRU ring of those that nobody holds, and the cached cluster chain of each file. As in
  theory \<^verbatim>\<open>Dcache\<close> the inodes live in a store indexed by address, \<^verbatim>\<open>kalloc\<close> is an argument
  and each operation is atomic. The FAT lookup \<^verbatim>\<open>fat32_next_cluster_cached\<close> is an argument.
  Writing metadata back to disk (\<^verbatim>\<open>icache_flush\<close>) and the per-inode sleeping lock are not
  modelled.
\<close>

section \<open>State\<close>

definition IC_HASH_BUCKETS :: nat where "IC_HASH_BUCKETS = 512"
definition IC_HASH_MASK :: u64 where "IC_HASH_MASK = 511"
definition IC_MAX_ENTRIES :: u64 where "IC_MAX_ENTRIES = 2048"
definition IC_VALID :: u32 where "IC_VALID = 1"
definition IC_DIRTY :: u32 where "IC_DIRTY = 2"
definition CC_INIT_CAP :: u64 where "CC_INIT_CAP = 64"
definition CC_MAX_CAP :: u64 where "CC_MAX_CAP = 1024 * 1024"

text \<open>The \<^verbatim>\<open>chain\<close> array is \<open>None\<close> for a null pointer, else the list of its elements.\<close>

record ic_inode =
  start_cluster :: u64
  ic_size :: u64
  attr :: u32
  parent_cluster :: u64
  dirent_cluster :: u64
  dirent_index :: u32
  wrt_time :: u16
  wrt_date :: u16
  refcount :: u32
  ic_flags :: u32
  io_locked :: bool
  cl_chain :: "u64 list option"
  chain_len :: u64
  chain_cap :: u64
  hash_next :: addr
  lru_prev :: addr
  lru_next :: addr

record icache =
  ic_node :: "addr \<Rightarrow> ic_inode"
  ic_head :: "nat \<Rightarrow> addr"
  ic_lru_sentinel :: addr
  ic_live :: "addr \<Rightarrow> bool"
  ic_entry_count :: u64
  ic_stat_hits :: u64
  ic_stat_misses :: u64
  ic_stat_evictions :: u64
  ic_initialized :: bool

definition upd_node :: "addr \<Rightarrow> (ic_inode \<Rightarrow> ic_inode) \<Rightarrow> icache \<Rightarrow> icache" where
  "upd_node a f st = st\<lparr>ic_node := (ic_node st)(a := f (ic_node st a))\<rparr>"

definition zero_inode :: ic_inode where
  "zero_inode = \<lparr>start_cluster = 0, ic_size = 0, attr = 0, parent_cluster = 0, dirent_cluster = 0,
     dirent_index = 0, wrt_time = 0, wrt_date = 0, refcount = 0, ic_flags = 0, io_locked = False,
     cl_chain = None, chain_len = 0, chain_cap = 0, hash_next = 0, lru_prev = 0, lru_next = 0\<rparr>"

section \<open>Operations\<close>

definition icache_init :: "icache \<Rightarrow> icache" where
  "icache_init st =
     (let s = ic_lru_sentinel st;
          st1 = st\<lparr>ic_head := (\<lambda>i. if i < IC_HASH_BUCKETS then 0 else ic_head st i)\<rparr>;
          st2 = upd_node s (\<lambda>n. n\<lparr>lru_prev := s\<rparr>) st1;
          st3 = upd_node s (\<lambda>n. n\<lparr>lru_next := s\<rparr>) st2
      in st3\<lparr>ic_entry_count := 0, ic_stat_hits := 0, ic_stat_misses := 0, ic_stat_evictions := 0,
             ic_initialized := True\<rparr>)"

definition ic_bucket_index :: "u64 \<Rightarrow> nat" where
  "ic_bucket_index cl = unat ((cl * 2654435761) AND IC_HASH_MASK)"

definition ic_lru_add :: "addr \<Rightarrow> icache \<Rightarrow> icache" where
  "ic_lru_add n st =
     (let s = ic_lru_sentinel st;
          st1 = upd_node n (\<lambda>x. x\<lparr>lru_next := lru_next (ic_node st s)\<rparr>) st;
          st2 = upd_node n (\<lambda>x. x\<lparr>lru_prev := s\<rparr>) st1;
          st3 = upd_node (lru_next (ic_node st2 s)) (\<lambda>x. x\<lparr>lru_prev := n\<rparr>) st2
      in upd_node s (\<lambda>x. x\<lparr>lru_next := n\<rparr>) st3)"

definition ic_lru_remove :: "addr \<Rightarrow> icache \<Rightarrow> icache" where
  "ic_lru_remove n st =
     (let p = lru_prev (ic_node st n);
          st1 = (if p \<noteq> NULL then upd_node p (\<lambda>x. x\<lparr>lru_next := lru_next (ic_node st n)\<rparr>) st else st);
          m = lru_next (ic_node st1 n);
          st2 = (if m \<noteq> NULL
                 then upd_node m (\<lambda>x. x\<lparr>lru_prev := lru_prev (ic_node st1 n)\<rparr>) st1 else st1)
      in upd_node n (\<lambda>x. x\<lparr>lru_prev := 0, lru_next := 0\<rparr>) st2)"

text \<open>The assignment \<^verbatim>\<open>*pp = v\<close>, for \<^verbatim>\<open>pp\<close> the head of bucket \<open>b\<close> or a \<^verbatim>\<open>hash_next\<close> field.\<close>

definition ic_set_slot :: "nat \<Rightarrow> addr option \<Rightarrow> addr \<Rightarrow> icache \<Rightarrow> icache" where
  "ic_set_slot b pp v st =
     (case pp of None \<Rightarrow> st\<lparr>ic_head := (ic_head st)(b := v)\<rparr>
      | Some a \<Rightarrow> upd_node a (\<lambda>x. x\<lparr>hash_next := v\<rparr>) st)"

definition ic_kfree :: "addr \<Rightarrow> icache \<Rightarrow> icache" where
  "ic_kfree a st = st\<lparr>ic_live := (ic_live st)(a := False)\<rparr>"

text \<open>The walk from the tail of the LRU ring to an inode that nobody holds.\<close>

partial_function (option) ic_find_victim :: "icache \<Rightarrow> addr \<Rightarrow> addr option" where
  "ic_find_victim st v =
     (if v \<noteq> ic_lru_sentinel st \<and> sint (refcount (ic_node st v)) > 0
      then ic_find_victim st (lru_prev (ic_node st v)) else Some v)"

declare ic_find_victim.simps [code]

definition ic_evict_one :: "icache \<Rightarrow> icache option" where
  "ic_evict_one st =
     (let v0 = lru_prev (ic_node st (ic_lru_sentinel st)) in
      if v0 = ic_lru_sentinel st then Some st
      else case (if sint (refcount (ic_node st v0)) > 0 then ic_find_victim st v0 else Some v0) of
        None \<Rightarrow> None
      | Some victim \<Rightarrow>
          if victim = ic_lru_sentinel st then Some st
          else
            let st1 = ic_lru_remove victim st;
                b = ic_bucket_index (start_cluster (ic_node st1 victim))
            in case find_slot (\<lambda>a. hash_next (ic_node st1 a)) (\<lambda>a. a = victim) None (ic_head st1 b) of
                 None \<Rightarrow> None
               | Some (pp, a) \<Rightarrow>
                   let st2 = (if a = NULL then st1
                              else ic_set_slot b pp (hash_next (ic_node st1 victim)) st1);
                       st3 = ic_kfree victim st2
                   in Some (st3\<lparr>ic_entry_count := ic_entry_count st3 - 1,
                                ic_stat_evictions := ic_stat_evictions st3 + 1\<rparr>))"

definition icache_lookup :: "u64 \<Rightarrow> icache \<Rightarrow> (addr \<times> icache) option" where
  "icache_lookup cl st =
     (if \<not> ic_initialized st \<or> cl < 2 then Some (NULL, st)
      else
        case find_node (\<lambda>a. hash_next (ic_node st a)) (\<lambda>a. start_cluster (ic_node st a) = cl)
               (ic_head st (ic_bucket_index cl)) of
          None \<Rightarrow> None
        | Some n \<Rightarrow>
            if n \<noteq> NULL then Some (n, st\<lparr>ic_stat_hits := ic_stat_hits st + 1\<rparr>)
            else Some (NULL, st\<lparr>ic_stat_misses := ic_stat_misses st + 1\<rparr>))"

text \<open>The metadata arguments of \<^verbatim>\<open>icache_get\<close>, and their assignment.\<close>

record ic_info =
  i_size :: u64
  i_attr :: u32
  i_parent_cluster :: u64
  i_dirent_cluster :: u64
  i_dirent_index :: u32
  i_wrt_time :: u16
  i_wrt_date :: u16

definition set_meta :: "ic_info \<Rightarrow> ic_inode \<Rightarrow> ic_inode" where
  "set_meta i n = n\<lparr>ic_size := i_size i, attr := i_attr i, parent_cluster := i_parent_cluster i,
     dirent_cluster := i_dirent_cluster i, dirent_index := i_dirent_index i,
     wrt_time := i_wrt_time i, wrt_date := i_wrt_date i\<rparr>"

partial_function (option) ic_make_room :: "icache \<Rightarrow> icache option" where
  "ic_make_room st =
     (if ic_entry_count st \<ge> IC_MAX_ENTRIES
      then Option.bind (ic_evict_one st) ic_make_room
      else Some st)"

declare ic_make_room.simps [code]

definition icache_get ::
    "(icache \<Rightarrow> addr) \<Rightarrow> u64 \<Rightarrow> ic_info \<Rightarrow> icache \<Rightarrow> (addr \<times> icache) option" where
  "icache_get kalloc cl i st =
     (if \<not> ic_initialized st \<or> cl < 2 then Some (NULL, st)
      else
        let b = ic_bucket_index cl in
        case find_node (\<lambda>a. hash_next (ic_node st a)) (\<lambda>a. start_cluster (ic_node st a) = cl)
               (ic_head st b) of
          None \<Rightarrow> None
        | Some n \<Rightarrow>
            if n \<noteq> NULL
            then
              let st1 = upd_node n (set_meta i) st;
                  st2 = upd_node n (\<lambda>x. x\<lparr>ic_flags := ic_flags x OR IC_VALID\<rparr>) st1;
                  st3 = upd_node n (\<lambda>x. x\<lparr>refcount := refcount x + 1\<rparr>) st2;
                  st4 = (if lru_prev (ic_node st3 n) \<noteq> NULL \<or> lru_next (ic_node st3 n) \<noteq> NULL
                         then ic_lru_remove n st3 else st3)
              in Some (n, st4\<lparr>ic_stat_hits := ic_stat_hits st4 + 1\<rparr>)
            else
              case ic_make_room st of None \<Rightarrow> None
              | Some st1 \<Rightarrow>
                  let m = kalloc st1 in
                  if m = NULL then Some (NULL, st1)
                  else
                    let st2 = st1\<lparr>ic_live := (ic_live st1)(m := True)\<rparr>;
                        st3 = upd_node m (\<lambda>_. zero_inode) st2;
                        st4 = upd_node m (\<lambda>x. (set_meta i x)\<lparr>start_cluster := cl, refcount := 1,
                                ic_flags := IC_VALID, io_locked := False, cl_chain := None,
                                chain_len := 0, chain_cap := 0\<rparr>) st3;
                        st5 = upd_node m (\<lambda>x. x\<lparr>hash_next := ic_head st4 b\<rparr>) st4;
                        st6 = st5\<lparr>ic_head := (ic_head st5)(b := m)\<rparr>
                    in Some (m, st6\<lparr>ic_entry_count := ic_entry_count st6 + 1,
                                    ic_stat_misses := ic_stat_misses st6 + 1\<rparr>))"

definition icache_ref :: "addr \<Rightarrow> icache \<Rightarrow> icache" where
  "icache_ref n st =
     (if n = NULL then st
      else
        let old = refcount (ic_node st n);
            st1 = upd_node n (\<lambda>x. x\<lparr>refcount := refcount x + 1\<rparr>) st
        in if old = 0 \<and> (lru_prev (ic_node st1 n) \<noteq> NULL \<or> lru_next (ic_node st1 n) \<noteq> NULL)
           then ic_lru_remove n st1 else st1)"

definition icache_unref :: "addr \<Rightarrow> icache \<Rightarrow> icache" where
  "icache_unref n st =
     (if n = NULL then st
      else
        let st1 = upd_node n (\<lambda>x. x\<lparr>refcount := refcount x - 1\<rparr>) st;
            new_rc = sint (refcount (ic_node st1 n))
        in if new_rc \<le> 0
           then ic_lru_add n (if new_rc < 0 then upd_node n (\<lambda>x. x\<lparr>refcount := 0\<rparr>) st1 else st1)
           else st1)"

definition icache_update_size :: "addr \<Rightarrow> u64 \<Rightarrow> icache \<Rightarrow> icache" where
  "icache_update_size n new_size st =
     (if n = NULL then st
      else upd_node n (\<lambda>x. x\<lparr>ic_size := new_size, ic_flags := ic_flags x OR IC_DIRTY\<rparr>) st)"

definition icache_mark_dirty :: "addr \<Rightarrow> icache \<Rightarrow> icache" where
  "icache_mark_dirty n st =
     (if n = NULL then st else upd_node n (\<lambda>x. x\<lparr>ic_flags := ic_flags x OR IC_DIRTY\<rparr>) st)"

definition icache_remove :: "u64 \<Rightarrow> icache \<Rightarrow> icache option" where
  "icache_remove cl st =
     (if \<not> ic_initialized st \<or> cl < 2 then Some st
      else
        let b = ic_bucket_index cl in
        case find_slot (\<lambda>a. hash_next (ic_node st a)) (\<lambda>a. start_cluster (ic_node st a) = cl) None
               (ic_head st b) of
          None \<Rightarrow> None
        | Some (pp, n) \<Rightarrow>
            if n = NULL then Some st
            else
              let st1 = ic_set_slot b pp (hash_next (ic_node st n)) st;
                  st2 = ic_lru_remove n st1;
                  st3 = ic_kfree n st2
              in Some (st3\<lparr>ic_entry_count := ic_entry_count st3 - 1\<rparr>))"

partial_function (option) ic_free_chain :: "addr \<Rightarrow> icache \<Rightarrow> icache option" where
  "ic_free_chain n st =
     (if n = NULL then Some st
      else let nxt = hash_next (ic_node st n) in ic_free_chain nxt (ic_kfree n st))"

declare ic_free_chain.simps [code]

fun ic_free_buckets :: "nat list \<Rightarrow> icache \<Rightarrow> icache option" where
  "ic_free_buckets [] st = Some st"
| "ic_free_buckets (b # bs) st =
     (case ic_free_chain (ic_head st b) st of None \<Rightarrow> None
      | Some st1 \<Rightarrow> ic_free_buckets bs (st1\<lparr>ic_head := (ic_head st1)(b := 0)\<rparr>))"

definition icache_invalidate_all :: "icache \<Rightarrow> icache option" where
  "icache_invalidate_all st =
     (if \<not> ic_initialized st then Some st
      else case ic_free_buckets [0..<IC_HASH_BUCKETS] st of None \<Rightarrow> None
        | Some st1 \<Rightarrow>
            let s = ic_lru_sentinel st1;
                st2 = upd_node s (\<lambda>x. x\<lparr>lru_prev := s\<rparr>) st1;
                st3 = upd_node s (\<lambda>x. x\<lparr>lru_next := s\<rparr>) st2
            in Some (st3\<lparr>ic_entry_count := 0\<rparr>))"

subsection \<open>The cluster chain of a file\<close>

text \<open>
  \<open>kalloc_arr n\<close> is the array \<^verbatim>\<open>kalloc\<close> returns for \<open>n\<close> elements, with whatever it holds, or
  \<open>None\<close>. The test for the end of a chain is that of the code.
\<close>

definition end_of_chain :: "u64 \<Rightarrow> bool" where
  "end_of_chain nxt \<longleftrightarrow> nxt \<ge> 0x0FFFFFF8 \<or> nxt = 0"

text \<open>Making room for one more element: the result is \<open>None\<close> where the code returns 0.\<close>

definition ic_chain_grow :: "(nat \<Rightarrow> u64 list option) \<Rightarrow> ic_inode \<Rightarrow> ic_inode option" where
  "ic_chain_grow kalloc_arr n =
     (if chain_len n \<ge> chain_cap n
      then
        let new_cap0 = chain_cap n * 2;
            new_cap = (if new_cap0 > CC_MAX_CAP then CC_MAX_CAP else new_cap0)
        in if new_cap \<le> chain_cap n then None
           else case kalloc_arr (unat new_cap) of None \<Rightarrow> None
             | Some arr \<Rightarrow>
                 Some (n\<lparr>cl_chain := Some (take (unat (chain_len n)) (the (cl_chain n)) @
                           drop (unat (chain_len n)) arr), chain_cap := new_cap\<rparr>)
      else Some n)"

text \<open>The loop of \<^verbatim>\<open>ic_chain_extend\<close>: the inode as it is left, and whether 1 is returned.\<close>

partial_function (option) ic_chain_loop ::
    "(nat \<Rightarrow> u64 list option) \<Rightarrow> (u64 \<Rightarrow> u64) \<Rightarrow> u64 \<Rightarrow> ic_inode \<Rightarrow> (bool \<times> ic_inode) option" where
  "ic_chain_loop kalloc_arr next_cluster target n =
     (if chain_len n \<le> target
      then
        let lst = the (cl_chain n) ! unat (chain_len n - 1);
            nxt = next_cluster lst
        in if end_of_chain nxt then Some (False, n)
           else case ic_chain_grow kalloc_arr n of None \<Rightarrow> Some (False, n)
             | Some n1 \<Rightarrow>
                 ic_chain_loop kalloc_arr next_cluster target
                   (n1\<lparr>cl_chain := Some ((the (cl_chain n1))[unat (chain_len n1) := nxt]),
                       chain_len := chain_len n1 + 1\<rparr>)
      else Some (True, n))"

declare ic_chain_loop.simps [code]

definition ic_chain_extend ::
    "(nat \<Rightarrow> u64 list option) \<Rightarrow> (u64 \<Rightarrow> u64) \<Rightarrow> u64 \<Rightarrow> ic_inode \<Rightarrow> (bool \<times> ic_inode) option" where
  "ic_chain_extend kalloc_arr next_cluster target n =
     (if chain_len n = 0
      then
        case (if cl_chain n = None
              then map_option (\<lambda>arr. n\<lparr>cl_chain := Some arr, chain_cap := CC_INIT_CAP\<rparr>)
                     (kalloc_arr (unat CC_INIT_CAP))
              else Some n) of
          None \<Rightarrow> Some (False, n)
        | Some n1 \<Rightarrow>
            ic_chain_loop kalloc_arr next_cluster target
              (n1\<lparr>cl_chain := Some ((the (cl_chain n1))[0 := start_cluster n1]), chain_len := 1\<rparr>)
      else ic_chain_loop kalloc_arr next_cluster target n)"

text \<open>The linear walk over \<open>idx\<close> links, 0 past the end.\<close>

primrec walk_clusters :: "(u64 \<Rightarrow> u64) \<Rightarrow> nat \<Rightarrow> u64 \<Rightarrow> u64" where
  "walk_clusters next_cluster 0 cur = cur"
| "walk_clusters next_cluster (Suc i) cur =
     (let nxt = next_cluster cur in if end_of_chain nxt then 0 else walk_clusters next_cluster i nxt)"

text \<open>\<open>fs = None\<close> is the null pointer; otherwise it is the FAT lookup of the file system.\<close>

definition icache_chain_get ::
    "(nat \<Rightarrow> u64 list option) \<Rightarrow> (u64 \<Rightarrow> u64) option \<Rightarrow> u64 \<Rightarrow> u64 \<Rightarrow> icache \<Rightarrow> (u64 \<times> icache) option" where
  "icache_chain_get kalloc_arr fs cl idx st =
     (case fs of None \<Rightarrow> Some (0, st)
      | Some next_cluster \<Rightarrow>
     (if \<not> ic_initialized st \<or> cl < 2 then Some (0, st)
      else case icache_lookup cl st of None \<Rightarrow> None
        | Some (n, st1) \<Rightarrow>
            if n = NULL then Some (walk_clusters next_cluster (unat idx) cl, st1)
            else if idx < chain_len (ic_node st1 n)
            then Some (the (cl_chain (ic_node st1 n)) ! unat idx, st1)
            else case ic_chain_extend kalloc_arr next_cluster idx (ic_node st1 n) of None \<Rightarrow> None
              | Some (ok, n1) \<Rightarrow>
                  let st2 = upd_node n (\<lambda>_. n1) st1
                  in if \<not> ok then Some (0, st2) else Some (the (cl_chain n1) ! unat idx, st2)))"

definition icache_chain_invalidate :: "u64 \<Rightarrow> icache \<Rightarrow> icache option" where
  "icache_chain_invalidate cl st =
     (if \<not> ic_initialized st \<or> cl < 2 then Some st
      else case icache_lookup cl st of None \<Rightarrow> None
        | Some (n, st1) \<Rightarrow>
            if n = NULL then Some st1
            else if cl_chain (ic_node st1 n) \<noteq> None
            then Some (upd_node n (\<lambda>x. x\<lparr>cl_chain := None, chain_len := 0, chain_cap := 0\<rparr>) st1)
            else Some st1)"

record ic_stats =
  hits :: u64
  misses :: u64
  evictions :: u64
  total_entries :: u64

definition icache_get_stats :: "icache \<Rightarrow> ic_stats" where
  "icache_get_stats st = \<lparr>hits = ic_stat_hits st, misses = ic_stat_misses st,
     evictions = ic_stat_evictions st, total_entries = ic_entry_count st\<rparr>"

section \<open>Views of the state\<close>

definition ic_nexts :: "icache \<Rightarrow> addr \<Rightarrow> addr" where "ic_nexts st a = lru_next (ic_node st a)"
definition ic_prevs :: "icache \<Rightarrow> addr \<Rightarrow> addr" where "ic_prevs st a = lru_prev (ic_node st a)"
definition ic_hnexts :: "icache \<Rightarrow> addr \<Rightarrow> addr" where "ic_hnexts st a = hash_next (ic_node st a)"

text \<open>An inode without its links.\<close>

definition ic_unlinked :: "ic_inode \<Rightarrow> ic_inode" where
  "ic_unlinked n = n\<lparr>hash_next := 0, lru_prev := 0, lru_next := 0\<rparr>"

definition ic_body :: "icache \<Rightarrow> addr \<Rightarrow> ic_inode" where "ic_body st a = ic_unlinked (ic_node st a)"

lemmas ic_views = ic_nexts_def ic_prevs_def ic_hnexts_def ic_body_def ic_unlinked_def

lemma ic_body_sel:
  "start_cluster (ic_node st a) = start_cluster (ic_body st a)"
  "refcount (ic_node st a) = refcount (ic_body st a)"
  "cl_chain (ic_node st a) = cl_chain (ic_body st a)"
  "chain_len (ic_node st a) = chain_len (ic_body st a)"
  "chain_cap (ic_node st a) = chain_cap (ic_body st a)"
  by (simp_all add: ic_body_def ic_unlinked_def)

definition ic_same_but_lru :: "icache \<Rightarrow> icache \<Rightarrow> bool" where
  "ic_same_but_lru st st' \<longleftrightarrow> ic_hnexts st' = ic_hnexts st \<and> ic_body st' = ic_body st \<and>
     ic_head st' = ic_head st \<and> ic_live st' = ic_live st \<and> ic_lru_sentinel st' = ic_lru_sentinel st \<and>
     ic_entry_count st' = ic_entry_count st \<and> ic_initialized st' = ic_initialized st"

lemma ic_lru_add_views:
  assumes "e \<noteq> ic_lru_sentinel st"
  shows "ic_nexts (ic_lru_add e st) =
      (ic_nexts st)(e := ic_nexts st (ic_lru_sentinel st), ic_lru_sentinel st := e)"
    and "ic_prevs (ic_lru_add e st) =
      (ic_prevs st)(e := ic_lru_sentinel st, ic_nexts st (ic_lru_sentinel st) := e)"
    and "ic_same_but_lru st (ic_lru_add e st)"
  using assms
  by (auto simp: fun_eq_iff ic_views ic_same_but_lru_def ic_lru_add_def upd_node_def Let_def)

lemma ic_lru_remove_views:
  assumes "ic_prevs st e \<noteq> NULL" and "ic_nexts st e \<noteq> NULL"
    and "ic_prevs st e \<noteq> e" and "ic_nexts st e \<noteq> e"
  shows "ic_nexts (ic_lru_remove e st) = (ic_nexts st)(ic_prevs st e := ic_nexts st e, e := NULL)"
    and "ic_prevs (ic_lru_remove e st) = (ic_prevs st)(ic_nexts st e := ic_prevs st e, e := NULL)"
    and "ic_same_but_lru st (ic_lru_remove e st)"
  using assms
  by (auto simp: fun_eq_iff ic_views ic_same_but_lru_def ic_lru_remove_def upd_node_def Let_def)

text \<open>Removing an inode that is not on the ring changes nothing.\<close>

lemma ic_lru_remove_off:
  assumes "ic_prevs st e = NULL" and "ic_nexts st e = NULL"
  shows "ic_lru_remove e st = st"
  using assms by (auto simp: ic_lru_remove_def upd_node_def ic_views Let_def intro!: icache.equality)

lemma ic_set_slot_views:
  "ic_nexts (ic_set_slot b pp v st) = ic_nexts st" "ic_prevs (ic_set_slot b pp v st) = ic_prevs st"
  "ic_body (ic_set_slot b pp v st) = ic_body st" "ic_live (ic_set_slot b pp v st) = ic_live st"
  "ic_lru_sentinel (ic_set_slot b pp v st) = ic_lru_sentinel st"
  "ic_entry_count (ic_set_slot b pp v st) = ic_entry_count st"
  "ic_initialized (ic_set_slot b pp v st) = ic_initialized st"
  "ic_hnexts (ic_set_slot b pp v st) = (case pp of None \<Rightarrow> ic_hnexts st | Some a \<Rightarrow> (ic_hnexts st)(a := v))"
  "ic_head (ic_set_slot b pp v st) = (case pp of None \<Rightarrow> (ic_head st)(b := v) | Some a \<Rightarrow> ic_head st)"
  by (auto simp: fun_eq_iff ic_views ic_set_slot_def upd_node_def split: option.split)

text \<open>An assignment that leaves the links alone.\<close>

lemma upd_node_views:
  assumes "\<And>x. lru_next (f x) = lru_next x \<and> lru_prev (f x) = lru_prev x \<and> hash_next (f x) = hash_next x \<and>
    ic_unlinked (f x) = f (ic_unlinked x)"
  shows "ic_nexts (upd_node a f st) = ic_nexts st" "ic_prevs (upd_node a f st) = ic_prevs st"
    "ic_hnexts (upd_node a f st) = ic_hnexts st"
    "ic_body (upd_node a f st) = (ic_body st)(a := f (ic_body st a))"
    "ic_head (upd_node a f st) = ic_head st" "ic_live (upd_node a f st) = ic_live st"
    "ic_lru_sentinel (upd_node a f st) = ic_lru_sentinel st"
    "ic_entry_count (upd_node a f st) = ic_entry_count st"
    "ic_initialized (upd_node a f st) = ic_initialized st"
  using assms by (auto simp: fun_eq_iff upd_node_def ic_nexts_def ic_prevs_def ic_hnexts_def ic_body_def)

section \<open>The specification\<close>

text \<open>
  The cached inodes are \<open>xs\<close>, found through the buckets; those without references are
  \<open>ys\<close>, in the order of the LRU ring; the others have null LRU links.
\<close>

definition ic_bucket :: "icache \<Rightarrow> addr \<Rightarrow> nat" where
  "ic_bucket st a = ic_bucket_index (start_cluster (ic_body st a))"

definition inodes_ok :: "(addr \<Rightarrow> ic_inode) \<Rightarrow> addr list \<Rightarrow> bool" where
  "inodes_ok body xs \<longleftrightarrow> distinct xs \<and> inj_on (\<lambda>a. start_cluster (body a)) (set xs) \<and>
     (\<forall>a \<in> set xs. 2 \<le> start_cluster (body a) \<and> unat (refcount (body a)) < 2 ^ 31)"

definition ic_shape :: "icache \<Rightarrow> addr list \<Rightarrow> addr list \<Rightarrow> bool" where
  "ic_shape st xs ys \<longleftrightarrow>
     ring (ic_nexts st) (ic_prevs st) (ic_lru_sentinel st) ys \<and>
     hash_buckets IC_HASH_BUCKETS (ic_hnexts st) (ic_head st) (ic_bucket st) xs \<and>
     inodes_ok (ic_body st) xs \<and> ic_lru_sentinel st \<notin> set xs \<and>
     set ys = {a \<in> set xs. refcount (ic_body st a) = 0} \<and>
     (\<forall>a \<in> set xs. refcount (ic_body st a) \<noteq> 0 \<longrightarrow> ic_nexts st a = NULL \<and> ic_prevs st a = NULL) \<and>
     ic_live st = (\<lambda>a. a \<in> set xs) \<and> ic_entry_count st = of_nat (length xs) \<and>
     length xs \<le> unat IC_MAX_ENTRIES \<and> ic_initialized st"

text \<open>
  The state implements the inodes \<open>N\<close>, by address, of which those in \<open>L\<close> are not in use,
  most recently released first.
\<close>

definition inode_map :: "(addr \<Rightarrow> ic_inode) \<Rightarrow> addr list \<Rightarrow> (addr \<rightharpoonup> ic_inode)" where
  "inode_map body xs a = (if a \<in> set xs then Some (body a) else None)"

definition ic_rel :: "icache \<Rightarrow> (addr \<rightharpoonup> ic_inode) \<Rightarrow> addr list \<Rightarrow> bool" where
  "ic_rel st N L \<longleftrightarrow> (\<exists>xs. ic_shape st xs L \<and> N = inode_map (ic_body st) xs)"

lemma ic_bucket_index_less: "ic_bucket_index cl < IC_HASH_BUCKETS"
proof -
  have m: "IC_HASH_MASK = mask 9" by (simp add: IC_HASH_MASK_def mask_eq_exp_minus_1)
  show ?thesis unfolding ic_bucket_index_def IC_HASH_BUCKETS_def m unat_and_mask by simp
qed

lemma ic_bucket_less: "ic_bucket st a < IC_HASH_BUCKETS"
  by (simp add: ic_bucket_def ic_bucket_index_less)

lemma sint_small: "unat (w :: u32) < 2 ^ 31 \<Longrightarrow> sint w = int (unat w)"
proof -
  assume "unat w < 2 ^ 31"
  then have "int (unat w) < int (2 ^ 31)" by (simp only: of_nat_less_iff)
  then have "uint w < 2 ^ 31" by simp
  then have "signed_take_bit 31 (uint w) = uint w"
    using uint_ge_0 [of w] by (intro signed_take_bit_int_eq_self) linarith+
  then show ?thesis by (simp add: sint_uint)
qed

lemma sint_pos: "unat (w :: u32) < 2 ^ 31 \<Longrightarrow> sint w > 0 \<longleftrightarrow> w \<noteq> 0"
  using uint_ge_0 [of w] by (auto simp: sint_small order_less_le uint_0_iff)

section \<open>Search\<close>

lemma ic_search:
  assumes sh: "ic_shape st xs ys"
  defines "P \<equiv> \<lambda>cl a. start_cluster (ic_node st a) = cl"
  shows "x \<in> set xs \<Longrightarrow> start_cluster (ic_body st x) = cl \<Longrightarrow>
      find_node (\<lambda>a. hash_next (ic_node st a)) (P cl) (ic_head st (ic_bucket_index cl)) = Some x \<and> x \<noteq> NULL"
    and "(\<And>x. x \<in> set xs \<Longrightarrow> start_cluster (ic_body st x) \<noteq> cl) \<Longrightarrow>
      find_node (\<lambda>a. hash_next (ic_node st a)) (P cl) (ic_head st (ic_bucket_index cl)) = Some NULL"
proof -
  have hb: "hash_buckets IC_HASH_BUCKETS (ic_hnexts st) (ic_head st) (ic_bucket st) xs"
    and inj: "inj_on (\<lambda>a. start_cluster (ic_body st a)) (set xs)"
    using sh by (simp_all add: ic_shape_def inodes_ok_def)
  have hn: "(\<lambda>a. hash_next (ic_node st a)) = ic_hnexts st" by (simp add: ic_hnexts_def fun_eq_iff)
  show "find_node (\<lambda>a. hash_next (ic_node st a)) (P cl) (ic_head st (ic_bucket_index cl)) = Some x \<and> x \<noteq> NULL"
    if x: "x \<in> set xs" and cl: "start_cluster (ic_body st x) = cl"
  proof -
    have b: "ic_bucket st x = ic_bucket_index cl" by (simp add: ic_bucket_def cl)
    obtain us vs where ch: "chained (ic_hnexts st) (ic_head st (ic_bucket_index cl)) (us @ x # vs)"
      and set_b: "set (us @ x # vs) = {a \<in> set xs. ic_bucket st a = ic_bucket_index cl}"
      by (rule hash_buckets_split [OF hb x ic_bucket_less]) (use b in auto)
    have "\<not> P cl a" if "a \<in> set us" for a
    proof -
      have "a \<in> set xs" "a \<noteq> x" using that set_b chained_distinct [OF ch] by auto
      then show ?thesis using inj x cl by (auto simp: P_def ic_body_sel inj_on_def)
    qed
    then show ?thesis
      unfolding hn using find_node_found [OF ch, of "P cl"] chained_not_null [OF ch] cl
      by (auto simp: P_def ic_body_sel)
  qed
  show "find_node (\<lambda>a. hash_next (ic_node st a)) (P cl) (ic_head st (ic_bucket_index cl)) = Some NULL"
    if none: "\<And>x. x \<in> set xs \<Longrightarrow> start_cluster (ic_body st x) \<noteq> cl"
  proof -
    obtain cs where cs: "chained (ic_hnexts st) (ic_head st (ic_bucket_index cl)) cs" "set cs \<subseteq> set xs"
      using hb ic_bucket_index_less [of cl] by (auto simp: hash_buckets_def)
    have "find (P cl) cs = None" using cs(2) none by (auto simp: find_None_iff P_def ic_body_sel)
    then show ?thesis unfolding hn using find_node_chained [OF cs(1), of "P cl"] by simp
  qed
qed

section \<open>Taking inodes off the ring and out of the table\<close>

lemma ic_lru_remove_ring:
  assumes r: "ring (ic_nexts st) (ic_prevs st) (ic_lru_sentinel st) ys"
    and x: "x \<in> set ys \<or> ic_nexts st x = NULL \<and> ic_prevs st x = NULL"
  shows "ring (ic_nexts (ic_lru_remove x st)) (ic_prevs (ic_lru_remove x st)) (ic_lru_sentinel st) (remove1 x ys)"
    and "ic_same_but_lru st (ic_lru_remove x st)"
    and "a \<notin> set ys \<Longrightarrow> a \<noteq> ic_lru_sentinel st \<Longrightarrow> ic_nexts st a = NULL \<Longrightarrow> ic_prevs st a = NULL \<Longrightarrow>
      ic_nexts (ic_lru_remove x st) a = NULL \<and> ic_prevs (ic_lru_remove x st) a = NULL"
    and "ic_nexts (ic_lru_remove x st) x = NULL \<and> ic_prevs (ic_lru_remove x st) x = NULL"
proof -
  have "ring (ic_nexts (ic_lru_remove x st)) (ic_prevs (ic_lru_remove x st)) (ic_lru_sentinel st) (remove1 x ys) \<and>
      ic_same_but_lru st (ic_lru_remove x st) \<and>
      (a \<notin> set ys \<longrightarrow> a \<noteq> ic_lru_sentinel st \<longrightarrow> ic_nexts st a = NULL \<longrightarrow> ic_prevs st a = NULL \<longrightarrow>
        ic_nexts (ic_lru_remove x st) a = NULL \<and> ic_prevs (ic_lru_remove x st) a = NULL) \<and>
      ic_nexts (ic_lru_remove x st) x = NULL \<and> ic_prevs (ic_lru_remove x st) x = NULL"
  proof (cases "x \<in> set ys")
    case True
    note rr = ring_remove1 [OF r True] and lv = ic_lru_remove_views [OF ring_remove1(2-5) [OF r True]]
    show ?thesis using rr(1) lv ring_neighbours [OF r True] by auto
  next
    case False
    then show ?thesis
      using ic_lru_remove_off [of st x] r x by (simp add: remove1_idem ic_same_but_lru_def)
  qed
  then show "ring (ic_nexts (ic_lru_remove x st)) (ic_prevs (ic_lru_remove x st)) (ic_lru_sentinel st) (remove1 x ys)"
    and "ic_same_but_lru st (ic_lru_remove x st)"
    and "a \<notin> set ys \<Longrightarrow> a \<noteq> ic_lru_sentinel st \<Longrightarrow> ic_nexts st a = NULL \<Longrightarrow> ic_prevs st a = NULL \<Longrightarrow>
      ic_nexts (ic_lru_remove x st) a = NULL \<and> ic_prevs (ic_lru_remove x st) a = NULL"
    and "ic_nexts (ic_lru_remove x st) x = NULL \<and> ic_prevs (ic_lru_remove x st) x = NULL"
    by blast+
qed

lemma ic_lru_remove_shape:
  assumes sh: "ic_shape st xs ys" and x: "x \<in> set xs"
  shows "ring (ic_nexts (ic_lru_remove x st)) (ic_prevs (ic_lru_remove x st)) (ic_lru_sentinel st) (remove1 x ys)"
    and "ic_same_but_lru st (ic_lru_remove x st)"
    and "a \<in> set xs \<Longrightarrow> a \<notin> set (remove1 x ys) \<Longrightarrow>
      ic_nexts (ic_lru_remove x st) a = NULL \<and> ic_prevs (ic_lru_remove x st) a = NULL"
proof -
  have r: "ring (ic_nexts st) (ic_prevs st) (ic_lru_sentinel st) ys"
    and off: "\<And>a. a \<in> set xs \<Longrightarrow> a \<notin> set ys \<Longrightarrow> ic_nexts st a = NULL \<and> ic_prevs st a = NULL"
    and s: "ic_lru_sentinel st \<notin> set xs" and d: "distinct ys"
    using sh by (auto simp: ic_shape_def ring_def)
  have "x \<in> set ys \<or> ic_nexts st x = NULL \<and> ic_prevs st x = NULL" using off x by blast
  note lr = ic_lru_remove_ring [OF r this]
  show "ring (ic_nexts (ic_lru_remove x st)) (ic_prevs (ic_lru_remove x st)) (ic_lru_sentinel st) (remove1 x ys)"
    and "ic_same_but_lru st (ic_lru_remove x st)" by (rule lr)+
  show "ic_nexts (ic_lru_remove x st) a = NULL \<and> ic_prevs (ic_lru_remove x st) a = NULL"
    if "a \<in> set xs" "a \<notin> set (remove1 x ys)"
    using lr(3,4) off [of a] that s d by (cases "a = x") auto
qed

text \<open>
  Inode \<open>x\<close> leaves the ring and its bucket, in either order, and is freed: the state \<open>st'\<close> is
  given by its views.
\<close>

lemma ic_shape_dropped:
  assumes sh: "ic_shape st xs ys" and x: "x \<in> set xs"
    and lru: "ic_nexts st' = ic_nexts (ic_lru_remove x st)" "ic_prevs st' = ic_prevs (ic_lru_remove x st)"
    and hb: "hash_buckets IC_HASH_BUCKETS (ic_hnexts st') (ic_head st') (ic_bucket st) (remove1 x xs)"
    and rest: "ic_body st' = ic_body st" "ic_live st' = (ic_live st)(x := False)"
      "ic_entry_count st' = ic_entry_count st - 1" "ic_lru_sentinel st' = ic_lru_sentinel st"
      "ic_initialized st' = ic_initialized st"
  shows "ic_shape st' (remove1 x xs) (remove1 x ys)"
proof -
  have ok: "inodes_ok (ic_body st) xs" and r: "ring (ic_nexts st) (ic_prevs st) (ic_lru_sentinel st) ys"
    using sh by (simp_all add: ic_shape_def)
  have d: "distinct xs" "distinct ys" using ok r by (simp_all add: inodes_ok_def ring_def)
  note ls = ic_lru_remove_shape [OF sh x]
  have l: "length xs = Suc (length (remove1 x xs))"
    using x length_pos_if_in_set [OF x] by (simp add: length_remove1)
  have "inodes_ok (ic_body st) (remove1 x xs)"
    using ok d by (auto simp: inodes_ok_def inj_on_def)
  moreover have "ic_bucket st' = ic_bucket st" by (simp add: ic_bucket_def [abs_def] rest)
  moreover have "set (remove1 x ys) = {a \<in> set (remove1 x xs). refcount (ic_body st a) = 0}"
    using sh d by (auto simp: ic_shape_def)
  moreover have "ic_live st' = (\<lambda>a. a \<in> set (remove1 x xs))"
    using sh d by (auto simp: rest ic_shape_def fun_eq_iff)
  moreover have "ic_nexts st' a = NULL \<and> ic_prevs st' a = NULL"
    if "a \<in> set (remove1 x xs)" "refcount (ic_body st a) \<noteq> 0" for a
    unfolding lru by (rule ls(3)) (use that d sh in \<open>auto simp: ic_shape_def\<close>)
  ultimately show ?thesis
    using sh ls(1) hb l d by (auto simp: ic_shape_def rest lru)
qed

text \<open>Unlinking \<open>x\<close> from the bucket it is found in.\<close>

lemma ic_unlink:
  assumes sh: "ic_shape st xs ys" and x: "x \<in> set xs"
    and st1: "ic_hnexts st1 = ic_hnexts st" "ic_head st1 = ic_head st"
    and P: "P x" "\<And>a. a \<in> set xs \<Longrightarrow> P a \<Longrightarrow> a = x"
  shows "\<exists>pp. find_slot (ic_hnexts st1) P None (ic_head st1 (ic_bucket st x)) = Some (pp, x) \<and>
    hash_buckets IC_HASH_BUCKETS (ic_hnexts (ic_set_slot (ic_bucket st x) pp (ic_hnexts st x) st1))
      (ic_head (ic_set_slot (ic_bucket st x) pp (ic_hnexts st x) st1)) (ic_bucket st) (remove1 x xs)"
    and "x \<noteq> NULL"
proof -
  have hb: "hash_buckets IC_HASH_BUCKETS (ic_hnexts st) (ic_head st) (ic_bucket st) xs"
    and d: "distinct xs"
    using sh by (simp_all add: ic_shape_def inodes_ok_def)
  obtain us vs where ch: "chained (ic_hnexts st) (ic_head st (ic_bucket st x)) (us @ x # vs)"
    and set_b: "set (us @ x # vs) = {a \<in> set xs. ic_bucket st a = ic_bucket st x}"
    by (rule hash_buckets_split [OF hb x ic_bucket_less])
  show "x \<noteq> NULL" using chained_not_null [OF ch] by auto
  define pp where "pp = (if us = [] then None else Some (last us))"
  have "\<not> P a" if "a \<in> set us" for a
    using that P(2) [of a] set_b chained_distinct [OF ch] by auto
  then have "find_slot (ic_hnexts st1) P None (ic_head st1 (ic_bucket st x)) = Some (pp, x)"
    unfolding st1 pp_def by (intro find_slot_found [where P = P, OF ch] P(1))
  then show "\<exists>pp. find_slot (ic_hnexts st1) P None (ic_head st1 (ic_bucket st x)) = Some (pp, x) \<and>
    hash_buckets IC_HASH_BUCKETS (ic_hnexts (ic_set_slot (ic_bucket st x) pp (ic_hnexts st x) st1))
      (ic_head (ic_set_slot (ic_bucket st x) pp (ic_hnexts st x) st1)) (ic_bucket st) (remove1 x xs)"
    using hash_buckets_unlink(2) [OF hb d ic_bucket_less ch pp_def refl refl]
    unfolding ic_set_slot_views st1 by blast
qed

lemma ic_rel_dropped:
  assumes "ic_shape st xs L" and "ic_shape st' (remove1 x xs) (remove1 x L)" and "ic_body st' = ic_body st"
    and "N = inode_map (ic_body st) xs"
  shows "ic_rel st' (N(x := None)) (remove1 x L)"
proof -
  have "distinct xs" using assms(1) by (simp add: ic_shape_def inodes_ok_def)
  then have "N(x := None) = inode_map (ic_body st') (remove1 x xs)"
    using assms(3,4) by (auto simp: fun_eq_iff inode_map_def)
  then show ?thesis unfolding ic_rel_def using assms(2) by blast
qed

lemma ic_evict_empty: "ic_rel st N [] \<Longrightarrow> ic_evict_one st = Some st"
  using ring_last by (fastforce simp: ic_rel_def ic_shape_def ic_evict_one_def ic_prevs_def Let_def)

lemma ic_evict_refines:
  assumes rel: "ic_rel st N L" and ne: "L \<noteq> []"
  shows "\<exists>st'. ic_evict_one st = Some st' \<and> ic_rel st' (N(last L := None)) (butlast L) \<and>
    ic_entry_count st' = ic_entry_count st - 1"
proof -
  obtain xs where sh: "ic_shape st xs L"
    and N: "N = inode_map (ic_body st) xs"
    using rel by (auto simp: ic_rel_def)
  define x where "x = last L"
  have r: "ring (ic_nexts st) (ic_prevs st) (ic_lru_sentinel st) L" using sh by (simp add: ic_shape_def)
  have xL: "x \<in> set L" using ne by (simp add: x_def)
  have x: "x \<in> set xs" and rc: "refcount (ic_body st x) = 0" and xs: "x \<noteq> ic_lru_sentinel st"
    using sh xL by (auto simp: ic_shape_def)
  have v: "lru_prev (ic_node st (ic_lru_sentinel st)) = x"
    using ring_last [OF r] ne by (simp add: ic_prevs_def x_def)
  define st1 where "st1 = ic_lru_remove x st"
  note ls = ic_lru_remove_shape [OF sh x, folded st1_def]
  have e1: "ic_hnexts st1 = ic_hnexts st" "ic_head st1 = ic_head st" "ic_body st1 = ic_body st"
    using ls(2) by (simp_all add: ic_same_but_lru_def)
  obtain pp where fs: "find_slot (ic_hnexts st1) (\<lambda>a. a = x) None (ic_head st1 (ic_bucket st x)) = Some (pp, x)"
    and hb: "hash_buckets IC_HASH_BUCKETS (ic_hnexts (ic_set_slot (ic_bucket st x) pp (ic_hnexts st x) st1))
      (ic_head (ic_set_slot (ic_bucket st x) pp (ic_hnexts st x) st1)) (ic_bucket st) (remove1 x xs)"
    and x0: "x \<noteq> NULL"
    using ic_unlink [OF sh x e1(1,2), of "\<lambda>a. a = x"] by blast
  define st2 where "st2 = ic_set_slot (ic_bucket st x) pp (ic_hnexts st x) st1"
  define st3 where "st3 = ic_kfree x st2"
  define st4 where "st4 = st3\<lparr>ic_entry_count := ic_entry_count st3 - 1, ic_stat_evictions := ic_stat_evictions st3 + 1\<rparr>"
  have b: "ic_bucket_index (start_cluster (ic_node st1 x)) = ic_bucket st x"
    by (simp add: ic_body_sel e1 ic_bucket_def)
  have run: "ic_evict_one st = Some st4"
    using xs rc fs x0 e1(1) fun_cong [OF e1(1), of x]
    by (simp add: ic_evict_one_def v ic_body_sel Let_def st1_def [symmetric] b [unfolded ic_body_sel]
        ic_hnexts_def [symmetric] st2_def st3_def st4_def)
  have v4: "ic_nexts st4 = ic_nexts st1" "ic_prevs st4 = ic_prevs st1" "ic_hnexts st4 = ic_hnexts st2"
    "ic_head st4 = ic_head st2" "ic_body st4 = ic_body st" "ic_live st4 = (ic_live st)(x := False)"
    "ic_entry_count st4 = ic_entry_count st - 1" "ic_lru_sentinel st4 = ic_lru_sentinel st"
    "ic_initialized st4 = ic_initialized st"
    using ls(2) ic_set_slot_views [of "ic_bucket st x" pp "ic_hnexts st x" st1, folded st2_def]
    by (simp_all add: st4_def st3_def ic_kfree_def ic_same_but_lru_def ic_nexts_def [abs_def]
        ic_prevs_def [abs_def] ic_hnexts_def [abs_def] ic_body_def [abs_def])
  have "ic_shape st4 (remove1 x xs) (remove1 x L)"
    by (rule ic_shape_dropped [OF sh x]) (use v4 hb in \<open>simp_all add: st1_def st2_def\<close>)
  then have "ic_rel st4 (N(x := None)) (remove1 x L)" by (rule ic_rel_dropped [OF sh _ v4(5) N])
  moreover have "remove1 x L = butlast L"
    using ne r by (cases L rule: rev_cases) (auto simp: x_def remove1_append ring_def)
  ultimately show ?thesis using run v4(7) by (auto simp: x_def)
qed

text \<open>With all the inodes in use the loop of \<^verbatim>\<open>icache_get\<close> never ends.\<close>

lemma ic_make_room_hangs:
  assumes "ic_evict_one st = Some st" and "ic_entry_count st \<ge> IC_MAX_ENTRIES"
  shows "ic_make_room st = None"
proof -
  have "s \<noteq> st" if "ic_make_room s = Some y" for s y
    using that
  proof (rule ic_make_room.raw_induct [rotated])
    fix f s y
    assume IH: "\<And>s y. f s = Some y \<Longrightarrow> s \<noteq> st"
      and run: "(if ic_entry_count s \<ge> IC_MAX_ENTRIES then Option.bind (ic_evict_one s) f else Some s) = Some y"
    show "s \<noteq> st" using IH [of st y] run assms by auto
  qed
  then show ?thesis by (cases "ic_make_room st") auto
qed

section \<open>Getting and releasing inodes\<close>

lemma ic_rel_count:
  assumes "ic_rel st N L"
  shows "ic_entry_count st = of_nat (card (dom N))" and "card (dom N) \<le> 2048"
    and "ic_entry_count st \<ge> IC_MAX_ENTRIES \<longleftrightarrow> card (dom N) = 2048"
proof -
  obtain xs where sh: "ic_shape st xs L"
    and N: "N = inode_map (ic_body st) xs"
    using assms by (auto simp: ic_rel_def)
  have "dom N = set xs" by (auto simp: N dom_def inode_map_def)
  then have c: "card (dom N) = length xs" using sh by (simp add: ic_shape_def inodes_ok_def distinct_card)
  then show cnt: "ic_entry_count st = of_nat (card (dom N))" and le: "card (dom N) \<le> 2048"
    using sh by (simp_all add: ic_shape_def IC_MAX_ENTRIES_def)
  then have "unat (ic_entry_count st) = card (dom N)" by (simp add: unat_of_nat)
  then show "ic_entry_count st \<ge> IC_MAX_ENTRIES \<longleftrightarrow> card (dom N) = 2048"
    using le by (auto simp: IC_MAX_ENTRIES_def word_le_nat_alt)
qed

text \<open>What \<^verbatim>\<open>icache_get\<close> makes room to: nothing changes unless the cache is full.\<close>

definition room_map :: "(addr \<rightharpoonup> ic_inode) \<Rightarrow> addr list \<Rightarrow> (addr \<rightharpoonup> ic_inode)" where
  "room_map N L = (if card (dom N) = 2048 then N(last L := None) else N)"

definition room_list :: "(addr \<rightharpoonup> ic_inode) \<Rightarrow> addr list \<Rightarrow> addr list" where
  "room_list N L = (if card (dom N) = 2048 then butlast L else L)"

lemma ic_make_room_refines:
  assumes rel: "ic_rel st N L" and room: "card (dom N) < 2048 \<or> L \<noteq> []"
  shows "\<exists>st'. ic_make_room st = Some st' \<and> ic_rel st' (room_map N L) (room_list N L) \<and>
    card (dom (room_map N L)) < 2048"
proof (cases "card (dom N) = 2048")
  case False
  then show ?thesis
    using rel ic_rel_count [OF rel] by (subst ic_make_room.simps) (simp add: room_map_def room_list_def)
next
  case True
  then obtain st' where st': "ic_evict_one st = Some st'"
    "ic_rel st' (N(last L := None)) (butlast L)" "ic_entry_count st' = ic_entry_count st - 1"
    using ic_evict_refines [OF rel] room by auto
  have cnt: "ic_entry_count st' = 2047" using st'(3) ic_rel_count(1) [OF rel] True by simp
  then have "card (dom (N(last L := None))) \<noteq> 2048"
    using ic_rel_count(3) [OF st'(2)] by (simp add: IC_MAX_ENTRIES_def)
  then have lt: "card (dom (N(last L := None))) < 2048" using ic_rel_count(2) [OF st'(2)] by simp
  have "ic_make_room st' = Some st'"
    using cnt by (subst ic_make_room.simps) (simp add: IC_MAX_ENTRIES_def)
  then show ?thesis
    using st' ic_rel_count(3) [OF rel] True lt
    by (subst ic_make_room.simps) (simp add: room_map_def room_list_def)
qed

lemma ic_views_stats [simp]:
  "ic_nexts (st\<lparr>ic_stat_hits := v\<rparr>) = ic_nexts st" "ic_nexts (st\<lparr>ic_stat_misses := v\<rparr>) = ic_nexts st"
  "ic_prevs (st\<lparr>ic_stat_hits := v\<rparr>) = ic_prevs st" "ic_prevs (st\<lparr>ic_stat_misses := v\<rparr>) = ic_prevs st"
  "ic_hnexts (st\<lparr>ic_stat_hits := v\<rparr>) = ic_hnexts st" "ic_hnexts (st\<lparr>ic_stat_misses := v\<rparr>) = ic_hnexts st"
  "ic_body (st\<lparr>ic_stat_hits := v\<rparr>) = ic_body st" "ic_body (st\<lparr>ic_stat_misses := v\<rparr>) = ic_body st"
  by (simp_all add: fun_eq_iff ic_nexts_def ic_prevs_def ic_hnexts_def ic_body_def)

lemma ic_rel_stats [simp]:
  "ic_rel (st\<lparr>ic_stat_hits := v\<rparr>) N L \<longleftrightarrow> ic_rel st N L"
  "ic_rel (st\<lparr>ic_stat_misses := v\<rparr>) N L \<longleftrightarrow> ic_rel st N L"
  by (simp_all add: ic_rel_def ic_shape_def ic_bucket_def [abs_def])

text \<open>
  A change of inode \<open>x\<close> that keeps its cluster; \<open>ys'\<close> is the ring after it, given that the
  links of everything else that is in use are null.
\<close>

lemma ic_shape_updated:
  assumes sh: "ic_shape st xs ys" and x: "x \<in> set xs"
    and b: "ic_body st' = (ic_body st)(x := n)" "start_cluster n = start_cluster (ic_body st x)"
      "unat (refcount n) < 2 ^ 31"
    and lru: "ring (ic_nexts st') (ic_prevs st') (ic_lru_sentinel st) ys'"
      "set ys' = {a \<in> set xs. refcount (ic_body st' a) = 0}"
      "\<And>a. a \<in> set xs \<Longrightarrow> refcount (ic_body st' a) \<noteq> 0 \<Longrightarrow> ic_nexts st' a = NULL \<and> ic_prevs st' a = NULL"
    and rest: "ic_hnexts st' = ic_hnexts st" "ic_head st' = ic_head st" "ic_live st' = ic_live st"
      "ic_lru_sentinel st' = ic_lru_sentinel st" "ic_entry_count st' = ic_entry_count st"
      "ic_initialized st' = ic_initialized st"
  shows "ic_shape st' xs ys'"
proof -
  have sc: "start_cluster (ic_body st' a) = start_cluster (ic_body st a)" for a by (simp add: b)
  then have "ic_bucket st' = ic_bucket st" by (simp add: ic_bucket_def [abs_def])
  moreover have "inodes_ok (ic_body st') xs"
    using sh b(3) unfolding ic_shape_def inodes_ok_def sc by (auto simp: b(1))
  ultimately show ?thesis using sh lru by (simp add: ic_shape_def rest)
qed

lemma ic_rel_updated:
  assumes "ic_shape st' xs L" and "x \<in> set xs" and "ic_body st' = (ic_body st)(x := n)"
    and "N = inode_map (ic_body st) xs"
  shows "ic_rel st' (N(x \<mapsto> n)) L"
proof -
  have "N(x \<mapsto> n) = inode_map (ic_body st') xs"
    using assms(2-4) by (auto simp: fun_eq_iff inode_map_def)
  then show ?thesis unfolding ic_rel_def using assms(1) by blast
qed

text \<open>A second user of a cached inode.\<close>

lemma ic_rel_search:
  assumes rel: "ic_rel st N L"
  obtains xs where "ic_shape st xs L" and "N = inode_map (ic_body st) xs" and "ic_initialized st"
  using rel by (auto simp: ic_rel_def ic_shape_def)

lemma refcount_inc:
  assumes "unat (w :: u32) < 2 ^ 31" and "w \<noteq> 0x7FFFFFFF"
  shows "unat (w + 1) = unat w + 1" and "unat w + 1 < 2 ^ 31"
proof -
  have "unat w \<noteq> 0x7FFFFFFF" using assms(2) by (simp add: word_unat_eq_iff)
  then show "unat w + 1 < 2 ^ 31" using assms(1) by simp
  then have "unat w + unat (1 :: u32) < 2 ^ LENGTH(32)" by simp
  from unat_plus_no_wrap [OF this] show "unat (w + 1) = unat w + 1" by simp
qed

lemma icache_get_hit:
  assumes rel: "ic_rel st N L" and x: "N x = Some n" and cl: "start_cluster n = cl"
    and rc: "refcount n \<noteq> 0x7FFFFFFF"
  shows "\<exists>st'. icache_get kalloc cl i st = Some (x, st') \<and>
    ic_rel st' (N(x \<mapsto> (set_meta i n)\<lparr>ic_flags := ic_flags n OR IC_VALID, refcount := refcount n + 1\<rparr>))
      (remove1 x L)"
proof -
  obtain xs where sh: "ic_shape st xs L" and N: "N = inode_map (ic_body st) xs" and ini: "ic_initialized st"
    by (rule ic_rel_search [OF rel])
  have xs: "x \<in> set xs" and n: "n = ic_body st x" using x by (auto simp: N inode_map_def split: if_splits)
  have ok: "\<not> cl < 2" "unat (refcount n) < 2 ^ 31"
    using sh xs cl by (auto simp: ic_shape_def inodes_ok_def n)
  define f where "f = (\<lambda>m :: ic_inode. (set_meta i m)\<lparr>ic_flags := ic_flags m OR IC_VALID, refcount := refcount m + 1\<rparr>)"
  define st3 where "st3 = upd_node x f st"
  have f: "lru_next (f m) = lru_next m \<and> lru_prev (f m) = lru_prev m \<and> hash_next (f m) = hash_next m \<and>
      ic_unlinked (f m) = f (ic_unlinked m)" for m
    by (simp add: f_def set_meta_def ic_unlinked_def)
  note v3 = upd_node_views [of f x st, OF f, folded st3_def]
  note rc1 = refcount_inc [OF ok(2) rc]
  have r: "ring (ic_nexts st) (ic_prevs st) (ic_lru_sentinel st) L"
    and off: "\<And>a. a \<in> set xs \<Longrightarrow> a \<notin> set L \<Longrightarrow> ic_nexts st a = NULL \<and> ic_prevs st a = NULL"
    and s: "ic_lru_sentinel st \<notin> set xs" and d: "distinct L"
    and sL: "set L = {a \<in> set xs. refcount (ic_body st a) = 0}"
    using sh by (auto simp: ic_shape_def ring_def)
  define st4 where "st4 = ic_lru_remove x st3"
  have st4: "(if lru_prev (ic_node st3 x) \<noteq> NULL \<or> lru_next (ic_node st3 x) \<noteq> NULL
      then ic_lru_remove x st3 else st3) = st4"
    using ic_lru_remove_off [of st3 x] by (auto simp: st4_def ic_prevs_def ic_nexts_def)
  have run: "icache_get kalloc cl i st = Some (x, st4\<lparr>ic_stat_hits := ic_stat_hits st4 + 1\<rparr>)"
  proof -
    have "upd_node x (\<lambda>x. x\<lparr>refcount := refcount x + 1\<rparr>)
        (upd_node x (\<lambda>x. x\<lparr>ic_flags := ic_flags x OR IC_VALID\<rparr>) (upd_node x (set_meta i) st)) = st3"
      by (simp add: upd_node_def st3_def f_def set_meta_def)
    then show ?thesis
      using ic_search(1) [OF sh xs, of cl] cl ini ok(1) st4
      by (auto simp: icache_get_def n Let_def split: if_splits)
  qed
  have "x \<in> set L \<or> ic_nexts st3 x = NULL \<and> ic_prevs st3 x = NULL" using off [OF xs] v3 by auto
  note lr = ic_lru_remove_ring [of st3 L x, unfolded v3(1,2,7), OF r this [unfolded v3(1,2)], folded st4_def]
  have e4: "ic_body st4 = (ic_body st)(x := f n)"
    using lr(2) v3 by (simp add: ic_same_but_lru_def n)
  have "ic_shape st4 xs (remove1 x L)"
  proof (rule ic_shape_updated [OF sh xs e4])
    show "start_cluster (f n) = start_cluster (ic_body st x)" by (simp add: f_def set_meta_def n)
    have u: "unat (refcount (f n)) = unat (refcount n) + 1" using rc1(1) by (simp add: f_def)
    then show "unat (refcount (f n)) < 2 ^ 31" using rc1(2) by simp
    have "refcount (f n) \<noteq> 0" using u by auto
    then show sl: "set (remove1 x L) = {a \<in> set xs. refcount (ic_body st4 a) = 0}"
      using sL d by (auto simp: e4)
    show "ring (ic_nexts st4) (ic_prevs st4) (ic_lru_sentinel st) (remove1 x L)" by (rule lr(1))
    show "ic_nexts st4 a = NULL \<and> ic_prevs st4 a = NULL" if "a \<in> set xs" "refcount (ic_body st4 a) \<noteq> 0" for a
      using that off [of a] lr(3) [of a] lr(4) s sL by (cases "a = x") (auto simp: e4)
  qed (use lr(2) v3 in \<open>simp_all add: ic_same_but_lru_def\<close>)
  then have "ic_rel st4 (N(x \<mapsto> f n)) (remove1 x L)" by (rule ic_rel_updated [OF _ xs e4 N])
  then show ?thesis using run by (simp add: f_def n)
qed

text \<open>The contract of \<^verbatim>\<open>kalloc\<close>: a non-null result is not in use.\<close>

definition ic_kalloc_fresh :: "(icache \<Rightarrow> addr) \<Rightarrow> bool" where
  "ic_kalloc_fresh kalloc \<longleftrightarrow>
     (\<forall>st. kalloc st \<noteq> NULL \<longrightarrow> \<not> ic_live st (kalloc st) \<and> kalloc st \<noteq> ic_lru_sentinel st)"

definition new_inode :: "u64 \<Rightarrow> ic_info \<Rightarrow> ic_inode" where
  "new_inode cl i = (set_meta i zero_inode)\<lparr>start_cluster := cl, refcount := 1, ic_flags := IC_VALID\<rparr>"

text \<open>Entering inode \<open>n\<close> at address \<open>m\<close> at the head of its bucket.\<close>

lemma ic_enter:
  assumes rel: "ic_rel st N L" and len: "card (dom N) < 2048"
    and m: "m \<noteq> NULL" "\<not> ic_live st m" "m \<noteq> ic_lru_sentinel st"
    and n: "ic_unlinked n = n" "refcount n = 1" "2 \<le> start_cluster n"
    and uniq: "\<And>a k. N a = Some k \<Longrightarrow> start_cluster k \<noteq> start_cluster n"
    and st': "ic_node st' = (ic_node st)(m := n\<lparr>hash_next := ic_head st (ic_bucket_index (start_cluster n))\<rparr>)"
      "ic_head st' = (ic_head st)(ic_bucket_index (start_cluster n) := m)"
      "ic_live st' = (ic_live st)(m := True)" "ic_entry_count st' = ic_entry_count st + 1"
      "ic_lru_sentinel st' = ic_lru_sentinel st" "ic_initialized st' = ic_initialized st"
  shows "ic_rel st' (N(m \<mapsto> n)) L"
proof -
  obtain xs where sh: "ic_shape st xs L" and N: "N = inode_map (ic_body st) xs"
    by (rule ic_rel_search [OF rel])
  let ?b = "ic_bucket_index (start_cluster n)"
  have mx: "m \<notin> set xs" using sh m(2) by (simp add: ic_shape_def)
  have nl: "lru_next n = 0" "lru_prev n = 0"
    using arg_cong [OF n(1), of lru_next] arg_cong [OF n(1), of lru_prev] by (simp_all add: ic_unlinked_def)
  have v: "ic_nexts st' = (ic_nexts st)(m := 0)" "ic_prevs st' = (ic_prevs st)(m := 0)"
    "ic_hnexts st' = (ic_hnexts st)(m := ic_head st ?b)" "ic_body st' = (ic_body st)(m := n)"
    using n(1) nl by (auto simp: fun_eq_iff st' ic_nexts_def ic_prevs_def ic_hnexts_def ic_body_def ic_unlinked_def)
  have dN: "dom N = set xs" by (auto simp: N dom_def inode_map_def)
  have d: "distinct xs" and ok: "inodes_ok (ic_body st) xs" and Lx: "set L \<subseteq> set xs"
    and r: "ring (ic_nexts st) (ic_prevs st) (ic_lru_sentinel st) L"
    using sh by (auto simp: ic_shape_def inodes_ok_def)
  have bm: "ic_bucket st' m = ?b" by (simp add: ic_bucket_def v)
  have "ic_bucket st' a = ic_bucket st a" if "a \<in> set xs" for a
    using that mx by (auto simp: ic_bucket_def v)
  then have "hash_buckets IC_HASH_BUCKETS ((ic_hnexts st)(m := ic_head st (ic_bucket st' m)))
      ((ic_head st)(ic_bucket st' m := m)) (ic_bucket st') (m # xs)"
    using sh by (intro hash_buckets_push m(1) mx ic_bucket_less) (simp_all add: ic_shape_def)
  then have hb: "hash_buckets IC_HASH_BUCKETS (ic_hnexts st') (ic_head st') (ic_bucket st') (m # xs)"
    unfolding v(3) st'(2) bm .
  have sc: "start_cluster (ic_body st a) \<noteq> start_cluster n" if "a \<in> set xs" for a
    using uniq [of a] that by (auto simp: N inode_map_def)
  have old: "ic_body st' a = ic_body st a" if "a \<in> set xs" for a using that mx by (auto simp: v)
  have ok': "inodes_ok (ic_body st') (m # xs)"
    unfolding inodes_ok_def
  proof (intro conjI ballI)
    show "inj_on (\<lambda>a. start_cluster (ic_body st' a)) (set (m # xs))"
    proof (rule inj_onI)
      fix a c assume ac: "a \<in> set (m # xs)" "c \<in> set (m # xs)"
        and eq: "start_cluster (ic_body st' a) = start_cluster (ic_body st' c)"
      have im: "inj_on (\<lambda>a. start_cluster (ic_body st a)) (set xs)" using ok by (simp add: inodes_ok_def)
      have bm': "ic_body st' m = n" by (simp add: v(4))
      show "a = c"
      proof (cases "a = m"; cases "c = m")
        assume ne: "a \<noteq> m" "c \<noteq> m"
        then have mem: "a \<in> set xs" "c \<in> set xs" using ac by auto
        show "a = c" by (rule inj_onD [OF im _ mem]) (use eq old [OF mem(1)] old [OF mem(2)] in simp)
      next
        assume "a = m" "c \<noteq> m"
        then have "c \<in> set xs" using ac by auto
        with sc [OF this] old [OF this] eq bm' \<open>a = m\<close> show "a = c" by simp
      next
        assume "a \<noteq> m" "c = m"
        then have "a \<in> set xs" using ac by auto
        with sc [OF this] old [OF this] eq bm' \<open>c = m\<close> show "a = c" by simp
      qed simp
    qed
    fix a assume a: "a \<in> set (m # xs)"
    have bm': "ic_body st' m = n" by (simp add: v(4))
    show "2 \<le> start_cluster (ic_body st' a)"
      by (cases "a = m") (use ok old [of a] n(3) a bm' in \<open>simp_all add: inodes_ok_def\<close>)
    show "unat (refcount (ic_body st' a)) < 2 ^ 31"
      by (cases "a = m") (use ok old [of a] n(2) a bm' in \<open>simp_all add: inodes_ok_def\<close>)
  qed (use mx d in simp)
  have "ic_shape st' (m # xs) L"
    unfolding ic_shape_def
  proof (intro conjI)
    show "ring (ic_nexts st') (ic_prevs st') (ic_lru_sentinel st') L"
      unfolding v st'(5) by (rule ring_upd_other [OF r]) (use mx Lx m(3) in auto)
    show "set L = {a \<in> set (m # xs). refcount (ic_body st' a) = 0}"
      using sh mx n(2) by (auto simp: ic_shape_def v)
    show "\<forall>a\<in>set (m # xs). refcount (ic_body st' a) \<noteq> 0 \<longrightarrow> ic_nexts st' a = NULL \<and> ic_prevs st' a = NULL"
      using sh mx by (auto simp: ic_shape_def v)
    show "length (m # xs) \<le> unat IC_MAX_ENTRIES"
      using len dN d by (simp add: distinct_card IC_MAX_ENTRIES_def)
  qed (use sh hb ok' m(3) in \<open>auto simp: ic_shape_def st' fun_eq_iff\<close>)
  moreover have "N(m \<mapsto> n) = inode_map (ic_body st') (m # xs)"
    using mx by (auto simp: N inode_map_def v fun_eq_iff)
  ultimately show ?thesis unfolding ic_rel_def by blast
qed

lemma icache_get_miss:
  assumes rel: "ic_rel st N L" and room: "card (dom N) < 2048 \<or> L \<noteq> []"
    and none: "\<And>a n. N a = Some n \<Longrightarrow> start_cluster n \<noteq> cl" and cl: "2 \<le> cl"
    and fresh: "ic_kalloc_fresh kalloc"
  shows "\<exists>st1 st'. ic_rel st1 (room_map N L) (room_list N L) \<and>
    icache_get kalloc cl i st = Some (kalloc st1, st') \<and>
    ic_rel st' (if kalloc st1 = NULL then room_map N L else (room_map N L)(kalloc st1 \<mapsto> new_inode cl i))
      (room_list N L)"
proof -
  obtain xs where sh: "ic_shape st xs L" and N: "N = inode_map (ic_body st) xs" and ini: "ic_initialized st"
    by (rule ic_rel_search [OF rel])
  have miss: "find_node (\<lambda>a. hash_next (ic_node st a)) (\<lambda>a. start_cluster (ic_node st a) = cl)
      (ic_head st (ic_bucket_index cl)) = Some NULL"
  proof (rule ic_search(2) [OF sh])
    fix a assume "a \<in> set xs"
    then show "start_cluster (ic_body st a) \<noteq> cl"
      using none [of a "ic_body st a"] by (simp add: N inode_map_def)
  qed
  obtain st1 where st1: "ic_make_room st = Some st1" "ic_rel st1 (room_map N L) (room_list N L)"
    "card (dom (room_map N L)) < 2048"
    using ic_make_room_refines [OF rel room] by blast
  define m where "m = kalloc st1"
  have ncl: "\<not> cl < 2" using cl by auto
  show ?thesis
  proof (cases "m = NULL")
    case True
    then show ?thesis using miss ini ncl st1 by (auto simp: icache_get_def Let_def m_def)
  next
    case False
    define b where "b = ic_bucket_index cl"
    define st6 where "st6 = st1\<lparr>ic_live := (ic_live st1)(m := True),
      ic_node := (ic_node st1)(m := (new_inode cl i)\<lparr>hash_next := ic_head st1 b\<rparr>),
      ic_head := (ic_head st1)(b := m), ic_entry_count := ic_entry_count st1 + 1,
      ic_stat_misses := ic_stat_misses st1 + 1\<rparr>"
    have run: "icache_get kalloc cl i st = Some (m, st6)"
      using miss ini ncl st1(1) False
      by (simp add: icache_get_def Let_def m_def [symmetric] b_def [symmetric] upd_node_def st6_def
          new_inode_def set_meta_def zero_inode_def)
    have fr: "\<not> ic_live st1 m" "m \<noteq> ic_lru_sentinel st1"
      using fresh False by (auto simp: ic_kalloc_fresh_def m_def)
    have sel: "start_cluster (new_inode cl i) = cl" "refcount (new_inode cl i) = 1"
      "ic_unlinked (new_inode cl i) = new_inode cl i"
      by (simp_all add: new_inode_def set_meta_def zero_inode_def ic_unlinked_def)
    have "ic_rel st6 ((room_map N L)(m \<mapsto> new_inode cl i)) (room_list N L)"
    proof (rule ic_enter [OF st1(2,3) False fr sel(3) sel(2)])
      fix a k assume "room_map N L a = Some k"
      then show "start_cluster k \<noteq> start_cluster (new_inode cl i)"
        using none [of a k] by (auto simp: sel room_map_def split: if_splits)
    qed (simp_all add: sel cl st6_def b_def)
    then show ?thesis using run st1(2) False by (auto simp: m_def)
  qed
qed

text \<open>Changing the reference count, and taking the inode off the ring.\<close>

lemma icache_ref_refines:
  assumes rel: "ic_rel st N L" and x: "N x = Some n" and rc: "refcount n \<noteq> 0x7FFFFFFF"
  shows "ic_rel (icache_ref x st) (N(x \<mapsto> n\<lparr>refcount := refcount n + 1\<rparr>)) (remove1 x L)"
proof -
  obtain xs where sh: "ic_shape st xs L" and N: "N = inode_map (ic_body st) xs"
    by (rule ic_rel_search [OF rel])
  have xs: "x \<in> set xs" and n: "n = ic_body st x" using x by (auto simp: N inode_map_def split: if_splits)
  have small: "unat (refcount n) < 2 ^ 31" using sh xs by (auto simp: ic_shape_def inodes_ok_def n)
  define f where "f = (\<lambda>m :: ic_inode. m\<lparr>refcount := refcount m + 1\<rparr>)"
  define st1 where "st1 = upd_node x f st"
  have f: "lru_next (f m) = lru_next m \<and> lru_prev (f m) = lru_prev m \<and> hash_next (f m) = hash_next m \<and>
      ic_unlinked (f m) = f (ic_unlinked m)" for m
    by (simp add: f_def ic_unlinked_def)
  note v = upd_node_views [of f x st, OF f, folded st1_def]
  note rc1 = refcount_inc [OF small rc]
  have r: "ring (ic_nexts st) (ic_prevs st) (ic_lru_sentinel st) L"
    and off: "\<And>a. a \<in> set xs \<Longrightarrow> a \<notin> set L \<Longrightarrow> ic_nexts st a = NULL \<and> ic_prevs st a = NULL"
    and s: "ic_lru_sentinel st \<notin> set xs" and d: "distinct L"
    and sL: "set L = {a \<in> set xs. refcount (ic_body st a) = 0}" and x0: "x \<noteq> NULL"
    using sh ic_search(1) [OF sh xs] by (auto simp: ic_shape_def ring_def)
  define st2 where "st2 = ic_lru_remove x st1"
  have on: "x \<in> set L \<or> ic_nexts st1 x = NULL \<and> ic_prevs st1 x = NULL" using off [OF xs] v by auto
  have run: "icache_ref x st = st2"
  proof -
    have "icache_ref x st = (if refcount (ic_node st x) = 0 \<and> (ic_prevs st1 x \<noteq> NULL \<or> ic_nexts st1 x \<noteq> NULL)
        then ic_lru_remove x st1 else st1)"
      using x0 by (auto simp: icache_ref_def Let_def st1_def f_def ic_prevs_def ic_nexts_def)
    moreover have "refcount (ic_node st x) = 0 \<longleftrightarrow> x \<in> set L" using sL xs by (simp add: ic_body_sel)
    ultimately show ?thesis using ic_lru_remove_off [of st1 x] on by (auto simp: st2_def)
  qed
  note lr = ic_lru_remove_ring [of st1 L x, unfolded v(1,2,7), OF r on [unfolded v(1,2)], folded st2_def]
  have e2: "ic_body st2 = (ic_body st)(x := f n)" using lr(2) v by (simp add: ic_same_but_lru_def n)
  have "ic_shape st2 xs (remove1 x L)"
  proof (rule ic_shape_updated [OF sh xs e2])
    show "start_cluster (f n) = start_cluster (ic_body st x)" by (simp add: f_def n)
    have u: "unat (refcount (f n)) = unat (refcount n) + 1" using rc1(1) by (simp add: f_def)
    then show "unat (refcount (f n)) < 2 ^ 31" using rc1(2) by simp
    have "refcount (f n) \<noteq> 0" using u by auto
    then show "set (remove1 x L) = {a \<in> set xs. refcount (ic_body st2 a) = 0}" using sL d by (auto simp: e2)
    show "ring (ic_nexts st2) (ic_prevs st2) (ic_lru_sentinel st) (remove1 x L)" by (rule lr(1))
    show "ic_nexts st2 a = NULL \<and> ic_prevs st2 a = NULL" if "a \<in> set xs" "refcount (ic_body st2 a) \<noteq> 0" for a
      using that off [of a] lr(3) [of a] lr(4) s sL by (cases "a = x") (auto simp: e2)
  qed (use lr(2) v in \<open>simp_all add: ic_same_but_lru_def\<close>)
  then have "ic_rel st2 (N(x \<mapsto> f n)) (remove1 x L)" by (rule ic_rel_updated [OF _ xs e2 N])
  then show ?thesis by (simp add: run f_def n)
qed

lemma icache_unref_refines:
  assumes rel: "ic_rel st N L" and x: "N x = Some n" and rc: "refcount n \<noteq> 0"
  shows "ic_rel (icache_unref x st) (N(x \<mapsto> n\<lparr>refcount := refcount n - 1\<rparr>))
    (if refcount n = 1 then x # L else L)"
proof -
  obtain xs where sh: "ic_shape st xs L" and N: "N = inode_map (ic_body st) xs"
    by (rule ic_rel_search [OF rel])
  have xs: "x \<in> set xs" and n: "n = ic_body st x" using x by (auto simp: N inode_map_def split: if_splits)
  have small: "unat (refcount n) < 2 ^ 31" using sh xs by (auto simp: ic_shape_def inodes_ok_def n)
  define f where "f = (\<lambda>m :: ic_inode. m\<lparr>refcount := refcount m - 1\<rparr>)"
  define st1 where "st1 = upd_node x f st"
  have f: "lru_next (f m) = lru_next m \<and> lru_prev (f m) = lru_prev m \<and> hash_next (f m) = hash_next m \<and>
      ic_unlinked (f m) = f (ic_unlinked m)" for m
    by (simp add: f_def ic_unlinked_def)
  note v = upd_node_views [of f x st, OF f, folded st1_def]
  have u: "unat (refcount n - 1) = unat (refcount n) - 1" using rc by (simp add: unat_minus_one)
  have fn: "unat (refcount (f n)) < 2 ^ 31" "sint (refcount (f n)) \<ge> 0" "sint (refcount (f n)) \<le> 0 \<longleftrightarrow> refcount n = 1"
  proof -
    show lt: "unat (refcount (f n)) < 2 ^ 31" using small u by (simp add: f_def)
    have "sint (refcount (f n)) > 0 \<longleftrightarrow> refcount (f n) \<noteq> 0" by (rule sint_pos [OF lt])
    then show "sint (refcount (f n)) \<ge> 0" "sint (refcount (f n)) \<le> 0 \<longleftrightarrow> refcount n = 1"
      using sint_small [OF lt] by (auto simp: f_def)
  qed
  have r: "ring (ic_nexts st) (ic_prevs st) (ic_lru_sentinel st) L"
    and off: "\<And>a. a \<in> set xs \<Longrightarrow> a \<notin> set L \<Longrightarrow> ic_nexts st a = NULL \<and> ic_prevs st a = NULL"
    and s: "ic_lru_sentinel st \<notin> set xs" and d: "distinct L"
    and sL: "set L = {a \<in> set xs. refcount (ic_body st a) = 0}" and x0: "x \<noteq> NULL"
    using sh ic_search(1) [OF sh xs] by (auto simp: ic_shape_def ring_def)
  have xL: "x \<notin> set L" "x \<noteq> ic_lru_sentinel st" using sL rc n s xs by auto
  have e1: "ic_body st1 = (ic_body st)(x := f n)" using v n by simp
  define st2 where "st2 = (if refcount n = 1 then ic_lru_add x st1 else st1)"
  have run: "icache_unref x st = st2"
  proof -
    have "icache_unref x st = (if sint (refcount (ic_node st1 x)) \<le> 0
        then ic_lru_add x (if sint (refcount (ic_node st1 x)) < 0
          then upd_node x (\<lambda>x. x\<lparr>refcount := 0\<rparr>) st1 else st1) else st1)"
      using x0 by (simp add: icache_unref_def Let_def st1_def f_def)
    moreover have "refcount (ic_node st1 x) = refcount (f n)" by (simp add: ic_body_sel e1)
    ultimately show ?thesis using fn(2,3) by (simp add: st2_def)
  qed
  note av = ic_lru_add_views [of x st1, unfolded v(7), OF xL(2)]
  have e2: "ic_body st2 = (ic_body st)(x := f n)" and rest: "ic_same_but_lru st1 st2"
    using av(3) e1 by (auto simp: st2_def ic_same_but_lru_def)
  have "ic_shape st2 xs (if refcount n = 1 then x # L else L)"
  proof (rule ic_shape_updated [OF sh xs e2 _ fn(1)])
    have z: "refcount (f n) = 0 \<longleftrightarrow> refcount n = 1" by (simp add: f_def)
    show "set (if refcount n = 1 then x # L else L) = {a \<in> set xs. refcount (ic_body st2 a) = 0}"
      using sL xL xs z by (auto simp: e2)
    show "ring (ic_nexts st2) (ic_prevs st2) (ic_lru_sentinel st) (if refcount n = 1 then x # L else L)"
      using ring_push [OF r, of x] xL x0 r av v by (simp add: st2_def)
    show "ic_nexts st2 a = NULL \<and> ic_prevs st2 a = NULL" if a: "a \<in> set xs" "refcount (ic_body st2 a) \<noteq> 0" for a
    proof (cases "refcount n = 1")
      case True
      then have ax: "a \<noteq> x" "a \<notin> set L" using a z sL by (auto simp: e2 split: if_splits)
      moreover have "a \<noteq> ic_lru_sentinel st" using a(1) s by auto
      moreover have "ic_nexts st (ic_lru_sentinel st) \<in> insert (ic_lru_sentinel st) (set L)"
        using dll_ends [of "ic_nexts st" "ic_prevs st" "ic_lru_sentinel st" L "ic_lru_sentinel st"] r
        by (cases L) (auto simp: ring_def)
      ultimately show ?thesis using off [OF a(1)] True av v by (auto simp: st2_def)
    next
      case False
      then show ?thesis using off [of a] a sL xL v by (cases "a = x") (auto simp: st2_def e2 off xs)
    qed
  qed (use rest v in \<open>simp_all add: ic_same_but_lru_def f_def n\<close>)
  then have "ic_rel st2 (N(x \<mapsto> f n)) (if refcount n = 1 then x # L else L)"
    by (rule ic_rel_updated [OF _ xs e2 N])
  then show ?thesis by (simp add: run f_def n)
qed

lemma icache_remove_refines:
  assumes rel: "ic_rel st N L" and x: "N x = Some n" and cl: "start_cluster n = cl"
  shows "\<exists>st'. icache_remove cl st = Some st' \<and> ic_rel st' (N(x := None)) (remove1 x L) \<and> \<not> ic_live st' x"
proof -
  obtain xs where sh: "ic_shape st xs L" and N: "N = inode_map (ic_body st) xs" and ini: "ic_initialized st"
    by (rule ic_rel_search [OF rel])
  have xs: "x \<in> set xs" and n: "n = ic_body st x" using x by (auto simp: N inode_map_def split: if_splits)
  have cl2: "\<not> cl < 2" and inj: "inj_on (\<lambda>a. start_cluster (ic_body st a)) (set xs)"
    using sh xs cl by (auto simp: ic_shape_def inodes_ok_def n)
  have b: "ic_bucket st x = ic_bucket_index cl" using cl n by (simp add: ic_bucket_def)
  define P where "P = (\<lambda>a. start_cluster (ic_node st a) = cl)"
  have P: "P x" "\<And>a. a \<in> set xs \<Longrightarrow> P a \<Longrightarrow> a = x"
    using cl n inj xs by (auto simp: P_def ic_body_sel inj_on_def)
  obtain pp where fs: "find_slot (ic_hnexts st) P None (ic_head st (ic_bucket st x)) = Some (pp, x)"
    and hb: "hash_buckets IC_HASH_BUCKETS (ic_hnexts (ic_set_slot (ic_bucket st x) pp (ic_hnexts st x) st))
      (ic_head (ic_set_slot (ic_bucket st x) pp (ic_hnexts st x) st)) (ic_bucket st) (remove1 x xs)"
    and x0: "x \<noteq> NULL"
    using ic_unlink [of st xs L x st P, OF sh xs refl refl P] by blast
  define st1 where "st1 = ic_set_slot (ic_bucket st x) pp (ic_hnexts st x) st"
  note v1 = ic_set_slot_views [of "ic_bucket st x" pp "ic_hnexts st x" st, folded st1_def]
  define st2 where "st2 = ic_lru_remove x st1"
  define st4 where "st4 = (ic_kfree x st2)\<lparr>ic_entry_count := ic_entry_count (ic_kfree x st2) - 1\<rparr>"
  have hn: "(\<lambda>a. hash_next (ic_node st a)) = ic_hnexts st" by (simp add: ic_hnexts_def fun_eq_iff)
  have run: "icache_remove cl st = Some st4"
    using fs x0 ini cl2
    by (simp add: icache_remove_def Let_def hn P_def b st4_def st2_def st1_def ic_hnexts_def)
  have r: "ring (ic_nexts st1) (ic_prevs st1) (ic_lru_sentinel st1) L"
    and "x \<in> set L \<or> ic_nexts st1 x = NULL \<and> ic_prevs st1 x = NULL"
    using sh xs v1 by (auto simp: ic_shape_def)
  note lr = ic_lru_remove_ring [OF this, folded st2_def]
  have lru: "ic_nexts st2 = ic_nexts (ic_lru_remove x st)" "ic_prevs st2 = ic_prevs (ic_lru_remove x st)"
    using v1(1,2) by (auto simp: st2_def ic_lru_remove_def upd_node_def Let_def fun_eq_iff ic_nexts_def ic_prevs_def)
  have v4: "ic_nexts st4 = ic_nexts st2" "ic_prevs st4 = ic_prevs st2" "ic_hnexts st4 = ic_hnexts st1"
    "ic_head st4 = ic_head st1" "ic_body st4 = ic_body st" "ic_live st4 = (ic_live st)(x := False)"
    "ic_entry_count st4 = ic_entry_count st - 1" "ic_lru_sentinel st4 = ic_lru_sentinel st"
    "ic_initialized st4 = ic_initialized st"
    using lr(2) v1 by (simp_all add: st4_def ic_kfree_def ic_same_but_lru_def ic_nexts_def [abs_def]
        ic_prevs_def [abs_def] ic_hnexts_def [abs_def] ic_body_def [abs_def])
  have "ic_shape st4 (remove1 x xs) (remove1 x L)"
    by (rule ic_shape_dropped [OF sh xs]) (use v4 lru hb in \<open>simp_all add: st1_def\<close>)
  then have "ic_rel st4 (N(x := None)) (remove1 x L)" by (rule ic_rel_dropped [OF sh _ v4(5) N])
  then show ?thesis using run v4(6) by simp
qed

section \<open>The cluster chain\<close>

lemma walk_clusters_Suc:
  "cur \<noteq> 0 \<Longrightarrow> walk_clusters next_cluster (Suc i) cur =
     (let p = walk_clusters next_cluster i cur
      in if p = 0 \<or> end_of_chain (next_cluster p) then 0 else next_cluster p)"
proof (induction i arbitrary: cur)
  case (Suc i)
  show ?case
  proof (cases "end_of_chain (next_cluster cur)")
    case False
    then have "next_cluster cur \<noteq> 0" by (auto simp: end_of_chain_def)
    from Suc.IH [OF this] False show ?thesis by (simp add: Let_def)
  qed (simp add: Let_def)
qed (simp add: Let_def)

lemma walk_clusters_past:
  assumes "walk_clusters f i cur = 0" and "cur \<noteq> 0" and "i \<le> j"
  shows "walk_clusters f j cur = 0"
  using assms(3,1)
proof (induction rule: dec_induct)
  case (step k)
  then show ?case using walk_clusters_Suc [OF assms(2), of f k] by simp
qed

text \<open>
  The array holds a prefix of the chain of the file: its first \<open>chain_len\<close> elements are the
  clusters the linear walk finds.
\<close>

definition chain_ok :: "(u64 \<Rightarrow> u64) \<Rightarrow> ic_inode \<Rightarrow> bool" where
  "chain_ok next_cluster n \<longleftrightarrow>
     (case cl_chain n of None \<Rightarrow> chain_len n = 0
      | Some arr \<Rightarrow> length arr = unat (chain_cap n) \<and> unat (chain_len n) \<le> unat (chain_cap n) \<and>
          64 \<le> unat (chain_cap n) \<and> unat (chain_cap n) \<le> 2 ^ 20 \<and>
          (\<forall>i < unat (chain_len n). arr ! i = walk_clusters next_cluster i (start_cluster n) \<and>
             walk_clusters next_cluster i (start_cluster n) \<noteq> 0))"

text \<open>What \<^verbatim>\<open>kalloc\<close> returns, if anything, has the size asked for. It may fail for an array within the limit.\<close>

definition kalloc_arr_ok :: "(nat \<Rightarrow> u64 list option) \<Rightarrow> bool" where
  "kalloc_arr_ok kalloc_arr \<longleftrightarrow> (\<forall>k arr. kalloc_arr k = Some arr \<longrightarrow> length arr = k)"

definition kalloc_arr_fails :: "(nat \<Rightarrow> u64 list option) \<Rightarrow> bool" where
  "kalloc_arr_fails kalloc_arr \<longleftrightarrow> (\<exists>k \<le> 2 ^ 20. kalloc_arr k = None)"

text \<open>All but the three fields of the chain is the same.\<close>

definition same_but_chain :: "ic_inode \<Rightarrow> ic_inode \<Rightarrow> bool" where
  "same_but_chain n n' \<longleftrightarrow> (\<exists>c l k. n' = n\<lparr>cl_chain := c, chain_len := l, chain_cap := k\<rparr>)"

lemma same_but_chain_refl [simp]: "same_but_chain n n"
  unfolding same_but_chain_def
  by (rule exI [of _ "cl_chain n"], rule exI [of _ "chain_len n"], rule exI [of _ "chain_cap n"]) simp

lemma same_but_chain_trans: "same_but_chain n m \<Longrightarrow> same_but_chain m k \<Longrightarrow> same_but_chain n k"
  unfolding same_but_chain_def by (elim exE) (simp, blast)

lemma same_but_chain_cap: "same_but_chain n (n\<lparr>cl_chain := c, chain_cap := k\<rparr>)"
  unfolding same_but_chain_def
  by (rule exI [of _ c], rule exI [of _ "chain_len n"], rule exI [of _ k]) simp

lemma same_but_chain_len: "same_but_chain n (n\<lparr>cl_chain := c, chain_len := l\<rparr>)"
  unfolding same_but_chain_def
  by (rule exI [of _ c], rule exI [of _ l], rule exI [of _ "chain_cap n"]) simp

text \<open>Growing keeps the elements; below the limit of \<^verbatim>\<open>CC_MAX_CAP\<close> elements it fails only for want of memory.\<close>

lemma chain_grow_ok:
  assumes ok: "chain_ok next_cluster n" and arr: "cl_chain n = Some arr" and ka: "kalloc_arr_ok kalloc_arr"
    and lim: "unat (chain_len n) < 2 ^ 20"
  shows "ic_chain_grow kalloc_arr n = None \<and> kalloc_arr_fails kalloc_arr \<or>
    (\<exists>n1 arr1. ic_chain_grow kalloc_arr n = Some n1 \<and> chain_ok next_cluster n1 \<and> cl_chain n1 = Some arr1 \<and>
     chain_len n1 = chain_len n \<and> start_cluster n1 = start_cluster n \<and>
     unat (chain_len n1) < unat (chain_cap n1) \<and> same_but_chain n n1)"
proof (cases "chain_cap n \<le> chain_len n")
  case False
  then show ?thesis using ok arr by (auto simp: ic_chain_grow_def word_le_nat_alt)
next
  case True
  have c: "unat (chain_len n) = unat (chain_cap n)" "length arr = unat (chain_cap n)"
    "64 \<le> unat (chain_cap n)"
    using True ok arr by (auto simp: chain_ok_def word_le_nat_alt)
  define nc where "nc = (if chain_cap n * 2 > CC_MAX_CAP then CC_MAX_CAP else chain_cap n * 2)"
  have u2: "unat (chain_cap n * 2) = unat (chain_cap n) * 2"
    using lim c by (simp add: unat_word_ariths)
  have unc: "unat nc = min (2 ^ 20) (unat (chain_cap n) * 2)"
    using u2 by (auto simp: nc_def CC_MAX_CAP_def word_less_nat_alt min_def)
  have gt: "unat (chain_cap n) < unat nc" using lim c unc by auto
  have new: "\<not> nc \<le> chain_cap n" using gt by (simp add: word_le_nat_alt)
  show ?thesis
  proof (cases "kalloc_arr (unat nc)")
    case None
    then have "ic_chain_grow kalloc_arr n = None" using True new by (simp add: ic_chain_grow_def Let_def nc_def [symmetric])
    then show ?thesis using None unc unfolding kalloc_arr_fails_def by (metis min.cobounded1)
  next
    case (Some arr')
    have arr': "kalloc_arr (unat nc) = Some arr'" "length arr' = unat nc" using Some ka by (simp_all add: kalloc_arr_ok_def)
    define arr1 where "arr1 = take (unat (chain_len n)) arr @ drop (unat (chain_len n)) arr'"
    define n1 where "n1 = n\<lparr>cl_chain := Some arr1, chain_cap := nc\<rparr>"
    have run: "ic_chain_grow kalloc_arr n = Some n1"
      using True new arr'(1) arr by (simp add: ic_chain_grow_def Let_def nc_def [symmetric] n1_def arr1_def)
    have "length arr1 = unat nc" using c arr'(2) gt by (simp add: arr1_def)
    moreover have "arr1 ! i = arr ! i" if "i < unat (chain_len n)" for i
      using that c by (simp add: arr1_def nth_append)
    ultimately have "chain_ok next_cluster n1"
      using ok arr gt c unc by (auto simp: chain_ok_def n1_def)
    then show ?thesis using run gt c(1) by (simp add: n1_def same_but_chain_cap)
  qed
qed

text \<open>
  The loop returns; it ends with the chain filled up to the target, or it stops where the
  chain of the file ends, at the limit of the array, or for want of memory.
\<close>

lemma chain_loop_ok:
  assumes ok: "chain_ok next_cluster n" and arr: "cl_chain n = Some arr" and ka: "kalloc_arr_ok kalloc_arr"
    and pos: "0 < unat (chain_len n)" and st: "start_cluster n \<noteq> 0"
  shows "\<exists>r n'. ic_chain_loop kalloc_arr next_cluster target n = Some (r, n') \<and> chain_ok next_cluster n' \<and>
    same_but_chain n n' \<and>
    (if r then target < chain_len n'
     else walk_clusters next_cluster (unat target) (start_cluster n) = 0 \<or> 2 ^ 20 \<le> unat target \<or> kalloc_arr_fails kalloc_arr)"
  using ok arr pos st
proof (induction "2 ^ 20 - unat (chain_len n)" arbitrary: n arr rule: less_induct)
  case less
  note ok = less.prems(1) and arr = less.prems(2) and pos = less.prems(3) and st = less.prems(4)
  show ?case
  proof (cases "chain_len n \<le> target")
    case False
    then have "ic_chain_loop kalloc_arr next_cluster target n = Some (True, n)"
      by (subst ic_chain_loop.simps) simp
    then show ?thesis
      using False ok arr by (intro exI [of _ True] exI [of _ n]) (simp add: not_le)
  next
    case le: True
    define k where "k = unat (chain_len n) - 1"
    have k: "unat (chain_len n) = Suc k" using pos by (simp add: k_def)
    have u: "unat (chain_len n - 1) = k" using pos by (simp add: k_def unat_minus_one unat_gt_0)
    have ak: "arr ! k = walk_clusters next_cluster k (start_cluster n)" "arr ! k \<noteq> 0"
      using ok arr k by (auto simp: chain_ok_def)
    define nxt where "nxt = next_cluster (arr ! k)"
    have wS: "walk_clusters next_cluster (Suc k) (start_cluster n) = (if end_of_chain nxt then 0 else nxt)"
      using walk_clusters_Suc [OF st, of next_cluster k] ak by (simp add: Let_def nxt_def)
    have tk: "Suc k \<le> unat target" using le k by (simp add: word_le_nat_alt)
    show ?thesis
    proof (cases "end_of_chain nxt")
      case True
      then have "walk_clusters next_cluster (unat target) (start_cluster n) = 0"
        using walk_clusters_past [OF _ st tk] wS by simp
      moreover have "ic_chain_loop kalloc_arr next_cluster target n = Some (False, n)"
        using True le arr u by (subst ic_chain_loop.simps) (simp add: Let_def nxt_def)
      ultimately show ?thesis using ok arr by (intro exI [of _ False] exI [of _ n]) simp
    next
      case False
      show ?thesis
      proof (cases "unat (chain_len n) < 2 ^ 20")
        case lim: False
        have "chain_cap n \<le> chain_len n" "unat (chain_cap n) = 2 ^ 20"
          using ok arr lim by (auto simp: chain_ok_def word_le_nat_alt)
        then have "chain_cap n = 0x100000" by (simp add: word_unat_eq_iff)
        then have "ic_chain_grow kalloc_arr n = None"
          using \<open>chain_cap n \<le> chain_len n\<close> by (simp add: ic_chain_grow_def Let_def CC_MAX_CAP_def)
        then have "ic_chain_loop kalloc_arr next_cluster target n = Some (False, n)"
          using False le arr u by (subst ic_chain_loop.simps) (simp add: Let_def nxt_def)
        moreover have "2 ^ 20 \<le> unat target" using lim tk k by simp
        ultimately show ?thesis using ok arr by (intro exI [of _ False] exI [of _ n]) simp
      next
        case lim: True
        show ?thesis
        proof (cases "ic_chain_grow kalloc_arr n = None")
          case none: True
          then have "ic_chain_loop kalloc_arr next_cluster target n = Some (False, n)"
            using False le arr u by (subst ic_chain_loop.simps) (simp add: Let_def nxt_def)
          then show ?thesis using ok none chain_grow_ok [OF ok arr ka lim] by (intro exI [of _ False] exI [of _ n]) auto
        next
          case some: False
          obtain n1 arr1 where g: "ic_chain_grow kalloc_arr n = Some n1" "chain_ok next_cluster n1"
            "cl_chain n1 = Some arr1" "chain_len n1 = chain_len n" "start_cluster n1 = start_cluster n"
            "unat (chain_len n1) < unat (chain_cap n1)"
            "same_but_chain n n1"
            using chain_grow_ok [OF ok arr ka lim] some by blast
          define n2 where "n2 = n1\<lparr>cl_chain := Some (arr1[unat (chain_len n1) := nxt]), chain_len := chain_len n1 + 1\<rparr>"
          have u1: "unat (chain_len n1 + 1) = Suc (unat (chain_len n))"
            using unat_plus_no_wrap [of "chain_len n1" 1] lim g(4) by simp
          have nz: "nxt \<noteq> 0" using False by (auto simp: end_of_chain_def)
          have c1: "length arr1 = unat (chain_cap n1)" "64 \<le> unat (chain_cap n1)" "unat (chain_cap n1) \<le> 2 ^ 20"
            "\<forall>i < unat (chain_len n). arr1 ! i = walk_clusters next_cluster i (start_cluster n) \<and>
               walk_clusters next_cluster i (start_cluster n) \<noteq> 0"
            using g(2,3,4,5) by (simp_all add: chain_ok_def)
          have "arr1[unat (chain_len n1) := nxt] ! i = walk_clusters next_cluster i (start_cluster n) \<and>
              walk_clusters next_cluster i (start_cluster n) \<noteq> 0" if "i < Suc (unat (chain_len n))" for i
            using that c1(1,4) g(4,6) wS False nz k by (cases "i = unat (chain_len n)") auto
          then have ok2: "chain_ok next_cluster n2"
            using c1 g(4-6) u1 by (simp add: chain_ok_def n2_def)
          have sb: "same_but_chain n n2"
            using same_but_chain_trans [OF g(7) same_but_chain_len] by (simp add: n2_def)
          have ul: "unat (chain_len n2) = Suc (unat (chain_len n))" using u1 by (simp add: n2_def)
          have dec: "2 ^ 20 - unat (chain_len n2) < 2 ^ 20 - unat (chain_len n)" using ul lim by simp
          have pos2: "0 < unat (chain_len n2)" and st2: "start_cluster n2 \<noteq> 0" "start_cluster n2 = start_cluster n"
            and a2: "cl_chain n2 = Some (arr1[unat (chain_len n1) := nxt])"
            using ul st g(5) by (simp_all add: n2_def)
          have "ic_chain_loop kalloc_arr next_cluster target n = ic_chain_loop kalloc_arr next_cluster target n2"
            using le False g(1,3) u arr
            by (subst ic_chain_loop.simps) (simp add: Let_def nxt_def [symmetric] n2_def)
          moreover obtain r n' where "ic_chain_loop kalloc_arr next_cluster target n2 = Some (r, n')"
            "chain_ok next_cluster n'" "same_but_chain n2 n'"
            "if r then target < chain_len n'
             else walk_clusters next_cluster (unat target) (start_cluster n2) = 0 \<or> 2 ^ 20 \<le> unat target \<or> kalloc_arr_fails kalloc_arr"
            using less.hyps [OF dec ok2 a2 pos2 st2(1)] by blast
          ultimately show ?thesis
            using st2(2) same_but_chain_trans [OF sb] by (intro exI [of _ r] exI [of _ n']) (auto split: if_splits)
        qed
      qed
    qed
  qed
qed

lemma chain_extend_ok:
  assumes ok: "chain_ok next_cluster n" and ka: "kalloc_arr_ok kalloc_arr" and st: "start_cluster n \<noteq> 0"
  shows "\<exists>r n'. ic_chain_extend kalloc_arr next_cluster target n = Some (r, n') \<and> chain_ok next_cluster n' \<and>
    same_but_chain n n' \<and>
    (if r then target < chain_len n'
     else walk_clusters next_cluster (unat target) (start_cluster n) = 0 \<or> 2 ^ 20 \<le> unat target \<or> kalloc_arr_fails kalloc_arr)"
proof (cases "chain_len n = 0")
  case False
  then obtain arr where arr: "cl_chain n = Some arr" using ok by (auto simp: chain_ok_def split: option.splits)
  have "0 < unat (chain_len n)" using False by (simp add: unat_gt_0)
  from chain_loop_ok [OF ok arr ka this st, of target] False show ?thesis by (simp add: ic_chain_extend_def)
next
  case True
  show ?thesis
  proof (cases "cl_chain n = None \<and> kalloc_arr 64 = None")
    case fails: True
    then have "ic_chain_extend kalloc_arr next_cluster target n = Some (False, n)"
      using True by (simp add: ic_chain_extend_def CC_INIT_CAP_def)
    moreover have "kalloc_arr_fails kalloc_arr" using fails by (auto simp: kalloc_arr_fails_def intro: exI [of _ 64])
    ultimately show ?thesis using ok by (intro exI [of _ False] exI [of _ n]) simp
  next
    case got: False
    obtain n1 arr where n1: "(if cl_chain n = None
        then map_option (\<lambda>arr. n\<lparr>cl_chain := Some arr, chain_cap := CC_INIT_CAP\<rparr>) (kalloc_arr (unat CC_INIT_CAP))
        else Some n) = Some n1" "cl_chain n1 = Some arr" "length arr = unat (chain_cap n1)"
      "64 \<le> unat (chain_cap n1)" "unat (chain_cap n1) \<le> 2 ^ 20" "same_but_chain n n1" "start_cluster n1 = start_cluster n"
    proof (cases "cl_chain n")
      case None
      obtain arr where "kalloc_arr 64 = Some arr" "length arr = 64" using got None ka by (auto simp: kalloc_arr_ok_def)
      then show ?thesis
        using that [of "n\<lparr>cl_chain := Some arr, chain_cap := CC_INIT_CAP\<rparr>" arr] None
        by (simp add: CC_INIT_CAP_def same_but_chain_cap)
    next
      case (Some arr)
      then show ?thesis using that [of n arr] ok by (simp add: chain_ok_def)
    qed
    define n2 where "n2 = n1\<lparr>cl_chain := Some (arr[0 := start_cluster n1]), chain_len := 1\<rparr>"
    have ok2: "chain_ok next_cluster n2"
      using n1 st by (simp add: chain_ok_def n2_def)
    have sb: "same_but_chain n n2"
      using same_but_chain_trans [OF n1(6) same_but_chain_len] by (simp add: n2_def)
    have "ic_chain_extend kalloc_arr next_cluster target n = ic_chain_loop kalloc_arr next_cluster target n2"
      using True n1(1,2) unfolding ic_chain_extend_def by (simp add: n2_def)
    moreover obtain r n' where "ic_chain_loop kalloc_arr next_cluster target n2 = Some (r, n')"
      "chain_ok next_cluster n'" "same_but_chain n2 n'"
      "if r then target < chain_len n'
       else walk_clusters next_cluster (unat target) (start_cluster n2) = 0 \<or> 2 ^ 20 \<le> unat target \<or> kalloc_arr_fails kalloc_arr"
      using chain_loop_ok [OF ok2 _ ka, of "arr[0 := start_cluster n1]" target] n1(7) st by (auto simp: n2_def)
    moreover have "start_cluster n2 = start_cluster n" using n1(7) by (simp add: n2_def)
    ultimately show ?thesis
      using same_but_chain_trans [OF sb] by (intro exI [of _ r] exI [of _ n']) (auto split: if_splits)
  qed
qed

definition chains_ok :: "(u64 \<Rightarrow> u64) \<Rightarrow> (addr \<rightharpoonup> ic_inode) \<Rightarrow> bool" where
  "chains_ok next_cluster N \<longleftrightarrow> (\<forall>a n. N a = Some n \<longrightarrow> chain_ok next_cluster n)"

lemma icache_lookup_refines:
  assumes rel: "ic_rel st N L"
  shows "N x = Some n \<Longrightarrow> start_cluster n = cl \<Longrightarrow>
      icache_lookup cl st = Some (x, st\<lparr>ic_stat_hits := ic_stat_hits st + 1\<rparr>) \<and> x \<noteq> NULL \<and> ic_body st x = n"
    and "(\<And>a n. N a = Some n \<Longrightarrow> start_cluster n \<noteq> cl) \<Longrightarrow>
      \<exists>st'. icache_lookup cl st = Some (NULL, st') \<and> ic_rel st' N L"
proof -
  obtain xs where sh: "ic_shape st xs L" and N: "N = inode_map (ic_body st) xs" and ini: "ic_initialized st"
    by (rule ic_rel_search [OF rel])
  show "icache_lookup cl st = Some (x, st\<lparr>ic_stat_hits := ic_stat_hits st + 1\<rparr>) \<and> x \<noteq> NULL \<and> ic_body st x = n"
    if x: "N x = Some n" and cl: "start_cluster n = cl"
  proof -
    have xs: "x \<in> set xs" and n: "n = ic_body st x" using x by (auto simp: N inode_map_def split: if_splits)
    have "\<not> cl < 2" using sh xs cl by (auto simp: ic_shape_def inodes_ok_def n)
    then show ?thesis using ic_search(1) [OF sh xs, of cl] cl ini n by (simp add: icache_lookup_def)
  qed
  show "\<exists>st'. icache_lookup cl st = Some (NULL, st') \<and> ic_rel st' N L"
    if none: "\<And>a n. N a = Some n \<Longrightarrow> start_cluster n \<noteq> cl"
  proof (cases "cl < 2")
    case True
    then show ?thesis using rel by (simp add: icache_lookup_def)
  next
    case False
    have "find_node (\<lambda>a. hash_next (ic_node st a)) (\<lambda>a. start_cluster (ic_node st a) = cl)
        (ic_head st (ic_bucket_index cl)) = Some NULL"
    proof (rule ic_search(2) [OF sh])
      fix a assume "a \<in> set xs"
      then show "start_cluster (ic_body st a) \<noteq> cl"
        using none [of a "ic_body st a"] by (simp add: N inode_map_def)
    qed
    then show ?thesis using False ini rel by (simp add: icache_lookup_def)
  qed
qed

text \<open>Replacing the chain of an inode keeps the cache well formed.\<close>

lemma ic_rel_chain_changed:
  assumes rel: "ic_rel st N L" and x: "N x = Some n" and n': "same_but_chain (ic_node st x) n'"
  shows "ic_rel (upd_node x (\<lambda>_. n') st) (N(x \<mapsto> ic_unlinked n')) L"
proof -
  obtain xs where sh: "ic_shape st xs L" and N: "N = inode_map (ic_body st) xs"
    by (rule ic_rel_search [OF rel])
  have xs: "x \<in> set xs" using x by (auto simp: N inode_map_def split: if_splits)
  define st' where "st' = upd_node x (\<lambda>_. n') st"
  obtain c l k where nn: "n' = (ic_node st x)\<lparr>cl_chain := c, chain_len := l, chain_cap := k\<rparr>"
    using n' by (auto simp: same_but_chain_def)
  have v: "ic_nexts st' = ic_nexts st" "ic_prevs st' = ic_prevs st" "ic_hnexts st' = ic_hnexts st"
    and b: "ic_body st' = (ic_body st)(x := ic_unlinked n')"
    by (auto simp: st'_def upd_node_def fun_eq_iff ic_nexts_def ic_prevs_def ic_hnexts_def ic_body_def nn)
  have s: "start_cluster (ic_unlinked n') = start_cluster (ic_body st x)"
    "refcount (ic_unlinked n') = refcount (ic_body st x)"
    by (simp_all add: nn ic_unlinked_def ic_body_def)
  have rc: "refcount (ic_body st' a) = refcount (ic_body st a)" for a using s(2) by (simp add: b)
  have w: "ic_head st' = ic_head st" "ic_live st' = ic_live st" "ic_lru_sentinel st' = ic_lru_sentinel st"
    "ic_entry_count st' = ic_entry_count st" "ic_initialized st' = ic_initialized st"
    by (simp_all add: st'_def upd_node_def)
  have "ic_shape st' xs L"
    by (rule ic_shape_updated [OF sh xs b s(1)])
      (use sh xs s(2) in \<open>auto simp: rc v w ic_shape_def inodes_ok_def\<close>)
  then show ?thesis unfolding st'_def [symmetric] by (rule ic_rel_updated [OF _ xs b N])
qed

section \<open>A small instance\<close>

definition ic_candidates :: "addr list" where
  "ic_candidates = map (\<lambda>k. of_nat (0x10000 + 64 * k)) [0..<4096]"

definition ic_demo_kalloc :: "icache \<Rightarrow> addr" where
  "ic_demo_kalloc st =
     (case find (\<lambda>a. \<not> ic_live st a \<and> a \<noteq> ic_lru_sentinel st) ic_candidates of None \<Rightarrow> 0 | Some a \<Rightarrow> a)"

lemma ic_demo_kalloc_fresh: "ic_kalloc_fresh ic_demo_kalloc"
  by (auto simp: ic_kalloc_fresh_def ic_demo_kalloc_def find_Some_iff split: option.splits)

lemma ic_candidates_distinct: "distinct ic_candidates"
proof -
  have "inj_on (\<lambda>k. of_nat (0x10000 + 64 * k) :: u64) {0..<4096}"
  proof (rule inj_onI)
    fix j k :: nat
    assume "j \<in> {0..<4096}" "k \<in> {0..<4096}"
      and "(of_nat (0x10000 + 64 * j) :: u64) = of_nat (0x10000 + 64 * k)"
    then have "unat (of_nat (0x10000 + 64 * j) :: u64) = unat (of_nat (0x10000 + 64 * k) :: u64)" by simp
    moreover have "unat (of_nat (0x10000 + 64 * i) :: u64) = 0x10000 + 64 * i" if "i < 4096" for i
      by (rule unat_of_nat_small) (use that in simp)
    ultimately show "j = k" using \<open>j \<in> _\<close> \<open>k \<in> _\<close> by simp
  qed
  then show ?thesis by (simp add: ic_candidates_def distinct_map del: of_nat_add of_nat_mult)
qed

lemma ic_demo_kalloc_some:
  assumes "ic_rel st N L"
  shows "ic_demo_kalloc st \<noteq> NULL"
proof -
  obtain xs where sh: "ic_shape st xs L" by (rule ic_rel_search [OF assms])
  have "card (set ic_candidates) = 4096"
    using distinct_card [OF ic_candidates_distinct] by (simp add: ic_candidates_def)
  moreover have "card (insert (ic_lru_sentinel st) (set xs)) \<le> 2049"
    using sh card_length [of xs] by (auto simp: ic_shape_def IC_MAX_ENTRIES_def card_insert_if)
  ultimately have "\<not> set ic_candidates \<subseteq> insert (ic_lru_sentinel st) (set xs)"
    using card_mono [of "insert (ic_lru_sentinel st) (set xs)" "set ic_candidates"] by auto
  then have "\<exists>a \<in> set ic_candidates. \<not> ic_live st a \<and> a \<noteq> ic_lru_sentinel st"
    using sh by (auto simp: ic_shape_def)
  then obtain a where a: "find (\<lambda>a. \<not> ic_live st a \<and> a \<noteq> ic_lru_sentinel st) ic_candidates = Some a"
    by (cases "find (\<lambda>a. \<not> ic_live st a \<and> a \<noteq> ic_lru_sentinel st) ic_candidates") (auto simp: find_None_iff)
  then have "a \<in> set ic_candidates" by (auto simp: find_Some_iff)
  then have "0x10000 \<le> unat a" by (auto simp: ic_candidates_def unat_of_nat_small simp del: of_nat_add of_nat_mult)
  then have "a \<noteq> NULL" by auto
  then show ?thesis by (simp add: ic_demo_kalloc_def a)
qed

definition demo_icache :: icache where
  "demo_icache = icache_init
     \<lparr>ic_node = (\<lambda>_. zero_inode), ic_head = (\<lambda>_. 0), ic_lru_sentinel = 0x1000, ic_live = (\<lambda>_. False),
      ic_entry_count = 0, ic_stat_hits = 0, ic_stat_misses = 0, ic_stat_evictions = 0, ic_initialized = False\<rparr>"

lemma demo_icache_rel: "ic_rel demo_icache Map.empty []"
  unfolding ic_rel_def
  by (rule exI [of _ "[]"])
    (auto simp: ic_shape_def inodes_ok_def hash_buckets_def inode_map_def demo_icache_def icache_init_def
      Let_def upd_node_def ic_nexts_def ic_prevs_def fun_eq_iff intro!: ring_nil)

definition ic_demo_info :: ic_info where
  "ic_demo_info = \<lparr>i_size = 100, i_attr = 0, i_parent_cluster = 2, i_dirent_cluster = 2, i_dirent_index = 0,
     i_wrt_time = 0, i_wrt_date = 0\<rparr>"

text \<open>The cache after \<open>k\<close> different files were opened.\<close>

primrec demo_opened :: "nat \<Rightarrow> icache" where
  "demo_opened 0 = demo_icache"
| "demo_opened (Suc k) = snd (the (icache_get ic_demo_kalloc (of_nat (k + 2)) ic_demo_info (demo_opened k)))"

lemma demo_opened_rel:
  assumes "k \<le> 2048"
  shows "\<exists>N. ic_rel (demo_opened k) N [] \<and> card (dom N) = k \<and>
    (\<forall>a n. N a = Some n \<longrightarrow> 2 \<le> unat (start_cluster n) \<and> unat (start_cluster n) < k + 2 \<and> refcount n = 1 \<and> chain_len n = 0 \<and> cl_chain n = None)"
  using assms
proof (induction k)
  case 0
  then show ?case using demo_icache_rel by (auto intro!: exI [of _ Map.empty])
next
  case (Suc k)
  then obtain N where rel: "ic_rel (demo_opened k) N []" and card: "card (dom N) = k"
    and small: "\<And>a n. N a = Some n \<Longrightarrow> 2 \<le> unat (start_cluster n) \<and> unat (start_cluster n) < k + 2 \<and> refcount n = 1 \<and> chain_len n = 0 \<and> cl_chain n = None"
    by auto
  have u: "unat (of_nat (k + 2) :: u64) = k + 2" by (rule unat_of_nat_small) (use Suc.prems in simp)
  have none: "start_cluster n \<noteq> of_nat (k + 2)" if "N a = Some n" for a n
    using small [OF that] u by (metis less_irrefl)
  have ge: "(2 :: u64) \<le> of_nat (k + 2)" using u by (simp add: word_le_nat_alt del: of_nat_add)
  have lt: "card (dom N) < 2048 \<or> [] \<noteq> ([] :: addr list)" using card Suc.prems by simp
  obtain st1 st' where st1: "ic_rel st1 (room_map N []) (room_list N [])"
    and get: "icache_get ic_demo_kalloc (of_nat (k + 2)) ic_demo_info (demo_opened k) = Some (ic_demo_kalloc st1, st')"
    and st': "ic_rel st' (if ic_demo_kalloc st1 = NULL then room_map N []
      else (room_map N [])(ic_demo_kalloc st1 \<mapsto> new_inode (of_nat (k + 2)) ic_demo_info)) (room_list N [])"
    using icache_get_miss [OF rel lt _ ge ic_demo_kalloc_fresh, of ic_demo_info] none by blast
  have room: "room_map N [] = N" "room_list N [] = []"
    using card Suc.prems by (simp_all add: room_map_def room_list_def)
  define m where "m = ic_demo_kalloc st1"
  have m0: "m \<noteq> NULL" using ic_demo_kalloc_some [OF st1] by (simp add: m_def)
  have mN: "m \<notin> dom N"
  proof -
    have "\<not> ic_live st1 m" using ic_demo_kalloc_fresh m0 by (simp add: ic_kalloc_fresh_def m_def)
    then show ?thesis using st1 room by (auto simp: ic_rel_def ic_shape_def inode_map_def dom_def split: if_splits)
  qed
  have rel': "ic_rel (demo_opened (Suc k)) (N(m \<mapsto> new_inode (of_nat (k + 2)) ic_demo_info)) []"
    using get st' m0 room by (simp add: m_def [symmetric])
  have fin: "finite (dom N)" using rel by (auto simp: ic_rel_def inode_map_def dom_def)
  have "card (dom (N(m \<mapsto> new_inode (of_nat (k + 2)) ic_demo_info))) = Suc k"
    using mN fin card by simp
  moreover have "2 \<le> unat (start_cluster n) \<and> unat (start_cluster n) < Suc k + 2 \<and> refcount n = 1 \<and> chain_len n = 0 \<and> cl_chain n = None"
    if "(N(m \<mapsto> new_inode (of_nat (k + 2)) ic_demo_info)) a = Some n" for a n
    using that small [of a n] u
    by (auto simp: new_inode_def set_meta_def zero_inode_def simp del: of_nat_add split: if_splits)
  ultimately show ?case using rel' by blast
qed

section \<open>Properties\<close>

text \<open>
  C8: Opening a file implements the specification. In a cache with the inodes \<open>N\<close>, of which
  those in \<open>L\<close> are not in use, and unless all 2048 are in use, \<^verbatim>\<open>icache_get\<close> returns: a cached
  inode gets the new metadata and one more reference and leaves the LRU ring; otherwise a
  new inode with one reference is entered, and if the cache was full, exactly the inode
  that was released longest ago is dropped. No inode in use is ever dropped or changed.
\<close>

theorem icache_get_correct:
  assumes rel: "ic_rel st N L" and fresh: "ic_kalloc_fresh kalloc" and cl: "2 \<le> cl"
    and room: "card (dom N) < 2048 \<or> L \<noteq> []"
    and rc: "\<And>a n. N a = Some n \<Longrightarrow> refcount n \<noteq> 0x7FFFFFFF"
  shows "(\<exists>x n st'. N x = Some n \<and> start_cluster n = cl \<and> icache_get kalloc cl i st = Some (x, st') \<and>
      ic_rel st' (N(x \<mapsto> (set_meta i n)\<lparr>ic_flags := ic_flags n OR IC_VALID, refcount := refcount n + 1\<rparr>))
        (remove1 x L)) \<or>
    (\<forall>a n. N a = Some n \<longrightarrow> start_cluster n \<noteq> cl) \<and>
    (\<exists>st1 st'. ic_rel st1 (room_map N L) (room_list N L) \<and>
      icache_get kalloc cl i st = Some (kalloc st1, st') \<and>
      ic_rel st' (if kalloc st1 = NULL then room_map N L else (room_map N L)(kalloc st1 \<mapsto> new_inode cl i))
        (room_list N L))"
proof (cases "\<exists>x n. N x = Some n \<and> start_cluster n = cl")
  case True
  then show ?thesis using icache_get_hit [OF rel] rc by blast
next
  case False
  then show ?thesis using icache_get_miss [OF rel room _ cl fresh, of i] by blast
qed

theorem icache_get_correct_witness:
  "\<exists>st1 st'. ic_rel st1 Map.empty [] \<and> icache_get ic_demo_kalloc 2 ic_demo_info demo_icache = Some (ic_demo_kalloc st1, st') \<and>
    ic_rel st' [ic_demo_kalloc st1 \<mapsto> new_inode 2 ic_demo_info] []"
proof -
  have rm: "room_map Map.empty [] = Map.empty" and rl: "room_list Map.empty [] = []"
    by (simp_all add: room_map_def room_list_def)
  obtain st1 st' where "ic_rel st1 Map.empty []"
    "icache_get ic_demo_kalloc 2 ic_demo_info demo_icache = Some (ic_demo_kalloc st1, st')"
    "ic_rel st' (if ic_demo_kalloc st1 = NULL then Map.empty else [ic_demo_kalloc st1 \<mapsto> new_inode 2 ic_demo_info]) []"
    using icache_get_correct [OF demo_icache_rel ic_demo_kalloc_fresh, of 2 ic_demo_info]
    unfolding rm rl by auto
  with ic_demo_kalloc_some [OF this(1)] show ?thesis by auto
qed

text \<open>
  Releasing and acquiring. \<^verbatim>\<open>icache_unref\<close> of a held inode takes one reference away, and
  puts the inode at the front of the LRU ring exactly when that was the last one;
  \<^verbatim>\<open>icache_ref\<close> adds a reference and takes the inode off the ring; the two cancel out on a
  held inode.
\<close>

theorem icache_unref_correct:
  assumes rel: "ic_rel st N L" and x: "N x = Some n" and rc: "refcount n \<noteq> 0" "refcount n \<noteq> 0x7FFFFFFF"
  shows "ic_rel (icache_unref x st) (N(x \<mapsto> n\<lparr>refcount := refcount n - 1\<rparr>))
      (if refcount n = 1 then x # L else L) \<and>
    ic_rel (icache_ref x st) (N(x \<mapsto> n\<lparr>refcount := refcount n + 1\<rparr>)) (remove1 x L) \<and>
    ic_rel (icache_unref x (icache_ref x st)) N L"
proof -
  note ref = icache_ref_refines [OF rel x rc(2)]
  obtain xs where sh: "ic_shape st xs L" and N: "N = inode_map (ic_body st) xs"
    by (rule ic_rel_search [OF rel])
  have xL: "x \<notin> set L" and lt: "unat (refcount n) < 2 ^ 31"
    using sh x rc(1) by (auto simp: N ic_shape_def inodes_ok_def inode_map_def split: if_splits)
  have "refcount n + 1 \<noteq> 0" using refcount_inc(1) [OF lt rc(2)] by auto
  moreover have "(N(x \<mapsto> n\<lparr>refcount := refcount n + 1\<rparr>)) x = Some (n\<lparr>refcount := refcount n + 1\<rparr>)" by simp
  ultimately have "ic_rel (icache_unref x (icache_ref x st))
      ((N(x \<mapsto> n\<lparr>refcount := refcount n + 1\<rparr>))(x \<mapsto> n)) (if refcount n + 1 = 1 then x # remove1 x L else remove1 x L)"
    using icache_unref_refines [OF ref] by fastforce
  moreover have "(N(x \<mapsto> n\<lparr>refcount := refcount n + 1\<rparr>))(x \<mapsto> n) = N" using x by auto
  ultimately show ?thesis
    using icache_unref_refines [OF rel x rc(1)] ref rc(1) xL by (simp add: remove1_idem)
qed

text \<open>The cache with one open file.\<close>

lemma demo_opened_one:
  obtains N x n where "ic_rel (demo_opened 1) N []" and "N x = Some n" and "refcount n = 1"
    and "cl_chain n = None" and "chain_len n = 0" and "start_cluster n = 2" and "dom N = {x}"
proof -
  obtain N where rel: "ic_rel (demo_opened 1) N []" and card: "card (dom N) = 1"
    and small: "\<And>a n. N a = Some n \<Longrightarrow> 2 \<le> unat (start_cluster n) \<and> unat (start_cluster n) < 1 + 2 \<and> refcount n = 1 \<and> chain_len n = 0 \<and> cl_chain n = None"
    using demo_opened_rel [of 1] by auto
  from card obtain x where d: "dom N = {x}" by (auto simp: card_1_singleton_iff)
  then obtain n where n: "N x = Some n" by auto
  have "unat (start_cluster n) = 2" using small [OF n] by simp
  then have "start_cluster n = 2" by (simp add: word_unat_eq_iff)
  with that [OF rel n _ _ _ this d] small [OF n] show ?thesis by simp
qed

text \<open>
  C30: Unlinking an open file frees its inode. \<^verbatim>\<open>icache_remove\<close> drops and frees the inode of the
  cluster even when references to it are held; every holder of a reference is left with
  a dangling pointer, which \<^verbatim>\<open>fat32_close\<close> passes to \<^verbatim>\<open>icache_unref\<close>.
\<close>

theorem icache_remove_frees_held:
  assumes "ic_rel st N L" and "N x = Some n" and "refcount n \<noteq> 0"
  shows "\<exists>st'. icache_remove (start_cluster n) st = Some st' \<and> ic_rel st' (N(x := None)) (remove1 x L) \<and>
    \<not> ic_live st' x"
  using icache_remove_refines [OF assms(1,2) refl] .

theorem icache_remove_frees_held_witness:
  "\<exists>N x n st'. ic_rel (demo_opened 1) N [] \<and> N x = Some n \<and> refcount n = 1 \<and>
    icache_remove 2 (demo_opened 1) = Some st' \<and> \<not> ic_live st' x"
proof -
  obtain N x n where h: "ic_rel (demo_opened 1) N []" "N x = Some n" "refcount n = 1" "start_cluster n = 2"
    by (rule demo_opened_one)
  from icache_remove_frees_held [OF h(1,2)] h show ?thesis by auto
qed

text \<open>
  C31: \<^verbatim>\<open>icache_get\<close> hangs when all 2048 cached inodes are in use and the file is not among
  them: the loop that makes room evicts nothing and never ends.
\<close>

theorem icache_get_hangs:
  assumes rel: "ic_rel st N []" and full: "card (dom N) = 2048" and cl: "2 \<le> cl"
    and none: "\<And>a n. N a = Some n \<Longrightarrow> start_cluster n \<noteq> cl"
  shows "icache_get kalloc cl i st = None"
proof -
  obtain xs where sh: "ic_shape st xs []" and N: "N = inode_map (ic_body st) xs" and ini: "ic_initialized st"
    by (rule ic_rel_search [OF rel])
  have "find_node (\<lambda>a. hash_next (ic_node st a)) (\<lambda>a. start_cluster (ic_node st a) = cl)
      (ic_head st (ic_bucket_index cl)) = Some NULL"
  proof (rule ic_search(2) [OF sh])
    fix a assume "a \<in> set xs"
    then show "start_cluster (ic_body st a) \<noteq> cl"
      using none [of a "ic_body st a"] by (simp add: N inode_map_def)
  qed
  moreover have "ic_make_room st = None"
    by (rule ic_make_room_hangs [OF ic_evict_empty [OF rel]]) (use ic_rel_count(3) [OF rel] full in simp)
  moreover have "\<not> cl < 2" using cl by auto
  ultimately show ?thesis using ini by (simp add: icache_get_def Let_def)
qed

theorem icache_get_hangs_witness: "icache_get ic_demo_kalloc 0x10000 ic_demo_info (demo_opened 2048) = None"
proof -
  obtain N where rel: "ic_rel (demo_opened 2048) N []" and full: "card (dom N) = 2048"
    and small: "\<And>a n. N a = Some n \<Longrightarrow> unat (start_cluster n) < 2048 + 2"
    using demo_opened_rel [of 2048] by auto
  have "start_cluster n \<noteq> 0x10000" if "N a = Some n" for a n using small [OF that] by auto
  moreover have "(2 :: u64) \<le> 0x10000" by simp
  ultimately show ?thesis using icache_get_hangs [OF rel full] by blast
qed

text \<open>
  C32: The cached cluster chain agrees with the FAT. If the cached chains are prefixes of the
  files' chains, \<^verbatim>\<open>icache_chain_get\<close> of a valid first cluster returns and keeps them so; of the cache only the
  statistics and the chain of the inode with that first cluster change. The result is what following the FAT link by
  link gives (0 past the end), whether or not the inode is cached and however much of its chain was, or 0 when the index
  is at least 2^20, the limit of the array, or an array within the limit cannot be allocated.
\<close>

theorem icache_chain_get_correct:
  assumes rel: "ic_rel st N L" and ch: "chains_ok next_cluster N" and ka: "kalloc_arr_ok kalloc_arr" and cl: "2 \<le> cl"
  shows "\<exists>r st' N'. icache_chain_get kalloc_arr (Some next_cluster) cl idx st = Some (r, st') \<and>
    ic_rel st' N' L \<and> chains_ok next_cluster N' \<and>
    (N' = N \<or> (\<exists>x n n'. N x = Some n \<and> start_cluster n = cl \<and> same_but_chain n n' \<and> N' = N(x \<mapsto> n'))) \<and>
    (r = walk_clusters next_cluster (unat idx) cl \<or> r = 0 \<and> (2 ^ 20 \<le> unat idx \<or> kalloc_arr_fails kalloc_arr))"
proof -
  have ini: "ic_initialized st" using rel by (auto simp: ic_rel_def ic_shape_def)
  have ncl: "\<not> cl < 2" "cl \<noteq> 0" using cl by auto
  show ?thesis
  proof (cases "\<exists>x n. N x = Some n \<and> start_cluster n = cl")
    case False
    then obtain st' where "icache_lookup cl st = Some (NULL, st')" "ic_rel st' N L"
      using icache_lookup_refines(2) [OF rel, of cl] by blast
    then show ?thesis using ini ncl ch by (auto simp: icache_chain_get_def)
  next
    case True
    then obtain x n where x: "N x = Some n" and c: "start_cluster n = cl" by blast
    define st1 where "st1 = st\<lparr>ic_stat_hits := ic_stat_hits st + 1\<rparr>"
    have look: "icache_lookup cl st = Some (x, st1)" "x \<noteq> NULL" and b: "ic_body st1 x = n"
      using icache_lookup_refines(1) [OF rel x c] by (simp_all add: st1_def)
    have rel1: "ic_rel st1 N L" using rel by (simp add: st1_def)
    have okn: "chain_ok next_cluster n" using ch x by (simp add: chains_ok_def)
    have nd: "n = ic_unlinked (ic_node st1 x)" using b by (simp add: ic_body_def)
    have oku: "chain_ok next_cluster (ic_unlinked m) = chain_ok next_cluster m" for m
      by (simp add: chain_ok_def ic_unlinked_def split: option.split)
    have sc: "start_cluster (ic_node st1 x) = cl" using c nd by (simp add: ic_unlinked_def)
    show ?thesis
    proof (cases "idx < chain_len (ic_node st1 x)")
      case True
      then obtain arr where "cl_chain (ic_node st1 x) = Some arr" "arr ! unat idx = walk_clusters next_cluster (unat idx) cl"
        using okn sc nd oku by (auto simp: chain_ok_def word_less_nat_alt split: option.splits)
      then show ?thesis using look True ini ncl rel1 ch by (auto simp: icache_chain_get_def)
    next
      case False
      obtain r n' where ext: "ic_chain_extend kalloc_arr next_cluster idx (ic_node st1 x) = Some (r, n')"
        and ok': "chain_ok next_cluster n'" and sb: "same_but_chain (ic_node st1 x) n'"
        and res: "if r then idx < chain_len n'
          else walk_clusters next_cluster (unat idx) cl = 0 \<or> 2 ^ 20 \<le> unat idx \<or> kalloc_arr_fails kalloc_arr"
        using chain_extend_ok [of next_cluster "ic_node st1 x" kalloc_arr idx] okn nd oku ka sc ncl by auto
      define st2 where "st2 = upd_node x (\<lambda>_. n') st1"
      have rel2: "ic_rel st2 (N(x \<mapsto> ic_unlinked n')) L"
        unfolding st2_def by (rule ic_rel_chain_changed [OF rel1 x sb])
      have ch2: "chains_ok next_cluster (N(x \<mapsto> ic_unlinked n'))"
        using ch ok' oku by (simp add: chains_ok_def)
      have "start_cluster n' = cl" using sb sc by (auto simp: same_but_chain_def)
      then have "r \<Longrightarrow> the (cl_chain n') ! unat idx = walk_clusters next_cluster (unat idx) cl"
        using ok' res by (auto simp: chain_ok_def word_less_nat_alt split: option.splits)
      then have "icache_chain_get kalloc_arr (Some next_cluster) cl idx st =
          Some (if r then walk_clusters next_cluster (unat idx) cl else 0, st2)"
        using look False ini ncl ext by (auto simp: icache_chain_get_def Let_def st2_def)
      moreover obtain c l k where "n' = (ic_node st1 x)\<lparr>cl_chain := c, chain_len := l, chain_cap := k\<rparr>"
        using sb unfolding same_but_chain_def by blast
      then have "ic_unlinked n' = n\<lparr>cl_chain := c, chain_len := l, chain_cap := k\<rparr>" by (simp add: nd ic_unlinked_def)
      then have "same_but_chain n (ic_unlinked n')" unfolding same_but_chain_def by blast
      ultimately show ?thesis using rel2 ch2 x c res
        by (intro exI [of _ "if r then walk_clusters next_cluster (unat idx) cl else 0"] exI [of _ st2]
            exI [of _ "N(x \<mapsto> ic_unlinked n')"]) (auto split: if_splits)
    qed
  qed
qed

theorem icache_chain_get_correct_witness:
  "\<exists>st'. icache_chain_get (\<lambda>n. Some (replicate n 0)) (Some (\<lambda>c. c + 1)) 2 3 (demo_opened 1) = Some (5, st')"
proof -
  obtain N x n where h: "ic_rel (demo_opened 1) N []" "N x = Some n" "cl_chain n = None" "chain_len n = 0" "dom N = {x}"
    by (rule demo_opened_one)
  have ch: "chains_ok (\<lambda>c. c + 1) N"
    unfolding chains_ok_def
  proof (intro allI impI)
    fix a m assume "N a = Some m"
    then have "a \<in> dom N" by blast
    then have "a = x" using h(5) by simp
    with \<open>N a = Some m\<close> h show "chain_ok (\<lambda>c. c + 1) m" by (simp add: chain_ok_def)
  qed
  have ka: "kalloc_arr_ok (\<lambda>n. Some (replicate n 0))" by (auto simp: kalloc_arr_ok_def)
  have "\<not> kalloc_arr_fails (\<lambda>n. Some (replicate n 0))" by (simp add: kalloc_arr_fails_def)
  moreover have "walk_clusters (\<lambda>c. c + 1) (unat (3 :: u64)) 2 = 5" by code_simp
  ultimately show ?thesis using icache_chain_get_correct [OF h(1) ch ka, of 2 3] by auto
qed

end
