(* ===== verification/Sched.thy ===== *)
theory Sched
  imports Links
begin

text \<open>
  The scheduler of \<^verbatim>\<open>kernel/ke/sched.c\<close>: one linked run queue per processor, the global list of
  all tasks, and the operations that switch, wake and migrate tasks. Tasks live in a store indexed by
  address; of \<^verbatim>\<open>struct task\<close> and \<^verbatim>\<open>struct percpu\<close> the records hold the fields that these
  operations read or write. An operation takes the number of the processor it runs on
  (\<^verbatim>\<open>this_cpu_id()\<close>) where the code asks for it. A definition is what one call does when no other processor
  interferes; the parts of a call between which others can interfere (the critical sections and the writes made without a
  lock) are definitions of their own, from which theory \<^verbatim>\<open>Interleaving\<close> builds its steps.
  A context switch (\<^verbatim>\<open>ctx_switch_asm\<close>) is the end of the definition of the function that calls it: what
  the resumed task does next is \<open>after_switch\<close> or \<open>after_preempt\<close>, without the reaping of dead
  threads (\<^verbatim>\<open>dead_thread_reap\<close>) and the switch of address spaces. Interrupts sent to other processors
  are recorded in a log. A walk along a list is a partial function, \<open>None\<close> when it does not end.
\<close>

section \<open>State\<close>

datatype task_state = TASK_READY | TASK_RUNNING | TASK_BLOCKED | TASK_STOPPED | TASK_ZOMBIE

datatype task_privilege = TASK_KERNEL | TASK_USER

record task =
  sp :: addr
  t_state :: task_state
  privilege :: task_privilege
  t_next :: addr
  rq_next :: addr
  on_cpu :: nat
  cpu_affinity :: u64
  on_rq :: bool
  need_resched :: bool
  remaining_ticks :: int
  preempt_frame :: addr
  has_exited :: bool
  wait_channel :: addr
  wakeup_tick :: u64
  exit_signal :: int

record percpu =
  current_task :: addr
  idle_task :: addr
  runqueue_head :: addr
  runqueue_tail :: addr
  runqueue_length :: u32
  context_switches :: u64
  deferred_zombie :: addr
  in_context_switch :: bool

datatype event = Reschedule nat

record sched =
  tsk :: "addr \<Rightarrow> task"
  cpu :: "nat \<Rightarrow> percpu"
  cpu_present :: "nat \<Rightarrow> bool"
  cpus_online :: nat
  g_task_list_head :: addr
  g_idle_task :: addr
  g_bootstrap_task :: addr
  g_ap_idle_tasks :: "addr list"
  g_dead_threads :: "addr list"
  g_smp_initialized :: bool
  g_total_schedules :: u64
  events :: "event list"

definition MAX_CPUS :: nat where "MAX_CPUS = 64"
definition SCHED_TIME_SLICE :: int where "SCHED_TIME_SLICE = 2"
definition DEAD_THREAD_MAX :: nat where "DEAD_THREAD_MAX = 64"

definition upd_task :: "addr \<Rightarrow> (task \<Rightarrow> task) \<Rightarrow> sched \<Rightarrow> sched" where
  "upd_task t f s = s\<lparr>tsk := (tsk s)(t := f (tsk s t))\<rparr>"

definition upd_cpu :: "nat \<Rightarrow> (percpu \<Rightarrow> percpu) \<Rightarrow> sched \<Rightarrow> sched" where
  "upd_cpu c f s = s\<lparr>cpu := (cpu s)(c := f (cpu s c))\<rparr>"

definition log_event :: "event \<Rightarrow> sched \<Rightarrow> sched" where
  "log_event e s = s\<lparr>events := e # events s\<rparr>"

definition percpu_get :: "nat \<Rightarrow> sched \<Rightarrow> bool" where
  "percpu_get c s \<longleftrightarrow> c < MAX_CPUS \<and> cpu_present s c"

definition is_idle_task :: "sched \<Rightarrow> addr \<Rightarrow> bool" where
  "is_idle_task s t \<longleftrightarrow> t = g_idle_task s \<or> t \<in> set (g_ap_idle_tasks s)"

definition is_bootstrap_task :: "sched \<Rightarrow> addr \<Rightarrow> bool" where
  "is_bootstrap_task s t \<longleftrightarrow> t = g_bootstrap_task s"

section \<open>Run queues\<close>

definition rq_enqueue_locked :: "nat \<Rightarrow> addr \<Rightarrow> sched \<Rightarrow> sched" where
  "rq_enqueue_locked c t s =
     (if on_rq (tsk s t) then s
      else if runqueue_head (cpu s c) = t \<or> runqueue_tail (cpu s c) = t then s
      else if t_state (tsk s t) = TASK_RUNNING then s
      else
        let s1 = upd_task t (\<lambda>x. x\<lparr>rq_next := NULL, on_rq := True\<rparr>) s;
            tail = runqueue_tail (cpu s1 c);
            s2 = (if tail \<noteq> NULL then upd_task tail (\<lambda>x. x\<lparr>rq_next := t\<rparr>) s1
                  else upd_cpu c (\<lambda>p. p\<lparr>runqueue_head := t\<rparr>) s1)
        in upd_cpu c (\<lambda>p. p\<lparr>runqueue_tail := t, runqueue_length := runqueue_length p + 1\<rparr>) s2)"

definition rq_dequeue_locked :: "nat \<Rightarrow> sched \<Rightarrow> addr \<times> sched" where
  "rq_dequeue_locked c s =
     (let t = runqueue_head (cpu s c) in
      if t = NULL then (NULL, s)
      else
        let h = rq_next (tsk s t);
            s1 = upd_cpu c (\<lambda>p. p\<lparr>runqueue_head := h\<rparr>) s;
            s2 = (if h = NULL then upd_cpu c (\<lambda>p. p\<lparr>runqueue_tail := NULL\<rparr>) s1 else s1);
            s3 = upd_task t (\<lambda>x. x\<lparr>rq_next := NULL, on_rq := False\<rparr>) s2
        in (t, upd_cpu c (\<lambda>p. p\<lparr>runqueue_length := runqueue_length p - 1\<rparr>) s3))"

text \<open>Unlinking \<open>t\<close> behind \<open>prev\<close>, or at the head when \<open>prev\<close> is null.\<close>

definition rq_remove :: "addr \<Rightarrow> sched \<Rightarrow> sched option" where
  "rq_remove t s =
     (let c = on_cpu (tsk s t) in
      if \<not> on_rq (tsk s t) \<or> \<not> percpu_get c s then Some s
      else
        let finish = (\<lambda>s'. upd_cpu c (\<lambda>p. p\<lparr>runqueue_length := runqueue_length p - 1\<rparr>)
              (upd_task t (\<lambda>x. x\<lparr>rq_next := NULL, on_rq := False\<rparr>) s'))
        in if runqueue_head (cpu s c) = t then
             let h = rq_next (tsk s t);
                 s1 = upd_cpu c (\<lambda>p. p\<lparr>runqueue_head := h\<rparr>) s
             in Some (finish (if h = NULL then upd_cpu c (\<lambda>p. p\<lparr>runqueue_tail := NULL\<rparr>) s1 else s1))
           else
             case find_node (\<lambda>a. rq_next (tsk s a)) (\<lambda>a. rq_next (tsk s a) = t) (runqueue_head (cpu s c)) of
               None \<Rightarrow> None
             | Some prev \<Rightarrow>
                 if prev = NULL then Some (finish s)
                 else
                   let s1 = upd_task prev (\<lambda>x. x\<lparr>rq_next := rq_next (tsk s t)\<rparr>) s
                   in Some (finish (if runqueue_tail (cpu s c) = t
                        then upd_cpu c (\<lambda>p. p\<lparr>runqueue_tail := prev\<rparr>) s1 else s1)))"

definition sched_enqueue_ready :: "nat \<Rightarrow> addr \<Rightarrow> sched \<Rightarrow> sched" where
  "sched_enqueue_ready me t s =
     (if t = NULL \<or> is_idle_task s t then s
      else
        let present = percpu_get (on_cpu (tsk s t)) s;
            target = (if present then on_cpu (tsk s t) else 0);
            s1 = (if present then s else upd_task t (\<lambda>x. x\<lparr>on_cpu := 0\<rparr>) s);
            s2 = (if \<not> on_rq (tsk s1 t) \<and> t_state (tsk s1 t) = TASK_READY
                  then rq_enqueue_locked target t s1 else s1)
        in if g_smp_initialized s2 \<and> target \<noteq> me then log_event (Reschedule target) s2 else s2)"

section \<open>Switching\<close>

definition dead_thread_queue :: "addr \<Rightarrow> sched \<Rightarrow> sched" where
  "dead_thread_queue t s =
     (if length (g_dead_threads s) < DEAD_THREAD_MAX
      then s\<lparr>g_dead_threads := g_dead_threads s @ [t]\<rparr> else s)"

text \<open>The current task keeps running.\<close>

definition keep_running :: "addr \<Rightarrow> bool \<Rightarrow> sched \<Rightarrow> sched" where
  "keep_running cur resched s =
     upd_task cur (\<lambda>x. x\<lparr>t_state := TASK_RUNNING, remaining_ticks := SCHED_TIME_SLICE,
       need_resched := (if resched then False else need_resched x)\<rparr>) s"

text \<open>
  A task taken from the queue that cannot run is put back, unless it is idle or a zombie, and the idle
  task of the processor is taken instead.
\<close>

definition usable :: "nat \<Rightarrow> addr \<Rightarrow> sched \<Rightarrow> addr \<times> sched" where
  "usable c nxt s =
     (if sp (tsk s nxt) = 0 \<or> t_state (tsk s nxt) = TASK_ZOMBIE
      then (idle_task (cpu s c),
            if \<not> is_idle_task s nxt \<and> t_state (tsk s nxt) \<noteq> TASK_ZOMBIE then rq_enqueue_locked c nxt s else s)
      else (nxt, s))"

text \<open>A task that is switched out and still runnable goes to the end of the queue.\<close>

definition requeue :: "nat \<Rightarrow> addr \<Rightarrow> bool \<Rightarrow> sched \<Rightarrow> sched" where
  "requeue c cur check s =
     (if \<not> has_exited (tsk s cur) \<and> t_state (tsk s cur) \<in> {TASK_READY, TASK_RUNNING} \<and>
         \<not> is_idle_task s cur \<and> (check \<longrightarrow> \<not> on_rq (tsk s cur))
      then rq_enqueue_locked c cur (upd_task cur (\<lambda>x. x\<lparr>t_state := TASK_READY\<rparr>) s)
      else s)"

definition defer_zombie :: "nat \<Rightarrow> addr \<Rightarrow> sched \<Rightarrow> sched" where
  "defer_zombie c prev s =
     (if t_state (tsk s prev) = TASK_ZOMBIE \<and> exit_signal (tsk s prev) = 0
      then
        let s1 = (if deferred_zombie (cpu s c) \<noteq> NULL then dead_thread_queue (deferred_zombie (cpu s c)) s else s)
        in upd_cpu c (\<lambda>p. p\<lparr>deferred_zombie := prev\<rparr>) s1
      else s)"

text \<open>Making \<open>nxt\<close> the current task, and the switch of stacks, which saves the stack pointer \<open>rsp\<close> of \<open>prev\<close>.\<close>

definition make_current :: "nat \<Rightarrow> addr \<Rightarrow> sched \<Rightarrow> sched" where
  "make_current c nxt s = upd_cpu c (\<lambda>p. p\<lparr>current_task := nxt\<rparr>) s"

definition ctx_switch :: "addr \<Rightarrow> addr \<Rightarrow> sched \<Rightarrow> sched" where
  "ctx_switch prev rsp s = upd_task prev (\<lambda>x. x\<lparr>sp := rsp\<rparr>) s"

definition start_running :: "nat \<Rightarrow> addr \<Rightarrow> bool \<Rightarrow> sched \<Rightarrow> sched" where
  "start_running c nxt resched s =
     upd_cpu c (\<lambda>p. p\<lparr>context_switches := context_switches p + 1\<rparr>)
       (upd_task nxt (\<lambda>x. x\<lparr>t_state := TASK_RUNNING, remaining_ticks := SCHED_TIME_SLICE,
          need_resched := (if resched then False else need_resched x)\<rparr>) s)"

definition sched_schedule :: "nat \<Rightarrow> addr \<Rightarrow> sched \<Rightarrow> sched" where
  "sched_schedule c rsp s =
     (let cur = current_task (cpu s c) in
      if \<not> g_smp_initialized s \<or> cur = NULL then s
      else
        let s0 = s\<lparr>g_total_schedules := g_total_schedules s + 1\<rparr>;
            (nxt, s1) = rq_dequeue_locked c s0 in
        if nxt = cur then keep_running cur True s1
        else
          let nxt1 = (if nxt = NULL then idle_task (cpu s1 c) else nxt) in
          if nxt1 = NULL \<or> nxt1 = cur
          then (if \<not> has_exited (tsk s1 cur) then keep_running cur True s1 else s1)
          else
            let (nxt2, s2) = usable c nxt1 s1 in
            if nxt2 = NULL \<or> nxt2 = cur \<or> sp (tsk s2 nxt2) = 0
            then (if \<not> has_exited (tsk s2 cur) then keep_running cur False s2 else s2)
            else
              let s3 = requeue c cur True s2;
                  s4 = make_current c nxt2 s3;
                  s5 = start_running c nxt2 True s4;
                  s6 = upd_cpu c (\<lambda>p. p\<lparr>in_context_switch := True\<rparr>) s5;
                  s7 = defer_zombie c cur s6
              in ctx_switch cur rsp s7)"

definition sched_run_ready :: "nat \<Rightarrow> addr \<Rightarrow> sched \<Rightarrow> sched" where
  "sched_run_ready c rsp s =
     (let cur = current_task (cpu s c) in
      if \<not> g_smp_initialized s \<or> cur = NULL \<or> \<not> need_resched (tsk s cur) then s
      else
        let s0 = upd_task cur (\<lambda>x. x\<lparr>need_resched := False\<rparr>) s in
        if runqueue_head (cpu s0 c) = NULL then s0
        else
          let (nxt, s1) = rq_dequeue_locked c s0;
              nxt1 = (if nxt = NULL \<or> nxt = cur then idle_task (cpu s1 c) else nxt) in
          if nxt1 = NULL \<or> nxt1 = cur
          then (if \<not> has_exited (tsk s1 cur) then keep_running cur False s1 else s1)
          else
            let (nxt2, s2) = usable c nxt1 s1 in
            if nxt2 = NULL \<or> nxt2 = cur \<or> sp (tsk s2 nxt2) = 0
            then (if \<not> has_exited (tsk s2 cur) then upd_task cur (\<lambda>x. x\<lparr>t_state := TASK_RUNNING\<rparr>) s2 else s2)
            else
              let s3 = requeue c cur False s2;
                  s4 = make_current c nxt2 s3;
                  s5 = upd_task cur (\<lambda>x. if t_state x = TASK_RUNNING then x\<lparr>t_state := TASK_READY\<rparr> else x) s4;
                  s6 = start_running c nxt2 True s5;
                  s7 = upd_cpu c (\<lambda>p. p\<lparr>in_context_switch := True\<rparr>) s6;
                  s8 = defer_zombie c cur s7
              in ctx_switch cur rsp s8)"

text \<open>\<open>locked\<close> says whether \<^verbatim>\<open>spin_trylock\<close> gets the lock of the run queue.\<close>

definition sched_preempt :: "nat \<Rightarrow> bool \<Rightarrow> addr \<Rightarrow> addr \<Rightarrow> sched \<Rightarrow> sched" where
  "sched_preempt c locked frame rsp s =
     (let cur = current_task (cpu s c) in
      if \<not> g_smp_initialized s \<or> in_context_switch (cpu s c) \<or> cur = NULL \<or> is_bootstrap_task s cur \<or> \<not> locked then s
      else
        let s0 = upd_task cur (\<lambda>x. x\<lparr>need_resched := False, preempt_frame := frame\<rparr>) s;
            no_frame = upd_task cur (\<lambda>x. x\<lparr>preempt_frame := NULL\<rparr>);
            (nxt, s1) = rq_dequeue_locked c s0 in
        if nxt = cur then no_frame (keep_running cur False s1)
        else
          let nxt1 = (if nxt = NULL then idle_task (cpu s1 c) else nxt) in
          if nxt1 = NULL \<or> nxt1 = cur
          then no_frame (if \<not> has_exited (tsk s1 cur) then keep_running cur False s1 else s1)
          else
            let (nxt2, s2) = usable c nxt1 s1 in
            if nxt2 = NULL \<or> nxt2 = cur \<or> sp (tsk s2 nxt2) = 0
            then no_frame (if \<not> has_exited (tsk s2 cur)
                   then upd_task cur (\<lambda>x. x\<lparr>remaining_ticks := SCHED_TIME_SLICE\<rparr>) s2 else s2)
            else
              let s3 = requeue c cur True s2;
                  s4 = make_current c nxt2 s3;
                  s5 = upd_task cur (\<lambda>x. if t_state x = TASK_RUNNING then x\<lparr>t_state := TASK_READY\<rparr> else x) s4;
                  s6 = start_running c nxt2 False s5;
                  s7 = defer_zombie c cur s6
              in ctx_switch cur rsp s7)"

text \<open>
  What a resumed task does first, on the processor \<open>c\<close> it resumes on: in \<^verbatim>\<open>sched_schedule\<close> and
  \<^verbatim>\<open>sched_run_ready\<close>, and in \<^verbatim>\<open>sched_preempt\<close>.
\<close>

definition queue_deferred :: "nat \<Rightarrow> sched \<Rightarrow> sched" where
  "queue_deferred c s =
     (if deferred_zombie (cpu s c) \<noteq> NULL
      then upd_cpu c (\<lambda>p. p\<lparr>deferred_zombie := NULL\<rparr>) (dead_thread_queue (deferred_zombie (cpu s c)) s)
      else s)"

definition after_switch :: "nat \<Rightarrow> sched \<Rightarrow> sched" where
  "after_switch c s = queue_deferred c (upd_cpu c (\<lambda>p. p\<lparr>in_context_switch := False\<rparr>) s)"

definition after_preempt :: "nat \<Rightarrow> sched \<Rightarrow> sched" where
  "after_preempt c s =
     (let s1 = upd_cpu c (\<lambda>p. p\<lparr>in_context_switch := False\<rparr>) s;
          resumed = current_task (cpu s1 c);
          s2 = (if resumed \<noteq> NULL then upd_task resumed (\<lambda>x. x\<lparr>preempt_frame := NULL\<rparr>) s1 else s1)
      in queue_deferred c s2)"

text \<open>A task that yields first writes its own state, without any lock.\<close>

definition yield_write :: "addr \<Rightarrow> sched \<Rightarrow> sched" where
  "yield_write cur s = upd_task cur (\<lambda>x. x\<lparr>remaining_ticks := 0, t_state := TASK_READY\<rparr>) s"

definition sched_yield_in_kernel :: "nat \<Rightarrow> addr \<Rightarrow> sched \<Rightarrow> sched" where
  "sched_yield_in_kernel c rsp s =
     (let cur = current_task (cpu s c) in
      if cur = NULL then s else sched_schedule c rsp (yield_write cur s))"

section \<open>Waking\<close>

definition wake_write :: "addr \<Rightarrow> sched \<Rightarrow> sched" where
  "wake_write t s = upd_task t (\<lambda>x. x\<lparr>t_state := TASK_READY, wait_channel := NULL, wakeup_tick := 0\<rparr>) s"

definition sched_wake_task :: "nat \<Rightarrow> addr \<Rightarrow> sched \<Rightarrow> sched" where
  "sched_wake_task me t s =
     (if t \<noteq> NULL \<and> t_state (tsk s t) = TASK_BLOCKED then sched_enqueue_ready me t (wake_write t s) else s)"

text \<open>
  The walk over all tasks, under the lock of the task list, and one round of it; \<open>ws\<close> is the array of at most 16
  tasks to put on their run queues after the lock is released.
\<close>

definition wake_mark :: "addr \<Rightarrow> addr \<Rightarrow> addr list \<Rightarrow> sched \<Rightarrow> addr list \<times> sched" where
  "wake_mark ch t ws s =
     (if t_state (tsk s t) = TASK_BLOCKED \<and> wait_channel (tsk s t) = ch
      then (if length ws < 16 then ws @ [t] else ws,
            upd_task t (\<lambda>x. x\<lparr>t_state := TASK_READY, wait_channel := NULL\<rparr>) s)
      else (ws, s))"

partial_function (option) wake_loop :: "addr \<Rightarrow> addr \<Rightarrow> addr list \<Rightarrow> sched \<Rightarrow> (addr list \<times> sched) option" where
  "wake_loop ch t ws s =
     (if t = NULL then Some (ws, s)
      else case wake_mark ch t ws s of (ws1, s1) \<Rightarrow> wake_loop ch (t_next (tsk s1 t)) ws1 s1)"

declare wake_loop.simps [code]

definition sched_wake_channel :: "nat \<Rightarrow> addr \<Rightarrow> sched \<Rightarrow> sched option" where
  "sched_wake_channel me ch s =
     (if ch = NULL then Some s
      else
        case wake_loop ch (g_task_list_head s) [] s of
          None \<Rightarrow> None
        | Some (ws, s1) \<Rightarrow> Some (fold (sched_enqueue_ready me) ws s1))"

section \<open>Load balancing\<close>

fun busiest :: "nat list \<Rightarrow> nat \<Rightarrow> nat \<Rightarrow> u32 \<Rightarrow> sched \<Rightarrow> nat \<times> u32" where
  "busiest [] me b n s = (b, n)"
| "busiest (c # cs) me b n s =
     (if c \<noteq> me \<and> percpu_get c s \<and> runqueue_length (cpu s c) > n
      then busiest cs me c (runqueue_length (cpu s c)) s else busiest cs me b n s)"

definition migratable :: "nat \<Rightarrow> sched \<Rightarrow> addr \<Rightarrow> bool" where
  "migratable me s t \<longleftrightarrow>
     \<not> is_idle_task s t \<and> \<not> is_bootstrap_task s t \<and> privilege (tsk s t) = TASK_USER \<and>
     t_state (tsk s t) = TASK_READY \<and>
     (cpu_affinity (tsk s t) = 0 \<or> cpu_affinity (tsk s t) AND push_bit me 1 \<noteq> 0)"

text \<open>The part of \<^verbatim>\<open>sched_load_balance\<close> that runs with both locks held.\<close>

definition pull :: "nat \<Rightarrow> nat \<Rightarrow> sched \<Rightarrow> sched option" where
  "pull me b s1 =
     (case find_slot (\<lambda>a. rq_next (tsk s1 a)) (migratable me s1) None (runqueue_head (cpu s1 b)) of
        None \<Rightarrow> None
      | Some (prev, t) \<Rightarrow>
          if t = NULL then Some s1
          else
            let s2 = (case prev of
                        Some a \<Rightarrow> upd_task a (\<lambda>x. x\<lparr>rq_next := rq_next (tsk s1 t)\<rparr>) s1
                      | None \<Rightarrow> upd_cpu b (\<lambda>p. p\<lparr>runqueue_head := rq_next (tsk s1 t)\<rparr>) s1);
                s3 = (if runqueue_tail (cpu s2 b) = t
                      then upd_cpu b (\<lambda>p. p\<lparr>runqueue_tail := (case prev of Some a \<Rightarrow> a | None \<Rightarrow> NULL)\<rparr>) s2
                      else s2);
                s4 = upd_task t (\<lambda>x. x\<lparr>rq_next := NULL, on_rq := False\<rparr>) s3;
                s5 = upd_cpu b (\<lambda>p. p\<lparr>runqueue_length := runqueue_length p - 1\<rparr>) s4;
                s6 = upd_task t (\<lambda>x. x\<lparr>on_cpu := me\<rparr>) s5
            in Some (rq_enqueue_locked me t s6))"

text \<open>
  \<open>locked\<close> is what the other processors do to the state between the choice of the busiest queue and the
  moment both locks are held.
\<close>

definition sched_load_balance :: "nat \<Rightarrow> (sched \<Rightarrow> sched) \<Rightarrow> sched \<Rightarrow> sched option" where
  "sched_load_balance me locked s =
     (if \<not> g_smp_initialized s \<or> cpus_online s \<le> 1 then Some s
      else
        let my_len = runqueue_length (cpu s me);
            (b, n) = busiest [0..<cpus_online s] me me my_len s in
        if b = me \<or> n < my_len + 1 \<or> \<not> percpu_get b s then Some s
        else
          let s1 = locked s in
          if runqueue_length (cpu s1 b) < runqueue_length (cpu s1 me) + 1 then Some s1 else pull me b s1)"

end
