(* ===== verification/RunQueue.thy ===== *)
theory RunQueue
  imports Sched
begin

text \<open>
  The run queues as lists of tasks: what \<^verbatim>\<open>rq_enqueue_locked\<close>, \<^verbatim>\<open>rq_dequeue_locked\<close>,
  \<^verbatim>\<open>rq_remove\<close> and \<^verbatim>\<open>sched_enqueue_ready\<close> do to the queue of each processor.
\<close>

section \<open>Abstraction\<close>

lemma upd_simps [simp]:
  "tsk (upd_task t f s) = (tsk s)(t := f (tsk s t))" "cpu (upd_task t f s) = cpu s"
  "cpu (upd_cpu c g s) = (cpu s)(c := g (cpu s c))" "tsk (upd_cpu c g s) = tsk s"
  "cpu_present (upd_task t f s) = cpu_present s" "cpu_present (upd_cpu c g s) = cpu_present s"
  "cpus_online (upd_task t f s) = cpus_online s" "cpus_online (upd_cpu c g s) = cpus_online s"
  "g_idle_task (upd_task t f s) = g_idle_task s" "g_idle_task (upd_cpu c g s) = g_idle_task s"
  "g_ap_idle_tasks (upd_task t f s) = g_ap_idle_tasks s" "g_ap_idle_tasks (upd_cpu c g s) = g_ap_idle_tasks s"
  "g_bootstrap_task (upd_task t f s) = g_bootstrap_task s" "g_bootstrap_task (upd_cpu c g s) = g_bootstrap_task s"
  "g_task_list_head (upd_task t f s) = g_task_list_head s" "g_task_list_head (upd_cpu c g s) = g_task_list_head s"
  "g_smp_initialized (upd_task t f s) = g_smp_initialized s" "g_smp_initialized (upd_cpu c g s) = g_smp_initialized s"
  "g_dead_threads (upd_task t f s) = g_dead_threads s" "g_dead_threads (upd_cpu c g s) = g_dead_threads s"
  by (simp_all add: upd_task_def upd_cpu_def)

lemma log_simps [simp]:
  "tsk (log_event e s) = tsk s" "cpu (log_event e s) = cpu s" "cpu_present (log_event e s) = cpu_present s"
  "g_idle_task (log_event e s) = g_idle_task s" "g_ap_idle_tasks (log_event e s) = g_ap_idle_tasks s"
  "g_bootstrap_task (log_event e s) = g_bootstrap_task s" "g_task_list_head (log_event e s) = g_task_list_head s"
  "g_smp_initialized (log_event e s) = g_smp_initialized s" "cpus_online (log_event e s) = cpus_online s"
  by (simp_all add: log_event_def)

lemma percpu_get_upd [simp]:
  "percpu_get d (upd_task t f s) = percpu_get d s" "percpu_get d (upd_cpu c g s) = percpu_get d s"
  "percpu_get d (log_event e s) = percpu_get d s"
  by (simp_all add: percpu_get_def)

lemma is_idle_upd [simp]:
  "is_idle_task (upd_task t f s) = is_idle_task s" "is_idle_task (upd_cpu c g s) = is_idle_task s"
  "is_idle_task (log_event e s) = is_idle_task s"
  by (simp_all add: is_idle_task_def fun_eq_iff)

text \<open>The queue of one processor.\<close>

definition queue_ok :: "(addr \<Rightarrow> task) \<Rightarrow> percpu \<Rightarrow> addr list \<Rightarrow> bool" where
  "queue_ok ts p q \<longleftrightarrow>
     chained (\<lambda>a. rq_next (ts a)) (runqueue_head p) q \<and>
     runqueue_tail p = (if q = [] then NULL else last q) \<and>
     runqueue_length p = of_nat (length q)"

text \<open>All queues: a task is marked as queued exactly when it is on a queue, and then on that of its processor.\<close>

definition rqs_ok :: "(nat \<Rightarrow> addr list) \<Rightarrow> sched \<Rightarrow> bool" where
  "rqs_ok q s \<longleftrightarrow>
     (\<forall>c. queue_ok (tsk s) (cpu s c) (q c)) \<and>
     (\<forall>c t. t \<in> set (q c) \<longrightarrow> on_cpu (tsk s t) = c \<and> t_state (tsk s t) \<noteq> TASK_RUNNING \<and> percpu_get c s) \<and>
     (\<forall>t. on_rq (tsk s t) \<longrightarrow> t \<in> set (q (on_cpu (tsk s t)))) \<and>
     (\<forall>c t. t \<in> set (q c) \<longrightarrow> on_rq (tsk s t))"

lemma rqs_okI:
  assumes "\<And>c. queue_ok (tsk s) (cpu s c) (q c)"
    and "\<And>c t. t \<in> set (q c) \<Longrightarrow> on_cpu (tsk s t) = c \<and> t_state (tsk s t) \<noteq> TASK_RUNNING \<and> percpu_get c s \<and> on_rq (tsk s t)"
    and "\<And>t. on_rq (tsk s t) \<Longrightarrow> t \<in> set (q (on_cpu (tsk s t)))"
  shows "rqs_ok q s"
  using assms unfolding rqs_ok_def by blast

lemma rqs_okD:
  assumes "rqs_ok q s"
  shows "queue_ok (tsk s) (cpu s c) (q c)"
    and "t \<in> set (q c) \<Longrightarrow> on_cpu (tsk s t) = c \<and> t_state (tsk s t) \<noteq> TASK_RUNNING \<and> percpu_get c s \<and> on_rq (tsk s t)"
    and "on_rq (tsk s t) \<Longrightarrow> t \<in> set (q (on_cpu (tsk s t)))"
  using assms unfolding rqs_ok_def by blast+

lemma rqs_ok_log [simp]: "rqs_ok q (log_event e s) = rqs_ok q s"
  by (simp add: rqs_ok_def)

lemma queue_ok_distinct: "queue_ok ts p q \<Longrightarrow> distinct q \<and> NULL \<notin> set q"
  unfolding queue_ok_def by (blast dest: chained_distinct chained_not_null)

lemma queue_ok_head: "queue_ok ts p q \<Longrightarrow> runqueue_head p = (case q of [] \<Rightarrow> NULL | t # _ \<Rightarrow> t)"
  unfolding queue_ok_def by (cases q) auto

lemma queue_ok_cong:
  assumes "queue_ok ts p q" and "\<And>t. t \<in> set q \<Longrightarrow> rq_next (ts' t) = rq_next (ts t)"
    and "runqueue_head p' = runqueue_head p" "runqueue_tail p' = runqueue_tail p" "runqueue_length p' = runqueue_length p"
  shows "queue_ok ts' p' q"
  using assms chained_cong [of q "\<lambda>a. rq_next (ts' a)" "\<lambda>a. rq_next (ts a)"] unfolding queue_ok_def by simp

lemma chained_snoc:
  assumes "chained f h xs" and "t \<noteq> NULL" and "t \<notin> set xs" and "xs \<noteq> []"
  shows "chained (f(t := NULL, last xs := t)) h (xs @ [t])"
  using assms
proof (induction xs arbitrary: h)
  case (Cons x xs)
  show ?case
  proof (cases "xs = []")
    case False
    have "x \<noteq> last xs" "x \<notin> set xs" using chained_distinct [OF Cons.prems(1)] False by auto
    then show ?thesis using Cons.IH [of "f x"] Cons.prems False by (auto simp: fun_upd_def)
  qed (use Cons.prems in auto)
qed simp

lemma rq_enqueue_ok:
  assumes q: "rqs_ok q s" and t: "t \<noteq> NULL" "\<not> on_rq (tsk s t)" "t_state (tsk s t) \<noteq> TASK_RUNNING" "on_cpu (tsk s t) = c"
    and c: "percpu_get c s"
  shows "rqs_ok (q(c := q c @ [t])) (rq_enqueue_locked c t s)"
proof -
  have out: "t \<notin> set (q d)" for d using q t(2) unfolding rqs_ok_def by blast
  have qc: "queue_ok (tsk s) (cpu s d) (q d)" for d using q unfolding rqs_ok_def by blast
  have nn: "NULL \<notin> set (q d)" for d using queue_ok_distinct [OF qc] by blast
  let ?tail = "runqueue_tail (cpu s c)"
  have ends: "runqueue_head (cpu s c) \<noteq> t" "?tail \<noteq> t"
    using queue_ok_head [OF qc [of c]] qc [of c] t(1) out [of c] unfolding queue_ok_def by (auto split: list.splits)
  let ?s' = "rq_enqueue_locked c t s"
  have tl: "?tail = (if q c = [] then NULL else last (q c))" using qc [of c] unfolding queue_ok_def by blast
  have tail_t: "?tail \<noteq> NULL \<Longrightarrow> ?tail \<in> set (q c)" using tl by auto
  have ts: "tsk ?s' = (if ?tail = NULL then (tsk s)(t := (tsk s t)\<lparr>rq_next := NULL, on_rq := True\<rparr>)
      else (tsk s)(t := (tsk s t)\<lparr>rq_next := NULL, on_rq := True\<rparr>, ?tail := (tsk s ?tail)\<lparr>rq_next := t\<rparr>))"
    using t ends by (simp add: rq_enqueue_locked_def Let_def)
  have cp: "cpu ?s' = (cpu s)(c := (cpu s c)\<lparr>runqueue_head := (if ?tail = NULL then t else runqueue_head (cpu s c)),
      runqueue_tail := t, runqueue_length := runqueue_length (cpu s c) + 1\<rparr>)"
    using t ends by (simp add: rq_enqueue_locked_def Let_def)
  have pg: "percpu_get d ?s' = percpu_get d s" for d using t ends by (simp add: rq_enqueue_locked_def Let_def)
  have queues: "queue_ok (tsk ?s') (cpu ?s' d) ((q(c := q c @ [t])) d)" for d
  proof (cases "d = c")
    case False
    then have "?tail \<notin> set (q d) \<or> ?tail = NULL"
      using tail_t q unfolding rqs_ok_def by metis
    then show ?thesis using False out nn [of d]
      by (auto simp: ts cp intro!: queue_ok_cong [OF qc])
  next
    case True
    show ?thesis
    proof (cases "q c = []")
      case True
      then show ?thesis using \<open>d = c\<close> qc [of c] t(1) tl by (simp add: ts cp queue_ok_def)
    next
      case ne: False
      then have nz: "?tail \<noteq> NULL" using tl nn [of c] ne by (metis last_in_set)
      have f: "(\<lambda>a. rq_next (tsk ?s' a)) = (\<lambda>a. rq_next (tsk s a))(t := NULL, last (q c) := t)"
        using nz tl ne ends by (auto simp: ts fun_eq_iff)
      have "chained (\<lambda>a. rq_next (tsk s a)) (runqueue_head (cpu s c)) (q c)" using qc [of c] unfolding queue_ok_def by blast
      from chained_snoc [OF this t(1) out ne] have "chained (\<lambda>a. rq_next (tsk ?s' a)) (runqueue_head (cpu s c)) (q c @ [t])"
        unfolding f .
      then show ?thesis using \<open>d = c\<close> nz qc [of c] unfolding queue_ok_def by (simp add: cp)
    qed
  qed
  have "on_cpu (tsk ?s' a) = on_cpu (tsk s a)" "t_state (tsk ?s' a) = t_state (tsk s a)"
    "on_rq (tsk ?s' a) = (a = t \<or> on_rq (tsk s a))" for a
    using tail_t ends(2) q unfolding rqs_ok_def by (auto simp: ts)
  note fields = this
  show ?thesis
  proof (rule rqs_okI)
    fix d a assume "a \<in> set ((q(c := q c @ [t])) d)"
    then consider "a = t" "d = c" | "a \<in> set (q d)" by (auto split: if_splits)
    then show "on_cpu (tsk ?s' a) = d \<and> t_state (tsk ?s' a) \<noteq> TASK_RUNNING \<and> percpu_get d ?s' \<and> on_rq (tsk ?s' a)"
      by cases (use t c rqs_okD(2) [OF q] in \<open>simp_all add: fields pg\<close>)
  next
    fix a assume "on_rq (tsk ?s' a)"
    then show "a \<in> set ((q(c := q c @ [t])) (on_cpu (tsk ?s' a)))" using t(4) rqs_okD(3) [OF q, of a] by (auto simp: fields)
  qed (rule queues)
qed

lemma rq_dequeue_empty: "rqs_ok q s \<Longrightarrow> q c = [] \<Longrightarrow> rq_dequeue_locked c s = (NULL, s)"
  using rqs_okD(1) [of q s c] queue_ok_head [of "tsk s" "cpu s c" "[]"] by (simp add: rq_dequeue_locked_def)

text \<open>Taking one task off its queue, whatever its position.\<close>

lemma rqs_ok_unlink:
  assumes q: "rqs_ok q s" and qc: "q c = us @ t # vs"
    and ts: "\<And>a. a \<noteq> t \<Longrightarrow> us = [] \<or> a \<noteq> last us \<Longrightarrow> tsk s' a = tsk s a"
    and tu: "us \<noteq> [] \<Longrightarrow> tsk s' (last us) = (tsk s (last us))\<lparr>rq_next := rq_next (tsk s t)\<rparr>"
    and tt: "tsk s' t = (tsk s t)\<lparr>rq_next := NULL, on_rq := False\<rparr>"
    and cp: "\<And>d. d \<noteq> c \<Longrightarrow> cpu s' d = cpu s d" "\<And>d. percpu_get d s' = percpu_get d s"
    and p: "runqueue_head (cpu s' c) = (if us = [] then rq_next (tsk s t) else runqueue_head (cpu s c))"
      "runqueue_tail (cpu s' c) = (if vs \<noteq> [] then runqueue_tail (cpu s c) else if us = [] then NULL else last us)"
      "runqueue_length (cpu s' c) = runqueue_length (cpu s c) - 1"
  shows "rqs_ok (q(c := us @ vs)) s'"
proof -
  have ok: "queue_ok (tsk s) (cpu s d) (q d)" for d using q unfolding rqs_ok_def by blast
  have dis: "distinct (us @ t # vs)" using queue_ok_distinct [OF ok [of c]] qc by simp
  have other: "d \<noteq> c \<Longrightarrow> a \<in> set (q d) \<Longrightarrow> a \<notin> set (q c)" for a d using q unfolding rqs_ok_def by metis
  have same: "tsk s' a = tsk s a \<or> tsk s' a = (tsk s a)\<lparr>rq_next := rq_next (tsk s t)\<rparr>" if "a \<noteq> t" for a
    using that ts [of a] tu by (cases "us = []"; cases "a = last us") blast+
  have queues: "queue_ok (tsk s') (cpu s' d) ((q(c := us @ vs)) d)" for d
  proof (cases "d = c")
    case False
    have "tsk s' a = tsk s a" if "a \<in> set (q d)" for a
    proof (rule ts)
      have "a \<notin> set us" "a \<noteq> t" using other [OF False that] qc by auto
      then show "a \<noteq> t" and "us = [] \<or> a \<noteq> last us" using last_in_set by blast+
    qed
    then show ?thesis using False cp(1) [OF False] by (auto intro: queue_ok_cong [OF ok [of d]])
  next
    case True
    have ch: "chained (\<lambda>a. rq_next (tsk s a)) (runqueue_head (cpu s c)) (us @ t # vs)"
      and tl: "runqueue_tail (cpu s c) = last (us @ t # vs)" and ln: "runqueue_length (cpu s c) = of_nat (length (us @ t # vs))"
      using ok [of c] unfolding queue_ok_def qc by simp_all
    have "chained (\<lambda>a. rq_next (tsk s' a)) (runqueue_head (cpu s' c)) (us @ vs)"
    proof (cases "us = []")
      case True
      then have "rq_next (tsk s' a) = rq_next (tsk s a)" if "a \<in> set vs" for a
        using ts [of a] that dis by (cases "a = t") auto
      then show ?thesis using ch p(1) True chained_cong [of vs "\<lambda>a. rq_next (tsk s' a)" "\<lambda>a. rq_next (tsk s a)"] by simp
    next
      case False
      have "chained ((\<lambda>a. rq_next (tsk s a))(last us := rq_next (tsk s t))) (runqueue_head (cpu s c)) (us @ vs)"
        by (rule chained_bypass [OF ch False])
      moreover have e: "rq_next (tsk s' a) = ((\<lambda>a. rq_next (tsk s a))(last us := rq_next (tsk s t))) a" if "a \<in> set (us @ vs)" for a
        using that tu [OF False] ts [of a] dis by (cases "a = t"; cases "a = last us") auto
      ultimately show ?thesis by (simp only: p(1) False if_False chained_cong [OF e])
    qed
    then show ?thesis using True p(2,3) tl ln unfolding queue_ok_def by auto
  qed
  have "on_cpu (tsk s' a) = on_cpu (tsk s a) \<and> t_state (tsk s' a) = t_state (tsk s a) \<and>
    on_rq (tsk s' a) = (a \<noteq> t \<and> on_rq (tsk s a))" for a
  proof (cases "a = t")
    case False
    from same [OF False] show ?thesis by (elim disjE) (simp_all add: False)
  qed (simp add: tt)
  then have fields: "on_cpu (tsk s' a) = on_cpu (tsk s a)" "t_state (tsk s' a) = t_state (tsk s a)"
    "on_rq (tsk s' a) = (a \<noteq> t \<and> on_rq (tsk s a))" for a by blast+
  show ?thesis
  proof (rule rqs_okI)
    fix d a assume "a \<in> set ((q(c := us @ vs)) d)"
    then have "a \<in> set (q d)" "a \<noteq> t" using dis other [of d a] by (auto simp: qc split: if_splits)
    then show "on_cpu (tsk s' a) = d \<and> t_state (tsk s' a) \<noteq> TASK_RUNNING \<and> percpu_get d s' \<and> on_rq (tsk s' a)"
      using rqs_okD(2) [OF q, of a d] by (simp add: fields cp(2))
  next
    fix a assume "on_rq (tsk s' a)"
    then show "a \<in> set ((q(c := us @ vs)) (on_cpu (tsk s' a)))" 
      using rqs_okD(3) [OF q, of a] qc by (cases "on_cpu (tsk s a) = c") (auto simp: fields)
  qed (rule queues)
qed

lemma rq_dequeue_ok:
  assumes q: "rqs_ok q s" and qc: "q c = t # vs"
  obtains s' where "rq_dequeue_locked c s = (t, s')" and "rqs_ok (q(c := vs)) s'"
    and "tsk s' = (tsk s)(t := (tsk s t)\<lparr>rq_next := NULL, on_rq := False\<rparr>)"
    and "\<And>d. current_task (cpu s' d) = current_task (cpu s d)" "\<And>d. idle_task (cpu s' d) = idle_task (cpu s d)"
    and "s' = s\<lparr>tsk := tsk s', cpu := cpu s'\<rparr>"
proof -
  have ok: "queue_ok (tsk s) (cpu s c) (t # vs)" using q qc unfolding rqs_ok_def by metis
  then have t: "runqueue_head (cpu s c) = t" "t \<noteq> NULL" and n: "rq_next (tsk s t) = NULL \<longleftrightarrow> vs = []"
    unfolding queue_ok_def by (cases vs; auto)+
  let ?s' = "snd (rq_dequeue_locked c s)"
  have r: "rqs_ok (q(c := [] @ vs)) ?s'"
    by (rule rqs_ok_unlink [OF q, where t = t]) (use t n qc in \<open>auto simp: rq_dequeue_locked_def Let_def\<close>)
  have "rq_dequeue_locked c s = (t, ?s')" using t by (simp add: rq_dequeue_locked_def Let_def)
  moreover have "rqs_ok (q(c := vs)) ?s'" using r by simp
  moreover have "tsk ?s' = (tsk s)(t := (tsk s t)\<lparr>rq_next := NULL, on_rq := False\<rparr>)"
    "\<And>d. current_task (cpu ?s' d) = current_task (cpu s d)" "\<And>d. idle_task (cpu ?s' d) = idle_task (cpu s d)"
    "?s' = s\<lparr>tsk := tsk ?s', cpu := cpu ?s'\<rparr>"
    using t by (simp_all add: rq_dequeue_locked_def Let_def upd_task_def upd_cpu_def)
  ultimately show ?thesis by (rule that)
qed

lemma find_prev:
  assumes "chained f h (us @ t # vs)" and "us \<noteq> []"
  shows "find_node f (\<lambda>a. f a = t) h = Some (last us)"
proof -
  have e: "us @ t # vs = butlast us @ last us # t # vs" using assms(2) by simp
  have d: "distinct (us @ t # vs)" using chained_distinct [OF assms(1)] .
  have link: "f y = t \<Longrightarrow> y = last us" if "y \<in> set us" for y
  proof -
    from that obtain as bs where us: "us = as @ y # bs" by (meson split_list)
    then have "chained f (f y) (bs @ t # vs)" using assms(1) chained_suffix [of f h as y "bs @ t # vs"] by simp
    then show "f y = t \<Longrightarrow> y = last us" using us d by (cases bs) auto
  qed
  show ?thesis
  proof (rule find_node_found)
    show "chained f h (butlast us @ last us # t # vs)" using assms(1) unfolding e .
    then show "f (last us) = t" using chained_suffix [of f h "butlast us" "last us" "t # vs"] by simp
    show "f y \<noteq> t" if "y \<in> set (butlast us)" for y
    proof
      assume "f y = t"
      then have "y = last us" using link [of y] that in_set_butlastD by fast
      then show False using that d assms(2) by (metis append_butlast_last_id distinct_append not_distinct_conv_prefix)
    qed
  qed
qed

lemma rq_remove_ok:
  assumes q: "rqs_ok q s"
  obtains s' where "rq_remove t s = Some s'" and "rqs_ok (\<lambda>c. remove1 t (q c)) s'"
    and "\<And>a. t_state (tsk s' a) = t_state (tsk s a)" "on_rq (tsk s' a) = (a \<noteq> t \<and> on_rq (tsk s a))"
proof (cases "on_rq (tsk s t)")
  case False
  then have "t \<notin> set (q c)" for c using rqs_okD(2) [OF q] by blast
  then have "(\<lambda>c. remove1 t (q c)) = q" by (simp add: fun_eq_iff remove1_idem)
  moreover have "rq_remove t s = Some s" using False by (simp add: rq_remove_def Let_def)
  ultimately show ?thesis using that [of s] q False by auto
next
  case True
  define c where "c = on_cpu (tsk s t)"
  have tc: "t \<in> set (q c)" using rqs_okD(3) [OF q True] c_def by simp
  then obtain us vs where qc: "q c = us @ t # vs" by (meson split_list)
  have pg: "percpu_get c s" using rqs_okD(2) [OF q tc] by simp
  have ok: "queue_ok (tsk s) (cpu s c) (us @ t # vs)" using rqs_okD(1) [OF q, of c] qc by simp
  then have ch: "chained (\<lambda>a. rq_next (tsk s a)) (runqueue_head (cpu s c)) (us @ t # vs)" unfolding queue_ok_def by blast
  have dis: "distinct (us @ t # vs)" "NULL \<notin> set (us @ t # vs)" using queue_ok_distinct [OF ok] by simp_all
  have hd: "runqueue_head (cpu s c) = t \<longleftrightarrow> us = []" using queue_ok_head [OF ok] dis(1) by (cases us) auto
  have tl: "runqueue_tail (cpu s c) = t \<longleftrightarrow> vs = []"
    using ok dis(1) unfolding queue_ok_def by (auto split: if_splits)
  have n: "rq_next (tsk s t) = NULL \<longleftrightarrow> vs = []"
    using chained_suffix [OF ch] dis(2) by (cases vs) auto
  have find: "us \<noteq> [] \<Longrightarrow> find_node (\<lambda>a. rq_next (tsk s a)) (\<lambda>a. rq_next (tsk s a) = t) (runqueue_head (cpu s c)) = Some (last us)"
    by (rule find_prev [OF ch])
  have nz: "us \<noteq> [] \<Longrightarrow> last us \<noteq> NULL \<and> last us \<noteq> t"
    using dis last_in_set [of us] by (metis Un_iff disjoint_iff distinct_append list.set_intros(1) set_append)
  let ?s' = "the (rq_remove t s)"
  have rem: "rq_remove t s = Some ?s'"
    by (cases "us = []") (use True pg hd find nz in \<open>simp_all add: rq_remove_def Let_def c_def\<close>)
  have "rqs_ok (q(c := us @ vs)) ?s'"
    by (rule rqs_ok_unlink [OF q qc]; cases "us = []")
      (use True pg hd find nz tl n in \<open>auto simp: rq_remove_def Let_def c_def\<close>)
  moreover have "q(c := us @ vs) = (\<lambda>d. remove1 t (q d))"
  proof
    fix d
    show "(q(c := us @ vs)) d = remove1 t (q d)"
    proof (cases "d = c")
      case True
      then show ?thesis using dis(1) qc by (simp add: remove1_split)
    next
      case False
      then have "t \<notin> set (q d)" using rqs_okD(2) [OF q, of t d] c_def by auto
      then show ?thesis using False by (simp add: remove1_idem)
    qed
  qed
  moreover have "t_state (tsk ?s' a) = t_state (tsk s a)" "on_rq (tsk ?s' a) = (a \<noteq> t \<and> on_rq (tsk s a))" for a
    by (cases "us = []"; use True pg hd find nz in \<open>simp add: rq_remove_def Let_def c_def\<close>)+
  ultimately show ?thesis using that [OF rem] by simp
qed

lemma sched_enqueue_ready_ok:
  assumes q: "rqs_ok q s" and t: "t \<noteq> NULL" "\<not> is_idle_task s t" "t_state (tsk s t) = TASK_READY" "percpu_get (on_cpu (tsk s t)) s"
  shows "rqs_ok (if on_rq (tsk s t) then q else q(on_cpu (tsk s t) := q (on_cpu (tsk s t)) @ [t])) (sched_enqueue_ready me t s)"
  using rq_enqueue_ok [OF q t(1) _ _ refl t(4)] q t
  by (simp add: sched_enqueue_ready_def Let_def)

end
