(* ===== verification/Scheduling.thy ===== *)
theory Scheduling
  imports RunQueue
begin

text \<open>
  What a call of the scheduler does: the task that runs next, the queue that is left, and the invariant of
  the whole scheduler state that every step on every processor keeps. The queues are lists (theory
  \<^verbatim>\<open>RunQueue\<close>).
\<close>

section \<open>Invariant\<close>

lemma rqs_ok_same:
  assumes q: "rqs_ok q s"
    and t: "\<And>t. rq_next (tsk s' t) = rq_next (tsk s t)" "\<And>t. on_cpu (tsk s' t) = on_cpu (tsk s t)"
      "\<And>t. on_rq (tsk s' t) = on_rq (tsk s t)" "\<And>t. on_rq (tsk s t) \<Longrightarrow> t_state (tsk s' t) \<noteq> TASK_RUNNING"
    and c: "\<And>c. runqueue_head (cpu s' c) = runqueue_head (cpu s c)" "\<And>c. runqueue_tail (cpu s' c) = runqueue_tail (cpu s c)"
      "\<And>c. runqueue_length (cpu s' c) = runqueue_length (cpu s c)" "\<And>c. percpu_get c s' = percpu_get c s"
  shows "rqs_ok q s'"
proof (rule rqs_okI)
  show "queue_ok (tsk s') (cpu s' d) (q d)" for d
    by (rule queue_ok_cong [OF rqs_okD(1) [OF q]]) (simp_all add: t c)
  show "on_cpu (tsk s' a) = d \<and> t_state (tsk s' a) \<noteq> TASK_RUNNING \<and> percpu_get d s' \<and> on_rq (tsk s' a)" if "a \<in> set (q d)" for a d
    using rqs_okD(2) [OF q that] t c by simp
  show "a \<in> set (q (on_cpu (tsk s' a)))" if "on_rq (tsk s' a)" for a
    using rqs_okD(3) [OF q, of a] t that by simp
qed

lemma rqs_ok_on_rq: "rqs_ok q s \<Longrightarrow> on_cpu (tsk s t) = c \<Longrightarrow> on_rq (tsk s t) \<longleftrightarrow> t \<in> set (q c)"
  using rqs_okD(2,3) by blast

definition runnable :: "sched \<Rightarrow> addr \<Rightarrow> bool" where
  "runnable s t \<longleftrightarrow> \<not> has_exited (tsk s t) \<and> t_state (tsk s t) \<in> {TASK_READY, TASK_RUNNING} \<and> \<not> is_idle_task s t"

text \<open>Each processor has an idle task that can always run, and the current task is one of its own.\<close>

definition cpus_ok :: "sched \<Rightarrow> bool" where
  "cpus_ok s \<longleftrightarrow>
     (\<forall>c. percpu_get c s \<longrightarrow>
       (let i = idle_task (cpu s c); t = current_task (cpu s c) in
        i \<noteq> NULL \<and> is_idle_task s i \<and> sp (tsk s i) \<noteq> 0 \<and> t_state (tsk s i) \<noteq> TASK_ZOMBIE \<and> on_cpu (tsk s i) = c \<and>
        (t \<noteq> NULL \<longrightarrow> on_cpu (tsk s t) = c))) \<and>
     (\<forall>t. is_idle_task s t \<longrightarrow> \<not> on_rq (tsk s t))"

text \<open>No task of the set \<open>T\<close> that could run is off every queue without running.\<close>

definition not_lost :: "addr set \<Rightarrow> sched \<Rightarrow> bool" where
  "not_lost T s \<longleftrightarrow>
     (\<forall>t \<in> T. runnable s t \<longrightarrow> on_rq (tsk s t) \<or> (\<exists>c. percpu_get c s \<and> current_task (cpu s c) = t))"

definition sched_inv :: "addr set \<Rightarrow> sched \<Rightarrow> bool" where
  "sched_inv T s \<longleftrightarrow> (\<exists>q. rqs_ok q s) \<and> cpus_ok s \<and> not_lost T s"

section \<open>The parts of a switch\<close>

text \<open>What no part of a switch changes.\<close>

definition same_tasks :: "sched \<Rightarrow> sched \<Rightarrow> bool" where
  "same_tasks s s' \<longleftrightarrow>
     (\<forall>t. on_cpu (tsk s' t) = on_cpu (tsk s t) \<and> has_exited (tsk s' t) = has_exited (tsk s t) \<and>
          t_next (tsk s' t) = t_next (tsk s t) \<and> wait_channel (tsk s' t) = wait_channel (tsk s t) \<and>
          (sp (tsk s t) \<noteq> 0 \<longrightarrow> sp (tsk s' t) \<noteq> 0) \<and>
          (t_state (tsk s' t) = t_state (tsk s t) \<or> t_state (tsk s' t) \<in> {TASK_READY, TASK_RUNNING})) \<and>
     (\<forall>c. idle_task (cpu s' c) = idle_task (cpu s c)) \<and>
     is_idle_task s' = is_idle_task s \<and> g_bootstrap_task s' = g_bootstrap_task s \<and>
     (\<forall>c. percpu_get c s' = percpu_get c s) \<and>
     g_task_list_head s' = g_task_list_head s \<and> g_smp_initialized s' = g_smp_initialized s"

lemma same_tasks_refl [simp, intro]: "same_tasks s s"
  by (simp add: same_tasks_def)

lemma same_tasks_trans [trans]: "same_tasks s s1 \<Longrightarrow> same_tasks s1 s2 \<Longrightarrow> same_tasks s s2"
  unfolding same_tasks_def by (auto 0 3; metis)

lemma rq_enqueue_fields [simp]:
  "t_state (tsk (rq_enqueue_locked c t s) a) = t_state (tsk s a)"
  "on_cpu (tsk (rq_enqueue_locked c t s) a) = on_cpu (tsk s a)"
  "has_exited (tsk (rq_enqueue_locked c t s) a) = has_exited (tsk s a)"
  "sp (tsk (rq_enqueue_locked c t s) a) = sp (tsk s a)"
  "t_next (tsk (rq_enqueue_locked c t s) a) = t_next (tsk s a)"
  "wait_channel (tsk (rq_enqueue_locked c t s) a) = wait_channel (tsk s a)"
  "current_task (cpu (rq_enqueue_locked c t s) d) = current_task (cpu s d)"
  "idle_task (cpu (rq_enqueue_locked c t s) d) = idle_task (cpu s d)"
  "percpu_get d (rq_enqueue_locked c t s) = percpu_get d s"
  "is_idle_task (rq_enqueue_locked c t s) = is_idle_task s"
  "g_task_list_head (rq_enqueue_locked c t s) = g_task_list_head s"
  "g_smp_initialized (rq_enqueue_locked c t s) = g_smp_initialized s"
  "g_bootstrap_task (rq_enqueue_locked c t s) = g_bootstrap_task s"
  by (simp_all add: rq_enqueue_locked_def Let_def)

lemma dead_thread_queue_fields [simp]:
  "tsk (dead_thread_queue t s) = tsk s" "cpu (dead_thread_queue t s) = cpu s"
  "percpu_get d (dead_thread_queue t s) = percpu_get d s" "is_idle_task (dead_thread_queue t s) = is_idle_task s"
  "g_task_list_head (dead_thread_queue t s) = g_task_list_head s"
  "g_smp_initialized (dead_thread_queue t s) = g_smp_initialized s"
  "g_bootstrap_task (dead_thread_queue t s) = g_bootstrap_task s"
  by (simp_all add: dead_thread_queue_def percpu_get_def is_idle_task_def fun_eq_iff)

lemma defer_zombie_fields [simp]:
  "tsk (defer_zombie c p s) = tsk s"
  "current_task (cpu (defer_zombie c p s) d) = current_task (cpu s d)"
  "idle_task (cpu (defer_zombie c p s) d) = idle_task (cpu s d)"
  "runqueue_head (cpu (defer_zombie c p s) d) = runqueue_head (cpu s d)"
  "runqueue_tail (cpu (defer_zombie c p s) d) = runqueue_tail (cpu s d)"
  "runqueue_length (cpu (defer_zombie c p s) d) = runqueue_length (cpu s d)"
  "percpu_get d (defer_zombie c p s) = percpu_get d s" "is_idle_task (defer_zombie c p s) = is_idle_task s"
  "g_task_list_head (defer_zombie c p s) = g_task_list_head s"
  "g_smp_initialized (defer_zombie c p s) = g_smp_initialized s"
  "g_bootstrap_task (defer_zombie c p s) = g_bootstrap_task s"
  by (simp_all add: defer_zombie_def Let_def)

lemma rq_enqueue_on_rq:
  assumes "rqs_ok q s" and "t \<noteq> NULL" "\<not> on_rq (tsk s t)" "t_state (tsk s t) \<noteq> TASK_RUNNING" "on_cpu (tsk s t) = c" "percpu_get c s"
  shows "on_rq (tsk (rq_enqueue_locked c t s) a) = (a = t \<or> on_rq (tsk s a))"
proof -
  note q' = rq_enqueue_ok [OF assms]
  have "on_rq (tsk (rq_enqueue_locked c t s) a) \<longleftrightarrow> a \<in> set ((q(c := q c @ [t])) (on_cpu (tsk s a)))"
    using rqs_ok_on_rq [OF q' refl, of a] by simp
  then show ?thesis using rqs_ok_on_rq [OF assms(1) refl, of a] assms(5) by auto
qed

text \<open>A task that is switched out joins the end of the queue when it could still run and is not on it.\<close>

definition behind :: "sched \<Rightarrow> addr \<Rightarrow> addr list \<Rightarrow> addr list" where
  "behind s cur q = (if runnable s cur \<and> cur \<notin> set q then q @ [cur] else q)"

lemma requeue_ok:
  assumes q: "rqs_ok q s" and cur: "cur \<noteq> NULL" "on_cpu (tsk s cur) = c" "percpu_get c s"
  shows "rqs_ok (q(c := behind s cur (q c))) (requeue c cur b s)"
    and "on_rq (tsk (requeue c cur b s) a) = (on_rq (tsk s a) \<or> a = cur \<and> runnable s cur)"
    and "t_state (tsk (requeue c cur b s) a) = t_state (tsk s a) \<or> a = cur \<and> runnable s cur \<and> t_state (tsk (requeue c cur b s) a) = TASK_READY"
    and "on_rq (tsk (requeue c cur b s) cur) \<Longrightarrow> t_state (tsk (requeue c cur b s) cur) \<noteq> TASK_RUNNING"
proof -
  let ?s1 = "upd_task cur (\<lambda>x. x\<lparr>t_state := TASK_READY\<rparr>) s"
  have q1: "rqs_ok q ?s1" by (rule rqs_ok_same [OF q]) (use rqs_okD(2,3) [OF q] in auto)
  have on: "on_rq (tsk s cur) \<longleftrightarrow> cur \<in> set (q c)" by (rule rqs_ok_on_rq [OF q cur(2)])
  have enq: "\<not> on_rq (tsk s cur) \<Longrightarrow> rqs_ok (q(c := q c @ [cur])) (rq_enqueue_locked c cur ?s1)"
    by (rule rq_enqueue_ok [OF q1]) (use cur in simp_all)
  have skip: "on_rq (tsk s cur) \<Longrightarrow> rq_enqueue_locked c cur ?s1 = ?s1" by (simp add: rq_enqueue_locked_def)
  consider (no) "\<not> runnable s cur" | (off) "runnable s cur" "\<not> on_rq (tsk s cur)"
    | (on) "runnable s cur" "on_rq (tsk s cur)" by blast
  note split = this
  show r: "rqs_ok (q(c := behind s cur (q c))) (requeue c cur b s)"
    using split by cases (use q q1 enq on skip in \<open>auto simp: requeue_def behind_def runnable_def\<close>)
  show o: "on_rq (tsk (requeue c cur b s) a) = (on_rq (tsk s a) \<or> a = cur \<and> runnable s cur)" for a
    using split by cases (use rq_enqueue_on_rq [OF q1] cur skip in \<open>auto simp: requeue_def runnable_def\<close>)
  show "t_state (tsk (requeue c cur b s) a) = t_state (tsk s a) \<or> a = cur \<and> runnable s cur \<and> t_state (tsk (requeue c cur b s) a) = TASK_READY"
    by (auto simp: requeue_def runnable_def)
  show "on_rq (tsk (requeue c cur b s) cur) \<Longrightarrow> t_state (tsk (requeue c cur b s) cur) \<noteq> TASK_RUNNING"
    using rqs_okD(2,3) [OF r] by blast
qed

lemma requeue_fields [simp]:
  "on_cpu (tsk (requeue c cur b s) a) = on_cpu (tsk s a)"
  "has_exited (tsk (requeue c cur b s) a) = has_exited (tsk s a)"
  "sp (tsk (requeue c cur b s) a) = sp (tsk s a)"
  "t_next (tsk (requeue c cur b s) a) = t_next (tsk s a)"
  "wait_channel (tsk (requeue c cur b s) a) = wait_channel (tsk s a)"
  "current_task (cpu (requeue c cur b s) d) = current_task (cpu s d)"
  "idle_task (cpu (requeue c cur b s) d) = idle_task (cpu s d)"
  "percpu_get d (requeue c cur b s) = percpu_get d s"
  "is_idle_task (requeue c cur b s) = is_idle_task s"
  "g_task_list_head (requeue c cur b s) = g_task_list_head s"
  "g_smp_initialized (requeue c cur b s) = g_smp_initialized s"
  "g_bootstrap_task (requeue c cur b s) = g_bootstrap_task s"
  by (simp_all add: requeue_def)

text \<open>
  The switch from \<open>cur\<close> to \<open>nxt\<close>, however the calling function goes about it: from the state \<open>s\<close> in which
  \<open>nxt\<close> has been chosen to the state \<open>s'\<close> in which it runs.
\<close>

definition switched :: "nat \<Rightarrow> addr \<Rightarrow> addr \<Rightarrow> bool \<Rightarrow> sched \<Rightarrow> sched \<Rightarrow> bool" where
  "switched c cur nxt b s s' \<longleftrightarrow>
     (let s3 = requeue c cur b s in
      (\<forall>t. rq_next (tsk s' t) = rq_next (tsk s3 t) \<and> on_cpu (tsk s' t) = on_cpu (tsk s3 t) \<and>
           on_rq (tsk s' t) = on_rq (tsk s3 t) \<and> has_exited (tsk s' t) = has_exited (tsk s3 t) \<and>
           t_next (tsk s' t) = t_next (tsk s3 t) \<and> wait_channel (tsk s' t) = wait_channel (tsk s3 t) \<and>
           (t \<noteq> cur \<longrightarrow> sp (tsk s' t) = sp (tsk s3 t)) \<and>
           (t \<noteq> nxt \<longrightarrow> t_state (tsk s' t) = t_state (tsk s3 t) \<or>
              t = cur \<and> t_state (tsk s3 t) = TASK_RUNNING \<and> t_state (tsk s' t) = TASK_READY)) \<and>
      t_state (tsk s' nxt) = TASK_RUNNING \<and> sp (tsk s' cur) \<noteq> 0 \<and>
      (\<forall>d. runqueue_head (cpu s' d) = runqueue_head (cpu s3 d) \<and> runqueue_tail (cpu s' d) = runqueue_tail (cpu s3 d) \<and>
           runqueue_length (cpu s' d) = runqueue_length (cpu s3 d) \<and> idle_task (cpu s' d) = idle_task (cpu s3 d) \<and>
           current_task (cpu s' d) = (if d = c then nxt else current_task (cpu s3 d)) \<and>
           percpu_get d s' = percpu_get d s3) \<and>
      is_idle_task s' = is_idle_task s3 \<and> g_bootstrap_task s' = g_bootstrap_task s3 \<and>
      g_task_list_head s' = g_task_list_head s3 \<and> g_smp_initialized s' = g_smp_initialized s3)"

lemma switchedD:
  assumes "switched c cur nxt b s s'"
  shows "rq_next (tsk s' t) = rq_next (tsk (requeue c cur b s) t)" "on_cpu (tsk s' t) = on_cpu (tsk s t)"
    "on_rq (tsk s' t) = on_rq (tsk (requeue c cur b s) t)" "has_exited (tsk s' t) = has_exited (tsk s t)"
    "t_next (tsk s' t) = t_next (tsk s t)" "wait_channel (tsk s' t) = wait_channel (tsk s t)"
    "t \<noteq> cur \<Longrightarrow> sp (tsk s' t) = sp (tsk s t)" "sp (tsk s' cur) \<noteq> 0"
    "t \<noteq> nxt \<Longrightarrow> t_state (tsk s' t) = t_state (tsk (requeue c cur b s) t) \<or>
       t = cur \<and> t_state (tsk (requeue c cur b s) t) = TASK_RUNNING \<and> t_state (tsk s' t) = TASK_READY"
    "t_state (tsk s' nxt) = TASK_RUNNING"
    "runqueue_head (cpu s' d) = runqueue_head (cpu (requeue c cur b s) d)"
    "runqueue_tail (cpu s' d) = runqueue_tail (cpu (requeue c cur b s) d)"
    "runqueue_length (cpu s' d) = runqueue_length (cpu (requeue c cur b s) d)"
    "idle_task (cpu s' d) = idle_task (cpu s d)" "current_task (cpu s' d) = (if d = c then nxt else current_task (cpu s d))"
    "percpu_get d s' = percpu_get d s" "is_idle_task s' = is_idle_task s" "g_bootstrap_task s' = g_bootstrap_task s"
    "g_task_list_head s' = g_task_list_head s" "g_smp_initialized s' = g_smp_initialized s"
  using assms unfolding switched_def Let_def requeue_fields by blast+

lemma switched_ok:
  assumes sw: "switched c cur nxt b s s'" and q: "rqs_ok q s" and ok: "cpus_ok s" and c: "percpu_get c s"
    and cur: "cur \<noteq> NULL" "current_task (cpu s c) = cur" and nxt: "nxt \<noteq> cur" "\<not> on_rq (tsk s nxt)" "on_cpu (tsk s nxt) = c"
  shows "rqs_ok (q(c := behind s cur (q c))) s'" and "cpus_ok s'" and "same_tasks s s'"
    and "not_lost T s \<or> not_lost (T - {nxt}) s \<Longrightarrow> not_lost T s'"
proof -
  have cc: "on_cpu (tsk s cur) = c" using ok c cur unfolding cpus_ok_def by (metis (mono_tags))
  note r = requeue_ok [OF q cur(1) cc c, of b] and d = switchedD [OF sw]
  have nq: "\<not> on_rq (tsk (requeue c cur b s) nxt)" using r(2) nxt by simp
  show "rqs_ok (q(c := behind s cur (q c))) s'"
  proof (rule rqs_ok_same [OF r(1)])
    fix t assume on: "on_rq (tsk (requeue c cur b s) t)"
    then have "t \<noteq> nxt" "t_state (tsk (requeue c cur b s) t) \<noteq> TASK_RUNNING" using nq rqs_okD(2,3) [OF r(1)] by blast+
    then show "t_state (tsk s' t) \<noteq> TASK_RUNNING" using d(9) [of t] by auto
  qed (simp_all add: d)
  have st: "t_state (tsk s' t) = t_state (tsk s t) \<or> t_state (tsk s' t) \<in> {TASK_READY, TASK_RUNNING}" for t
    using d(9) [of t] d(10) r(3) [of t] by (cases "t = nxt") auto
  have sps: "sp (tsk s t) \<noteq> 0 \<Longrightarrow> sp (tsk s' t) \<noteq> 0" for t using d(7) [of t] d(8) by (cases "t = cur") simp_all
  show "same_tasks s s'" unfolding same_tasks_def using st sps by (simp add: d(2,4-6,14,16-20))
  show "cpus_ok s'"
    unfolding cpus_ok_def Let_def
  proof (intro conjI allI impI)
    fix e assume "percpu_get e s'"
    then have e: "percpu_get e s" by (simp add: d)
    note o = ok [unfolded cpus_ok_def Let_def, THEN conjunct1, rule_format, OF e]
    show "idle_task (cpu s' e) \<noteq> NULL" "is_idle_task s' (idle_task (cpu s' e))" "on_cpu (tsk s' (idle_task (cpu s' e))) = e"
      using o by (simp_all add: d)
    show "sp (tsk s' (idle_task (cpu s' e))) \<noteq> 0" using o d(7) [of "idle_task (cpu s e)"] d(8) by (cases "idle_task (cpu s e) = cur") (simp_all add: d)
    show "t_state (tsk s' (idle_task (cpu s' e))) \<noteq> TASK_ZOMBIE" using o st [of "idle_task (cpu s e)"] by (auto simp: d(14))
    show "on_cpu (tsk s' (current_task (cpu s' e))) = e" if "current_task (cpu s' e) \<noteq> NULL"
      using o that nxt(3) by (auto simp: d split: if_splits)
  next
    fix t assume "is_idle_task s' t"
    then show "\<not> on_rq (tsk s' t)" using ok r(2) [of t] unfolding cpus_ok_def by (auto simp: d runnable_def)
  qed
  assume nl: "not_lost T s \<or> not_lost (T - {nxt}) s"
  show "not_lost T s'"
    unfolding not_lost_def
  proof (intro ballI impI)
    fix t assume t: "t \<in> T" "runnable s' t"
    show "on_rq (tsk s' t) \<or> (\<exists>e. percpu_get e s' \<and> current_task (cpu s' e) = t)"
    proof (cases "t = nxt")
      case True
      then show ?thesis using c by (auto simp: d)
    next
      case False
      then have "runnable s t" using t(2) d(9) [OF False] r(3) [of t] unfolding runnable_def by (auto simp: d(4,17))
      then have "on_rq (tsk s t) \<or> (\<exists>e. percpu_get e s \<and> current_task (cpu s e) = t)"
        using nl t(1) False unfolding not_lost_def by blast
      then show ?thesis using cur(2) r(2) [of t] \<open>runnable s t\<close> by (auto simp: d)
    qed
  qed
qed

section \<open>The choice of the next task\<close>

text \<open>
  What a scheduling call on processor \<open>c\<close> leaves: the queue of \<open>c\<close> becomes \<open>snd r\<close>, the current task of
  \<open>c\<close> becomes \<open>fst r\<close>, the other queues and current tasks stay, and no runnable task gets lost.
\<close>

definition sched_result :: "nat \<Rightarrow> (nat \<Rightarrow> addr list) \<Rightarrow> sched \<Rightarrow> sched \<Rightarrow> addr \<times> addr list \<Rightarrow> bool" where
  "sched_result c q s s' r \<longleftrightarrow>
     rqs_ok (q(c := snd r)) s' \<and> cpus_ok s' \<and> same_tasks s s' \<and>
     (\<forall>d. current_task (cpu s' d) = (if d = c then fst r else current_task (cpu s d))) \<and>
     (\<forall>T. not_lost T s \<longrightarrow> not_lost T s')"

lemma cpus_okD:
  assumes "cpus_ok s" and "percpu_get c s"
  shows "idle_task (cpu s c) \<noteq> NULL" "is_idle_task s (idle_task (cpu s c))" "sp (tsk s (idle_task (cpu s c))) \<noteq> 0"
    "t_state (tsk s (idle_task (cpu s c))) \<noteq> TASK_ZOMBIE" "on_cpu (tsk s (idle_task (cpu s c))) = c"
    "\<not> on_rq (tsk s (idle_task (cpu s c)))"
    "current_task (cpu s c) \<noteq> NULL \<Longrightarrow> on_cpu (tsk s (current_task (cpu s c))) = c"
  using assms unfolding cpus_ok_def Let_def by blast+

lemma cpus_ok_same:
  assumes "cpus_ok s" and "same_tasks s s'" and "\<And>t. is_idle_task s t \<Longrightarrow> sp (tsk s' t) = 0 \<longleftrightarrow> sp (tsk s t) = 0"
    and "\<And>c. current_task (cpu s' c) = current_task (cpu s c)" and "\<And>t. is_idle_task s t \<Longrightarrow> \<not> on_rq (tsk s' t)"
  shows "cpus_ok s'"
  unfolding cpus_ok_def Let_def
proof (intro conjI allI impI)
  note st = assms(2) [unfolded same_tasks_def]
  fix c assume "percpu_get c s'"
  then have "percpu_get c s" using st by blast
  note o = cpus_okD [OF assms(1) this]
  have i: "idle_task (cpu s' c) = idle_task (cpu s c)" using st by blast
  show "idle_task (cpu s' c) \<noteq> NULL" "is_idle_task s' (idle_task (cpu s' c))" "on_cpu (tsk s' (idle_task (cpu s' c))) = c"
    "sp (tsk s' (idle_task (cpu s' c))) \<noteq> 0"
    using o st assms(3) unfolding i by simp_all
  show "t_state (tsk s' (idle_task (cpu s' c))) \<noteq> TASK_ZOMBIE"
    using o(4) st unfolding i by (metis insertE singletonD task_state.distinct(7,13))
  show "on_cpu (tsk s' (current_task (cpu s' c))) = c" if "current_task (cpu s' c) \<noteq> NULL"
    using o(7) st that assms(4) by simp
qed (use assms in \<open>simp add: same_tasks_def\<close>)

text \<open>The current task goes on.\<close>

lemma keep_result:
  assumes q: "rqs_ok q s" and ok: "cpus_ok s" and c: "percpu_get c s" "current_task (cpu s c) = cur" "\<not> on_rq (tsk s cur)"
    and s': "\<And>t. t \<noteq> cur \<Longrightarrow> tsk s' t = tsk s t"
      "rq_next (tsk s' cur) = rq_next (tsk s cur)" "on_cpu (tsk s' cur) = on_cpu (tsk s cur)" "sp (tsk s' cur) = sp (tsk s cur)"
      "has_exited (tsk s' cur) = has_exited (tsk s cur)" "t_next (tsk s' cur) = t_next (tsk s cur)"
      "wait_channel (tsk s' cur) = wait_channel (tsk s cur)" "on_rq (tsk s' cur) = on_rq (tsk s cur)"
      "t_state (tsk s' cur) = t_state (tsk s cur) \<or> t_state (tsk s' cur) = TASK_RUNNING"
      "cpu s' = cpu s" "\<And>d. percpu_get d s' = percpu_get d s"
      "is_idle_task s' = is_idle_task s" "g_bootstrap_task s' = g_bootstrap_task s"
      "g_task_list_head s' = g_task_list_head s" "g_smp_initialized s' = g_smp_initialized s"
  shows "sched_result c q s s' (cur, q c)"
proof -
  have f: "rq_next (tsk s' t) = rq_next (tsk s t)" "on_cpu (tsk s' t) = on_cpu (tsk s t)" "sp (tsk s' t) = sp (tsk s t)"
    "has_exited (tsk s' t) = has_exited (tsk s t)" "t_next (tsk s' t) = t_next (tsk s t)"
    "wait_channel (tsk s' t) = wait_channel (tsk s t)" "on_rq (tsk s' t) = on_rq (tsk s t)"
    "t_state (tsk s' t) = t_state (tsk s t) \<or> t = cur \<and> t_state (tsk s' t) = TASK_RUNNING" for t
    using s' by (cases "t = cur"; simp)+
  have rq: "rqs_ok q s'"
  proof (rule rqs_ok_same [OF q])
    fix t assume "on_rq (tsk s t)"
    then show "t_state (tsk s' t) \<noteq> TASK_RUNNING" using f(8) [of t] c(3) rqs_okD(2,3) [OF q] by metis
  qed (simp_all add: f s')
  have st: "same_tasks s s'" unfolding same_tasks_def using f(8) by (auto simp: f(1-7) s')
  have "cpus_ok s'" by (rule cpus_ok_same [OF ok st]) (use ok in \<open>simp_all add: f s' cpus_ok_def\<close>)
  moreover have "not_lost T s'" if "not_lost T s" for T
    unfolding not_lost_def
  proof (intro ballI impI)
    fix t assume t: "t \<in> T" "runnable s' t"
    show "on_rq (tsk s' t) \<or> (\<exists>d. percpu_get d s' \<and> current_task (cpu s' d) = t)"
    proof (cases "t = cur")
      case True
      then show ?thesis using c by (auto simp: s')
    next
      case False
      then have "runnable s t" using t(2) s'(1) [OF False] unfolding runnable_def by (simp add: s')
      then show ?thesis using that t(1) unfolding not_lost_def by (simp add: f s')
    qed
  qed
  ultimately show ?thesis using rq st c(2) unfolding sched_result_def by (simp add: s')
qed

text \<open>The state after the choice, with the tasks \<open>X\<close> taken off the queue of \<open>c\<close>.\<close>

definition chosen :: "nat \<Rightarrow> (nat \<Rightarrow> addr list) \<Rightarrow> sched \<Rightarrow> sched \<Rightarrow> addr list \<Rightarrow> addr set \<Rightarrow> bool" where
  "chosen c q s s1 r X \<longleftrightarrow>
     rqs_ok (q(c := r)) s1 \<and> cpus_ok s1 \<and> same_tasks s s1 \<and>
     (\<forall>d. current_task (cpu s1 d) = current_task (cpu s d)) \<and>
     (\<forall>t. t_state (tsk s1 t) = t_state (tsk s t) \<and> sp (tsk s1 t) = sp (tsk s t)) \<and>
     (\<forall>T. not_lost T s \<longrightarrow> not_lost (T - X) s1)"

lemma chosen_runnable: "chosen c q s s1 r X \<Longrightarrow> runnable s1 t = runnable s t"
  unfolding chosen_def same_tasks_def runnable_def by simp

lemma chosen_switch:
  assumes ch: "chosen c q s s1 r X" and X: "X \<subseteq> {nxt}" and sw: "switched c cur nxt b s1 s'"
    and c: "percpu_get c s" "cur \<noteq> NULL" "current_task (cpu s c) = cur"
    and nxt: "nxt \<noteq> cur" "\<not> on_rq (tsk s1 nxt)" "on_cpu (tsk s nxt) = c"
  shows "sched_result c q s s' (nxt, behind s cur r)"
proof -
  note p = ch [unfolded chosen_def]
  have st: "same_tasks s s1" and q1: "rqs_ok (q(c := r)) s1" and ok1: "cpus_ok s1" using p by blast+
  have c1: "percpu_get c s1" "current_task (cpu s1 c) = cur" "on_cpu (tsk s1 nxt) = c"
    using p c nxt(3) unfolding same_tasks_def by auto
  note sw' = switched_ok [OF sw q1 ok1 c1(1) c(2) c1(2) nxt(1,2) c1(3)]
  have "behind s1 cur r = behind s cur r" unfolding behind_def chosen_runnable [OF ch] ..
  then have "rqs_ok (q(c := behind s cur r)) s'" using sw'(1) by simp
  moreover have "not_lost T s'" if "not_lost T s" for T
  proof -
    have "not_lost (T - X) s1" using p that by blast
    then have "not_lost (T - {nxt}) s1" using X unfolding not_lost_def by blast
    then show ?thesis by (rule sw'(4) [OF disjI2])
  qed
  moreover have "same_tasks s s'" using st sw'(3) by (rule same_tasks_trans)
  ultimately show ?thesis
    using sw'(2) p switchedD(15) [OF sw] unfolding sched_result_def by simp
qed

lemma chosen_result:
  assumes ch: "chosen c q s s1 r {}" and res: "sched_result c (q(c := r)) s1 s' (cur, r)"
  shows "sched_result c q s s' (cur, r)"
  using assms same_tasks_trans [of s s1 s'] unfolding sched_result_def chosen_def by simp

text \<open>States that differ only in what the scheduling state does not depend on.\<close>

definition agree :: "sched \<Rightarrow> sched \<Rightarrow> bool" where
  "agree s s1 \<longleftrightarrow>
     (\<forall>t. rq_next (tsk s1 t) = rq_next (tsk s t) \<and> on_cpu (tsk s1 t) = on_cpu (tsk s t) \<and> on_rq (tsk s1 t) = on_rq (tsk s t) \<and>
          has_exited (tsk s1 t) = has_exited (tsk s t) \<and> t_next (tsk s1 t) = t_next (tsk s t) \<and>
          wait_channel (tsk s1 t) = wait_channel (tsk s t) \<and> t_state (tsk s1 t) = t_state (tsk s t) \<and> sp (tsk s1 t) = sp (tsk s t)) \<and>
     cpu s1 = cpu s \<and> (\<forall>d. percpu_get d s1 = percpu_get d s) \<and> is_idle_task s1 = is_idle_task s \<and>
     g_bootstrap_task s1 = g_bootstrap_task s \<and> g_task_list_head s1 = g_task_list_head s \<and>
     g_smp_initialized s1 = g_smp_initialized s"

lemma agree_ok:
  assumes "agree s s1"
  shows "rqs_ok q s1 = rqs_ok q s" "cpus_ok s1 = cpus_ok s" "not_lost T s1 = not_lost T s" "same_tasks s s1"
    "runnable s1 t = runnable s t" "behind s1 t qs = behind s t qs"
proof -
  note a = assms [unfolded agree_def]
  have "chained (\<lambda>t. rq_next (tsk s1 t)) h xs = chained (\<lambda>t. rq_next (tsk s t)) h xs" for h xs
    by (rule chained_cong) (simp add: a)
  then show "rqs_ok q s1 = rqs_ok q s" unfolding rqs_ok_def queue_ok_def by (simp add: a)
  show "cpus_ok s1 = cpus_ok s" unfolding cpus_ok_def by (simp add: a)
  show "same_tasks s s1" unfolding same_tasks_def by (simp add: a)
  show r: "runnable s1 t = runnable s t" for t unfolding runnable_def by (simp add: a)
  show "not_lost T s1 = not_lost T s" unfolding not_lost_def by (simp add: a r)
  show "behind s1 t qs = behind s t qs" unfolding behind_def r ..
qed

lemma sched_result_pre:
  assumes "agree s s1" and "sched_result c q s1 s' r"
  shows "sched_result c q s s' r"
proof -
  have "same_tasks s1 s'" using assms(2) unfolding sched_result_def by blast
  then have "same_tasks s s'" using same_tasks_trans agree_ok(4) [OF assms(1)] by blast
  moreover have "cpu s1 = cpu s" using assms(1) unfolding agree_def by blast
  ultimately show ?thesis using assms(2) agree_ok(3) [OF assms(1)] unfolding sched_result_def by simp
qed

lemma sched_result_post:
  assumes "sched_result c q s s' r" and "agree s' s1"
  shows "sched_result c q s s1 r"
proof -
  have "same_tasks s s'" using assms(1) unfolding sched_result_def by blast
  then have "same_tasks s s1" using same_tasks_trans agree_ok(4) [OF assms(2)] by blast
  moreover have "cpu s1 = cpu s'" using assms(2) unfolding agree_def by blast
  ultimately show ?thesis using assms(1) agree_ok(1-3) [OF assms(2)] unfolding sched_result_def by simp
qed

lemma chosen_nothing: "rqs_ok q s \<Longrightarrow> cpus_ok s \<Longrightarrow> q c = r \<Longrightarrow> chosen c q s s r {}"
  by (auto simp: chosen_def fun_upd_idem)

lemma chosen_dequeue:
  assumes q: "rqs_ok q s" and ok: "cpus_ok s" and qc: "q c = t # ts"
  obtains s1 where "rq_dequeue_locked c s = (t, s1)" and "chosen c q s s1 ts {t}" and "\<not> on_rq (tsk s1 t)"
    and "t_state (tsk s t) \<noteq> TASK_RUNNING" "on_cpu (tsk s t) = c" "percpu_get c s" "\<not> is_idle_task s t" "t \<noteq> NULL"
proof -
  have t: "t \<in> set (q c)" using qc by simp
  note tt = rqs_okD(2) [OF q t]
  have ni: "\<not> is_idle_task s t" using ok tt unfolding cpus_ok_def by blast
  have nn: "t \<noteq> NULL" using queue_ok_distinct [OF rqs_okD(1) [OF q]] t by metis
  show ?thesis
  proof (rule rq_dequeue_ok [OF q qc])
    fix s' assume s': "rq_dequeue_locked c s = (t, s')" "rqs_ok (q(c := ts)) s'"
      "tsk s' = (tsk s)(t := (tsk s t)\<lparr>rq_next := NULL, on_rq := False\<rparr>)"
      "\<And>d. current_task (cpu s' d) = current_task (cpu s d)" "\<And>d. idle_task (cpu s' d) = idle_task (cpu s d)"
      "s' = s\<lparr>tsk := tsk s', cpu := cpu s'\<rparr>"
    have g: "percpu_get d s' = percpu_get d s" "is_idle_task s' = is_idle_task s" "g_bootstrap_task s' = g_bootstrap_task s"
      "g_task_list_head s' = g_task_list_head s" "g_smp_initialized s' = g_smp_initialized s" for d
      by (subst s'(6), simp add: percpu_get_def is_idle_task_def fun_eq_iff)+
    have st: "same_tasks s s'" unfolding same_tasks_def by (simp add: s'(3,5) g)
    have "cpus_ok s'" by (rule cpus_ok_same [OF ok st]) (use ok in \<open>simp_all add: s'(3,4) cpus_ok_def\<close>)
    moreover have "not_lost (T - {t}) s'" if "not_lost T s" for T
      using that unfolding not_lost_def runnable_def by (auto simp: s'(3,4) g)
    ultimately have "chosen c q s s' ts {t}" using s'(2) st unfolding chosen_def by (simp add: s'(3,4))
    then show ?thesis using that [OF s'(1)] tt ni nn by (simp add: s'(3))
  qed
qed

lemma chosen_drop:
  assumes "chosen c q s s1 r {t}" and "\<not> runnable s t \<or> (percpu_get c s \<and> current_task (cpu s c) = t)"
  shows "chosen c q s s1 r {}"
proof -
  have "not_lost T s1" if "not_lost (T - {t}) s1" for T
    using that assms chosen_runnable [OF assms(1), of t] unfolding not_lost_def chosen_def same_tasks_def by (metis Diff_iff singletonD)
  then show ?thesis using assms(1) unfolding chosen_def by simp
qed

lemma chosen_put_back:
  assumes ch: "chosen c q s s1 r {t}" and t: "\<not> on_rq (tsk s1 t)" "t_state (tsk s t) \<noteq> TASK_RUNNING" "on_cpu (tsk s t) = c"
    "percpu_get c s" "\<not> is_idle_task s t" "t \<noteq> NULL"
  shows "chosen c q s (rq_enqueue_locked c t s1) (r @ [t]) {}"
proof -
  note p = ch [unfolded chosen_def same_tasks_def]
  have t1: "t_state (tsk s1 t) \<noteq> TASK_RUNNING" "on_cpu (tsk s1 t) = c" "percpu_get c s1" using p t by auto
  have q1: "rqs_ok (q(c := r)) s1" using p by blast
  have rq: "rqs_ok (q(c := r @ [t])) (rq_enqueue_locked c t s1)" using rq_enqueue_ok [OF q1 t(6,1) t1] by simp
  note on = rq_enqueue_on_rq [OF q1 t(6,1) t1]
  have st: "same_tasks s (rq_enqueue_locked c t s1)" using p unfolding same_tasks_def by simp
  have "cpus_ok (rq_enqueue_locked c t s1)"
    by (rule cpus_ok_same [of s1]) (use p t(5) in \<open>simp_all add: same_tasks_def on cpus_ok_def\<close>, auto)
  moreover have "not_lost T (rq_enqueue_locked c t s1)" if "not_lost T s" for T
  proof -
    have "not_lost (T - {t}) s1" using p that by blast
    then show ?thesis unfolding not_lost_def runnable_def by (auto simp: on)
  qed
  ultimately show ?thesis using rq st p unfolding chosen_def by simp
qed

text \<open>
  The choice on processor \<open>c\<close> with queue \<open>q\<close>: the first task of the queue if it can run, else the idle task.
  The flag says whether a call that takes its own task off the queue keeps it running.
\<close>

definition next_task :: "bool \<Rightarrow> nat \<Rightarrow> sched \<Rightarrow> addr list \<Rightarrow> addr \<times> addr list" where
  "next_task stay c s q =
     (let cur = current_task (cpu s c); idle = idle_task (cpu s c);
          go = (\<lambda>n r. if n = cur then (cur, r) else (n, behind s cur r))
      in case q of
           [] \<Rightarrow> go idle []
         | t # ts \<Rightarrow>
             if t = cur then (if stay then (cur, ts) else go idle ts)
             else if t_state (tsk s t) = TASK_ZOMBIE then go idle ts
             else if sp (tsk s t) = 0 then go idle (ts @ [t])
             else go t ts)"

lemma next_task_agree: "agree s s1 \<Longrightarrow> next_task b c s1 q = next_task b c s q"
  using agree_ok(6) [of s s1] unfolding next_task_def Let_def by (cases q) (simp_all add: agree_def)

lemma usable_result:
  assumes "chosen c q s s1 ts {t}" "\<not> on_rq (tsk s1 t)" "t_state (tsk s t) \<noteq> TASK_RUNNING" "on_cpu (tsk s t) = c"
    "percpu_get c s" "\<not> is_idle_task s t" "t \<noteq> NULL"
  shows "if t_state (tsk s t) = TASK_ZOMBIE then usable c t s1 = (idle_task (cpu s c), s1) \<and> chosen c q s s1 ts {}
    else if sp (tsk s t) = 0 then \<exists>s2. usable c t s1 = (idle_task (cpu s c), s2) \<and> chosen c q s s2 (ts @ [t]) {}
    else usable c t s1 = (t, s1)"
proof -
  note p = assms(1) [unfolded chosen_def same_tasks_def]
  have z: "t_state (tsk s t) = TASK_ZOMBIE \<Longrightarrow> chosen c q s s1 ts {}"
    by (rule chosen_drop [OF assms(1)]) (simp add: runnable_def)
  show ?thesis
    using z chosen_put_back [OF assms] p assms(6) by (auto simp: usable_def)
qed

lemma idle_facts:
  assumes "chosen c q s s2 r X" and "percpu_get c s"
  shows "idle_task (cpu s2 c) = idle_task (cpu s c)" "\<not> on_rq (tsk s2 (idle_task (cpu s c)))"
    "sp (tsk s2 (idle_task (cpu s c))) \<noteq> 0" "t_state (tsk s2 (idle_task (cpu s c))) \<noteq> TASK_ZOMBIE"
    "idle_task (cpu s c) \<noteq> NULL" "on_cpu (tsk s (idle_task (cpu s c))) = c"
proof -
  have st: "same_tasks s s2" and ok: "cpus_ok s2" using assms(1) unfolding chosen_def by blast+
  have g: "percpu_get c s2" and i: "idle_task (cpu s2 c) = idle_task (cpu s c)"
    using st assms(2) unfolding same_tasks_def by blast+
  note o = cpus_okD [OF ok g]
  show "idle_task (cpu s2 c) = idle_task (cpu s c)" "\<not> on_rq (tsk s2 (idle_task (cpu s c)))"
    "sp (tsk s2 (idle_task (cpu s c))) \<noteq> 0" "t_state (tsk s2 (idle_task (cpu s c))) \<noteq> TASK_ZOMBIE"
    "idle_task (cpu s c) \<noteq> NULL" using o i by simp_all
  show "on_cpu (tsk s (idle_task (cpu s c))) = c" using o(5) st unfolding i same_tasks_def by simp
qed

lemma keep_running_result:
  assumes "rqs_ok q s" and "cpus_ok s" and "percpu_get c s" "current_task (cpu s c) = cur" "\<not> on_rq (tsk s cur)"
  shows "sched_result c q s (keep_running cur b s) (cur, q c)" and "sched_result c q s s (cur, q c)"
  by (rule keep_result [OF assms]; simp add: keep_running_def)+

text \<open>The common shape of the three scheduling functions, with what each does in the end.\<close>

definition dispatch ::
    "nat \<Rightarrow> bool \<Rightarrow> (sched \<Rightarrow> sched) \<Rightarrow> (sched \<Rightarrow> sched) \<Rightarrow> (sched \<Rightarrow> sched) \<Rightarrow> (addr \<Rightarrow> sched \<Rightarrow> sched) \<Rightarrow> sched \<Rightarrow> sched" where
  "dispatch c stay kS kE kU sw s =
     (let cur = current_task (cpu s c); (nxt, s1) = rq_dequeue_locked c s in
      if stay \<and> nxt = cur then kS s1
      else
        let nxt1 = (if nxt = NULL \<or> nxt = cur then idle_task (cpu s1 c) else nxt) in
        if nxt1 = NULL \<or> nxt1 = cur then kE s1
        else
          let (nxt2, s2) = usable c nxt1 s1 in
          if nxt2 = NULL \<or> nxt2 = cur \<or> sp (tsk s2 nxt2) = 0 then kU s2 else sw nxt2 s2)"

text \<open>The function \<open>k\<close> lets the current task of \<open>c\<close> go on.\<close>

definition keeps :: "nat \<Rightarrow> addr \<Rightarrow> (sched \<Rightarrow> sched) \<Rightarrow> bool" where
  "keeps c cur k \<longleftrightarrow>
     (\<forall>q s. rqs_ok q s \<longrightarrow> cpus_ok s \<longrightarrow> percpu_get c s \<longrightarrow> current_task (cpu s c) = cur \<longrightarrow> \<not> on_rq (tsk s cur) \<longrightarrow>
       sched_result c q s (k s) (cur, q c))"

lemma chosen_keeps:
  assumes "keeps c cur k" and ch: "chosen c q s s2 r {}" and "percpu_get c s" "current_task (cpu s c) = cur" "\<not> on_rq (tsk s2 cur)"
  shows "sched_result c q s (k s2) (cur, r)"
proof (rule chosen_result [OF ch])
  note p = ch [unfolded chosen_def same_tasks_def]
  show "sched_result c (q(c := r)) s2 (k s2) (cur, r)"
    using assms(1) [unfolded keeps_def, rule_format, of "q(c := r)" s2] p assms(3-5) by simp
qed

lemma dispatch_idle:
  assumes ch: "chosen c q s s2 r {}" and c: "percpu_get c s" "cur \<noteq> NULL" "current_task (cpu s c) = cur"
    and k: "keeps c cur k" and sw: "\<And>n s. n \<noteq> cur \<Longrightarrow> switched c cur n b s (sw n s)"
  shows "sched_result c q s (if idle_task (cpu s c) = cur then k s2 else sw (idle_task (cpu s c)) s2)
    (if idle_task (cpu s c) = cur then (cur, r) else (idle_task (cpu s c), behind s cur r))"
proof (cases "idle_task (cpu s c) = cur")
  case True
  then show ?thesis using chosen_keeps [OF k ch c(1,3)] idle_facts(2) [OF ch c(1)] by simp
next
  case False
  then show ?thesis
    using chosen_switch [OF ch _ sw [OF False] c False idle_facts(2) [OF ch c(1)] idle_facts(6) [OF ch c(1)]] by simp
qed

lemma dispatch_result:
  assumes q: "rqs_ok q s" and ok: "cpus_ok s" and c: "percpu_get c s" "cur \<noteq> NULL" "current_task (cpu s c) = cur"
    and k: "keeps c cur kS" "keeps c cur kE" "keeps c cur kU"
    and sw: "\<And>n s. n \<noteq> cur \<Longrightarrow> switched c cur n b s (sw n s)"
  shows "sched_result c q s (dispatch c stay kS kE kU sw s) (next_task stay c s (q c))"
proof (cases "q c")
  case Nil
  let ?i = "idle_task (cpu s c)"
  have ch: "chosen c q s s [] {}" by (rule chosen_nothing [OF q ok Nil])
  note i = idle_facts [OF ch c(1)]
  have "usable c ?i s = (?i, s)" using i(3,4) by (simp add: usable_def)
  then have "dispatch c stay kS kE kU sw s = (if ?i = cur then kE s else sw ?i s)"
    using rq_dequeue_empty [OF q Nil] c i(3,5) by (simp add: dispatch_def Let_def)
  moreover have "next_task stay c s (q c) = (if ?i = cur then (cur, []) else (?i, behind s cur []))"
    using c(3) by (simp add: next_task_def Let_def Nil)
  moreover have "sched_result c q s (if ?i = cur then kE s else sw ?i s) (if ?i = cur then (cur, []) else (?i, behind s cur []))"
    by (rule dispatch_idle [OF ch c k(2) sw])
  ultimately show ?thesis by (simp only:)
next
  case (Cons t ts)
  let ?i = "idle_task (cpu s c)"
  from chosen_dequeue [OF q ok Cons] obtain s1 where deq: "rq_dequeue_locked c s = (t, s1)"
    and ch: "chosen c q s s1 ts {t}" and off: "\<not> on_rq (tsk s1 t)"
    and t: "t_state (tsk s t) \<noteq> TASK_RUNNING" "on_cpu (tsk s t) = c" "percpu_get c s" "\<not> is_idle_task s t" "t \<noteq> NULL"
    by metis
  have idle: "sched_result c q s (dispatch c stay kS kE kU sw s) (if ?i = cur then (cur, r) else (?i, behind s cur r))"
    if "dispatch c stay kS kE kU sw s = (if ?i = cur then kU s2 else sw ?i s2)" "chosen c q s s2 r {}" for s2 r
    unfolding that(1) by (rule dispatch_idle [OF that(2) c k(3) sw])
  show ?thesis
  proof (cases "t = cur")
    case True
    then have ch': "chosen c q s s1 ts {}" using chosen_drop [OF ch] c by simp
    note i = idle_facts [OF ch' c(1)]
    have ni: "?i \<noteq> cur" using t(4) True cpus_okD(2) [OF ok c(1)] by metis
    show ?thesis
    proof (cases stay)
      case stay: True
      have "sched_result c q s (kS s1) (cur, ts)" using chosen_keeps [OF k(1) ch' c(1,3)] off True by simp
      then show ?thesis using deq c True stay by (simp add: dispatch_def next_task_def Let_def Cons)
    next
      case False
      have "usable c ?i s1 = (?i, s1)" using i(3,4) by (simp add: usable_def)
      then have "dispatch c stay kS kE kU sw s = (if ?i = cur then kU s1 else sw ?i s1)"
        using deq c True False ni i(1,3,5) by (simp add: dispatch_def Let_def)
      then show ?thesis using idle [of s1 ts] ch' ni True False c by (simp add: next_task_def Let_def Cons)
    qed
  next
    case False
    note u = usable_result [OF ch off t]
    have d: "dispatch c stay kS kE kU sw s = (case usable c t s1 of (n, s2) \<Rightarrow>
        if n = NULL \<or> n = cur \<or> sp (tsk s2 n) = 0 then kU s2 else sw n s2)"
      using deq c False t(5) by (cases "usable c t s1") (simp add: dispatch_def Let_def)
    have idle': "dispatch c stay kS kE kU sw s = (if ?i = cur then kU s2 else sw ?i s2)"
      if "usable c t s1 = (?i, s2)" "chosen c q s s2 r {}" for s2 r
      using d that(1) idle_facts [OF that(2) c(1)] by simp
    consider (z) "t_state (tsk s t) = TASK_ZOMBIE" | (n) "t_state (tsk s t) \<noteq> TASK_ZOMBIE" "sp (tsk s t) = 0"
      | (y) "t_state (tsk s t) \<noteq> TASK_ZOMBIE" "sp (tsk s t) \<noteq> 0" by blast
    then show ?thesis
    proof cases
      case z
      then have "usable c t s1 = (?i, s1)" "chosen c q s s1 ts {}" using u by simp_all
      then show ?thesis using idle [OF idle'] z False c(3) by (simp add: next_task_def Let_def Cons)
    next
      case n
      then obtain s2 where "usable c t s1 = (?i, s2)" "chosen c q s s2 (ts @ [t]) {}" using u by auto
      then show ?thesis using n idle [OF idle'] False c(3) by (simp add: next_task_def Let_def Cons)
    next
      case y
      have "sp (tsk s1 t) = sp (tsk s t)" using ch unfolding chosen_def by blast
      then have "dispatch c stay kS kE kU sw s = sw t s1" using u d y False t(5) by simp
      then show ?thesis
        using chosen_switch [OF ch _ sw [OF False] c False off t(2)] y False c(3) by (simp add: next_task_def Let_def Cons)
    qed
  qed
qed

section \<open>The three scheduling functions\<close>

lemma keepsI:
  assumes "\<And>s. tsk (k s) = (tsk s)(cur := f s (tsk s cur))"
    and "\<And>s x. rq_next (f s x) = rq_next x \<and> on_cpu (f s x) = on_cpu x \<and> sp (f s x) = sp x \<and> has_exited (f s x) = has_exited x \<and>
      t_next (f s x) = t_next x \<and> wait_channel (f s x) = wait_channel x \<and> on_rq (f s x) = on_rq x \<and>
      (t_state (f s x) = t_state x \<or> t_state (f s x) = TASK_RUNNING)"
    and "\<And>s. cpu (k s) = cpu s" "\<And>s d. percpu_get d (k s) = percpu_get d s" "\<And>s. is_idle_task (k s) = is_idle_task s"
      "\<And>s. g_bootstrap_task (k s) = g_bootstrap_task s" "\<And>s. g_task_list_head (k s) = g_task_list_head s"
      "\<And>s. g_smp_initialized (k s) = g_smp_initialized s"
  shows "keeps c cur k"
  unfolding keeps_def by (intro allI impI keep_result) (simp_all add: assms)

text \<open>The functions as instances of the common shape.\<close>

definition keep_alive :: "addr \<Rightarrow> bool \<Rightarrow> sched \<Rightarrow> sched" where
  "keep_alive cur b s = (if \<not> has_exited (tsk s cur) then keep_running cur b s else s)"

definition to_ready :: "addr \<Rightarrow> sched \<Rightarrow> sched" where
  "to_ready cur s = upd_task cur (\<lambda>x. if t_state x = TASK_RUNNING then x\<lparr>t_state := TASK_READY\<rparr> else x) s"

definition sw_schedule :: "nat \<Rightarrow> addr \<Rightarrow> addr \<Rightarrow> addr \<Rightarrow> sched \<Rightarrow> sched" where
  "sw_schedule c rsp cur n s = ctx_switch cur rsp (defer_zombie c cur (upd_cpu c (\<lambda>p. p\<lparr>in_context_switch := True\<rparr>)
     (start_running c n True (make_current c n (requeue c cur True s)))))"

definition sw_run_ready :: "nat \<Rightarrow> addr \<Rightarrow> addr \<Rightarrow> addr \<Rightarrow> sched \<Rightarrow> sched" where
  "sw_run_ready c rsp cur n s = ctx_switch cur rsp (defer_zombie c cur (upd_cpu c (\<lambda>p. p\<lparr>in_context_switch := True\<rparr>)
     (start_running c n True (to_ready cur (make_current c n (requeue c cur False s))))))"

definition sw_preempt :: "nat \<Rightarrow> addr \<Rightarrow> addr \<Rightarrow> addr \<Rightarrow> sched \<Rightarrow> sched" where
  "sw_preempt c rsp cur n s = ctx_switch cur rsp (defer_zombie c cur
     (start_running c n False (to_ready cur (make_current c n (requeue c cur True s)))))"

definition run_alive :: "addr \<Rightarrow> sched \<Rightarrow> sched" where
  "run_alive cur s = (if \<not> has_exited (tsk s cur) then upd_task cur (\<lambda>x. x\<lparr>t_state := TASK_RUNNING\<rparr>) s else s)"

definition no_frame :: "addr \<Rightarrow> sched \<Rightarrow> sched" where
  "no_frame cur s = upd_task cur (\<lambda>x. x\<lparr>preempt_frame := NULL\<rparr>) s"

definition tick_alive :: "addr \<Rightarrow> sched \<Rightarrow> sched" where
  "tick_alive cur s =
     (if \<not> has_exited (tsk s cur) then upd_task cur (\<lambda>x. x\<lparr>remaining_ticks := SCHED_TIME_SLICE\<rparr>) s else s)"

lemma keep_keeps:
  "keeps c cur (keep_running cur b)" "keeps c cur (keep_alive cur b)" "keeps c cur (run_alive cur)"
  "keeps c cur (\<lambda>s. no_frame cur (keep_running cur b s))" "keeps c cur (\<lambda>s. no_frame cur (keep_alive cur b s))"
  "keeps c cur (\<lambda>s. no_frame cur (tick_alive cur s))"
proof -
  let ?k = "\<lambda>b x. x\<lparr>t_state := TASK_RUNNING, remaining_ticks := SCHED_TIME_SLICE, need_resched := (if b then False else need_resched x)\<rparr>"
  show "keeps c cur (keep_running cur b)"
    by (rule keepsI [where f = "\<lambda>s. ?k b"]) (simp_all add: keep_running_def)
  show "keeps c cur (keep_alive cur b)"
    by (rule keepsI [where f = "\<lambda>s x. if \<not> has_exited x then ?k b x else x"]) (simp_all add: keep_running_def keep_alive_def)
  show "keeps c cur (run_alive cur)"
    by (rule keepsI [where f = "\<lambda>s x. if \<not> has_exited x then x\<lparr>t_state := TASK_RUNNING\<rparr> else x"]) (simp_all add: run_alive_def)
  show "keeps c cur (\<lambda>s. no_frame cur (keep_running cur b s))"
    by (rule keepsI [where f = "\<lambda>s x. (?k b x)\<lparr>preempt_frame := NULL\<rparr>"]) (simp_all add: keep_running_def no_frame_def)
  show "keeps c cur (\<lambda>s. no_frame cur (keep_alive cur b s))"
    by (rule keepsI [where f = "\<lambda>s x. (if \<not> has_exited x then ?k b x else x)\<lparr>preempt_frame := NULL\<rparr>"])
      (simp_all add: keep_running_def keep_alive_def no_frame_def)
  show "keeps c cur (\<lambda>s. no_frame cur (tick_alive cur s))"
    by (rule keepsI [where f = "\<lambda>s x. (if \<not> has_exited x then x\<lparr>remaining_ticks := SCHED_TIME_SLICE\<rparr> else x)\<lparr>preempt_frame := NULL\<rparr>"])
      (simp_all add: tick_alive_def no_frame_def)
qed

lemma sched_schedule_dispatch:
  assumes "cur = current_task (cpu s c)" and "g_smp_initialized s" and "cur \<noteq> NULL"
  shows "sched_schedule c rsp s = dispatch c True (keep_running cur True) (keep_alive cur True) (keep_alive cur False) (sw_schedule c rsp cur)
    (s\<lparr>g_total_schedules := g_total_schedules s + 1\<rparr>)"
  using assms by (simp add: sched_schedule_def dispatch_def keep_alive_def sw_schedule_def Let_def split: prod.split)

lemma sched_run_ready_dispatch:
  assumes "cur = current_task (cpu s c)" and "g_smp_initialized s" and "cur \<noteq> NULL" and "need_resched (tsk s cur)" and "runqueue_head (cpu s c) \<noteq> NULL"
  shows "sched_run_ready c rsp s = dispatch c False (keep_alive cur False) (keep_alive cur False) (run_alive cur) (sw_run_ready c rsp cur)
    (upd_task cur (\<lambda>x. x\<lparr>need_resched := False\<rparr>) s)"
  using assms by (simp add: sched_run_ready_def dispatch_def keep_alive_def run_alive_def sw_run_ready_def to_ready_def Let_def split: prod.split)

lemma sched_preempt_dispatch:
  assumes "cur = current_task (cpu s c)" and "g_smp_initialized s" and "cur \<noteq> NULL"
    and "\<not> (in_context_switch (cpu s c) \<or> is_bootstrap_task s cur \<or> \<not> locked)"
  shows "sched_preempt c locked frame rsp s = dispatch c True (\<lambda>s2. no_frame cur (keep_running cur False s2))
    (\<lambda>s2. no_frame cur (keep_alive cur False s2)) (\<lambda>s2. no_frame cur (tick_alive cur s2)) (sw_preempt c rsp cur)
    (upd_task cur (\<lambda>x. x\<lparr>need_resched := False, preempt_frame := frame\<rparr>) s)"
  using assms by (simp add: sched_preempt_def dispatch_def keep_alive_def tick_alive_def no_frame_def sw_preempt_def to_ready_def Let_def
      split: prod.split)

lemma switched_schedule:
  assumes "n \<noteq> cur" and "rsp \<noteq> 0"
  shows "switched c cur n True s (sw_schedule c rsp cur n s)" and "switched c cur n False s (sw_run_ready c rsp cur n s)"
    and "switched c cur n True s (sw_preempt c rsp cur n s)"
  using assms by (simp_all add: switched_def Let_def make_current_def start_running_def ctx_switch_def to_ready_def
      sw_schedule_def sw_run_ready_def sw_preempt_def)

lemma sched_schedule_result:
  assumes q: "rqs_ok q s" and ok: "cpus_ok s" and c: "percpu_get c s" "current_task (cpu s c) \<noteq> NULL"
    and smp: "g_smp_initialized s" and rsp: "rsp \<noteq> 0"
  shows "sched_result c q s (sched_schedule c rsp s) (next_task True c s (q c))"
proof -
  define cur where "cur = current_task (cpu s c)"
  let ?s0 = "s\<lparr>g_total_schedules := g_total_schedules s + 1\<rparr>"
  have a: "agree s ?s0" by (simp add: agree_def percpu_get_def is_idle_task_def fun_eq_iff)
  have "sched_result c q ?s0 (sched_schedule c rsp s) (next_task True c ?s0 (q c))"
    unfolding sched_schedule_dispatch [OF cur_def smp c(2) [folded cur_def]]
    by (rule dispatch_result [OF _ _ _ _ _ keep_keeps(1,2,2) switched_schedule(1) [OF _ rsp]])
      (use q ok c agree_ok(1,2) [OF a] in \<open>simp_all add: percpu_get_def cur_def\<close>)
  then show ?thesis using sched_result_pre [OF a] by (simp add: next_task_agree [OF a])
qed

lemma sched_run_ready_result:
  assumes q: "rqs_ok q s" and ok: "cpus_ok s" and c: "percpu_get c s" "current_task (cpu s c) \<noteq> NULL"
    and smp: "g_smp_initialized s" and rsp: "rsp \<noteq> 0"
  shows "sched_result c q s (sched_run_ready c rsp s)
    (if need_resched (tsk s (current_task (cpu s c))) \<and> q c \<noteq> [] then next_task False c s (q c) else (current_task (cpu s c), q c))"
proof -
  define cur where "cur = current_task (cpu s c)"
  let ?s0 = "upd_task cur (\<lambda>x. x\<lparr>need_resched := False\<rparr>) s"
  have a: "agree s ?s0" by (simp add: agree_def)
  have e: "runqueue_head (cpu s c) = NULL \<longleftrightarrow> q c = []"
    using queue_ok_head [OF rqs_okD(1) [OF q, of c]] queue_ok_distinct [OF rqs_okD(1) [OF q, of c]] by (auto split: list.splits)
  have stay: "sched_result c q s s (cur, q c)" using q ok c by (simp add: sched_result_def cur_def)
  consider (no) "\<not> need_resched (tsk s cur)" | (empty) "need_resched (tsk s cur)" "q c = []"
    | (go) "need_resched (tsk s cur)" "q c \<noteq> []" by blast
  then show ?thesis
  proof cases
    case no
    then show ?thesis using stay smp c by (simp add: sched_run_ready_def Let_def cur_def)
  next
    case empty
    then have "sched_run_ready c rsp s = ?s0" using smp c e by (simp add: sched_run_ready_def Let_def cur_def)
    then show ?thesis using sched_result_post [OF stay a] empty by (simp add: cur_def)
  next
    case go
    then have run: "need_resched (tsk s cur)" "runqueue_head (cpu s c) \<noteq> NULL" using e by simp_all
    have "sched_result c q ?s0 (sched_run_ready c rsp s) (next_task False c ?s0 (q c))"
      unfolding sched_run_ready_dispatch [OF cur_def smp c(2) [folded cur_def] run]
      by (rule dispatch_result [OF _ _ _ _ _ keep_keeps(2,2,3) switched_schedule(2) [OF _ rsp]])
        (use q ok c agree_ok(1,2) [OF a] in \<open>simp_all add: cur_def\<close>)
    then show ?thesis using sched_result_pre [OF a] go unfolding next_task_agree [OF a] cur_def [symmetric] by simp
  qed
qed

lemma sched_preempt_result:
  assumes q: "rqs_ok q s" and ok: "cpus_ok s" and c: "percpu_get c s" "current_task (cpu s c) \<noteq> NULL"
    and smp: "g_smp_initialized s" and rsp: "rsp \<noteq> 0"
  shows "sched_result c q s (sched_preempt c locked frame rsp s)
    (if in_context_switch (cpu s c) \<or> is_bootstrap_task s (current_task (cpu s c)) \<or> \<not> locked
     then (current_task (cpu s c), q c) else next_task True c s (q c))"
proof -
  define cur where "cur = current_task (cpu s c)"
  let ?s0 = "upd_task cur (\<lambda>x. x\<lparr>need_resched := False, preempt_frame := frame\<rparr>) s"
  have a: "agree s ?s0" by (simp add: agree_def)
  show ?thesis
  proof (cases "in_context_switch (cpu s c) \<or> is_bootstrap_task s cur \<or> \<not> locked")
    case True
    then have "sched_preempt c locked frame rsp s = s" by (auto simp: sched_preempt_def Let_def cur_def)
    then show ?thesis using True q ok c by (simp add: sched_result_def cur_def)
  next
    case False
    have "sched_result c q ?s0 (sched_preempt c locked frame rsp s) (next_task True c ?s0 (q c))"
      unfolding sched_preempt_dispatch [OF cur_def smp c(2) [folded cur_def] False]
      by (rule dispatch_result [OF _ _ _ _ _ keep_keeps(4,5,6) switched_schedule(3) [OF _ rsp]])
        (use q ok c agree_ok(1,2) [OF a] in \<open>simp_all add: cur_def\<close>)
    then show ?thesis using sched_result_pre [OF a] False unfolding next_task_agree [OF a] cur_def [symmetric] by simp
  qed
qed

end
