(* ===== verification/Wakeup.thy ===== *)
theory Wakeup
  imports Scheduling
begin

text \<open>
  Waking the tasks that wait on a channel (\<^verbatim>\<open>sched_wake_channel\<close>): which tasks become ready, which of
  them reach a run queue, and what that means for the invariant of the scheduler.
\<close>

section \<open>The walk over the tasks\<close>

definition waiting :: "sched \<Rightarrow> addr \<Rightarrow> addr \<Rightarrow> bool" where
  "waiting s ch t \<longleftrightarrow> t_state (tsk s t) = TASK_BLOCKED \<and> wait_channel (tsk s t) = ch"

definition make_ready :: "addr set \<Rightarrow> sched \<Rightarrow> sched" where
  "make_ready W s = s\<lparr>tsk := (\<lambda>t. if t \<in> W then (tsk s t)\<lparr>t_state := TASK_READY, wait_channel := NULL\<rparr> else tsk s t)\<rparr>"

text \<open>The list of all tasks.\<close>

definition task_list :: "sched \<Rightarrow> addr list \<Rightarrow> bool" where
  "task_list s ts \<longleftrightarrow> chained (\<lambda>t. t_next (tsk s t)) (g_task_list_head s) ts"

lemma make_ready_fields [simp]:
  "cpu (make_ready W s) = cpu s" "percpu_get d (make_ready W s) = percpu_get d s"
  "is_idle_task (make_ready W s) = is_idle_task s" "g_task_list_head (make_ready W s) = g_task_list_head s"
  "g_smp_initialized (make_ready W s) = g_smp_initialized s" "g_bootstrap_task (make_ready W s) = g_bootstrap_task s"
  "rq_next (tsk (make_ready W s) t) = rq_next (tsk s t)" "on_cpu (tsk (make_ready W s) t) = on_cpu (tsk s t)"
  "on_rq (tsk (make_ready W s) t) = on_rq (tsk s t)" "has_exited (tsk (make_ready W s) t) = has_exited (tsk s t)"
  "t_next (tsk (make_ready W s) t) = t_next (tsk s t)" "sp (tsk (make_ready W s) t) = sp (tsk s t)"
  "t_state (tsk (make_ready W s) t) = (if t \<in> W then TASK_READY else t_state (tsk s t))"
  "wait_channel (tsk (make_ready W s) t) = (if t \<in> W then NULL else wait_channel (tsk s t))"
  by (simp_all add: make_ready_def percpu_get_def is_idle_task_def fun_eq_iff)

lemma wake_loop_ok:
  assumes "chained (\<lambda>t. t_next (tsk s t)) h ts"
  shows "wake_loop ch h ws s =
    Some (ws @ take (16 - length ws) (filter (waiting s ch) ts), make_ready (set (filter (waiting s ch) ts)) s)"
  using assms
proof (induction ts arbitrary: h ws s)
  case Nil
  then show ?case by (simp add: wake_loop.simps make_ready_def)
next
  case (Cons t ts)
  have h: "h = t" "t \<noteq> NULL" and ch: "chained (\<lambda>t. t_next (tsk s t)) (t_next (tsk s t)) ts" using Cons.prems by simp_all
  have d: "t \<notin> set ts" using chained_distinct [OF Cons.prems] by simp
  show ?case
  proof (cases "waiting s ch t")
    case False
    then have "wake_loop ch h ws s = wake_loop ch (t_next (tsk s t)) ws s"
      using h unfolding waiting_def by (subst wake_loop.simps) (auto simp: wake_mark_def)
    then show ?thesis using Cons.IH [OF ch, of ws] False by simp
  next
    case True
    let ?s1 = "upd_task t (\<lambda>x. x\<lparr>t_state := TASK_READY, wait_channel := NULL\<rparr>) s"
    let ?ws = "if length ws < 16 then ws @ [t] else ws"
    have ch1: "chained (\<lambda>a. t_next (tsk ?s1 a)) (t_next (tsk ?s1 t)) ts"
      using ch chained_cong [of ts "\<lambda>a. t_next (tsk ?s1 a)" "\<lambda>a. t_next (tsk s a)"] by simp
    have f: "filter (waiting ?s1 ch) ts = filter (waiting s ch) ts"
      by (rule filter_cong) (use d in \<open>auto simp: waiting_def\<close>)
    have m: "make_ready (set (filter (waiting s ch) ts)) ?s1 = make_ready (set (filter (waiting s ch) (t # ts))) s"
      using True d by (auto simp: make_ready_def upd_task_def fun_eq_iff)
    have "wake_loop ch h ws s = wake_loop ch (t_next (tsk ?s1 t)) ?ws ?s1"
      using True h by (subst wake_loop.simps) (simp add: waiting_def wake_mark_def)
    also have "\<dots> = Some (?ws @ take (16 - length ?ws) (filter (waiting s ch) ts), make_ready (set (filter (waiting s ch) (t # ts))) s)"
      using Cons.IH [OF ch1, of ?ws] unfolding f m .
    also have "?ws @ take (16 - length ?ws) (filter (waiting s ch) ts) = ws @ take (16 - length ws) (filter (waiting s ch) (t # ts))"
      using True by (cases "16 - length ws") (auto simp: diff_Suc)
    finally show ?thesis .
  qed
qed

section \<open>Reaching the run queues\<close>

definition can_queue :: "sched \<Rightarrow> addr \<Rightarrow> bool" where
  "can_queue s t \<longleftrightarrow> t \<noteq> NULL \<and> \<not> is_idle_task s t \<and> percpu_get (on_cpu (tsk s t)) s"

lemma enqueue_ready_fields:
  assumes "can_queue s t"
  shows "t_state (tsk (sched_enqueue_ready me t s) a) = t_state (tsk s a)"
    "on_cpu (tsk (sched_enqueue_ready me t s) a) = on_cpu (tsk s a)"
    "has_exited (tsk (sched_enqueue_ready me t s) a) = has_exited (tsk s a)"
    "sp (tsk (sched_enqueue_ready me t s) a) = sp (tsk s a)"
    "t_next (tsk (sched_enqueue_ready me t s) a) = t_next (tsk s a)"
    "wait_channel (tsk (sched_enqueue_ready me t s) a) = wait_channel (tsk s a)"
    "current_task (cpu (sched_enqueue_ready me t s) d) = current_task (cpu s d)"
    "idle_task (cpu (sched_enqueue_ready me t s) d) = idle_task (cpu s d)"
    "percpu_get d (sched_enqueue_ready me t s) = percpu_get d s"
    "is_idle_task (sched_enqueue_ready me t s) = is_idle_task s"
    "g_task_list_head (sched_enqueue_ready me t s) = g_task_list_head s"
    "g_smp_initialized (sched_enqueue_ready me t s) = g_smp_initialized s"
    "g_bootstrap_task (sched_enqueue_ready me t s) = g_bootstrap_task s"
  using assms by (simp_all add: sched_enqueue_ready_def can_queue_def Let_def)

lemma enqueue_ready_on_rq:
  assumes "rqs_ok q s" and "can_queue s t" and "t_state (tsk s t) = TASK_READY"
  shows "on_rq (tsk (sched_enqueue_ready me t s) a) = (a = t \<or> on_rq (tsk s a))"
  using rq_enqueue_on_rq [OF assms(1), of t "on_cpu (tsk s t)" a] assms(2,3)
  by (auto simp: sched_enqueue_ready_def can_queue_def Let_def)

text \<open>What putting a list of ready tasks on their queues changes.\<close>

definition enqueued :: "addr list \<Rightarrow> (nat \<Rightarrow> addr list) \<Rightarrow> sched \<Rightarrow> sched \<Rightarrow> bool" where
  "enqueued W q s s' \<longleftrightarrow>
     rqs_ok (\<lambda>c. q c @ filter (\<lambda>t. on_cpu (tsk s t) = c \<and> \<not> on_rq (tsk s t)) W) s' \<and>
     (\<forall>t. on_rq (tsk s' t) = (t \<in> set W \<or> on_rq (tsk s t)) \<and> t_state (tsk s' t) = t_state (tsk s t) \<and>
          on_cpu (tsk s' t) = on_cpu (tsk s t) \<and> has_exited (tsk s' t) = has_exited (tsk s t) \<and>
          sp (tsk s' t) = sp (tsk s t) \<and> t_next (tsk s' t) = t_next (tsk s t) \<and>
          wait_channel (tsk s' t) = wait_channel (tsk s t)) \<and>
     (\<forall>c. current_task (cpu s' c) = current_task (cpu s c) \<and> idle_task (cpu s' c) = idle_task (cpu s c) \<and>
          percpu_get c s' = percpu_get c s) \<and>
     is_idle_task s' = is_idle_task s \<and> g_task_list_head s' = g_task_list_head s \<and>
     g_smp_initialized s' = g_smp_initialized s \<and> g_bootstrap_task s' = g_bootstrap_task s"

lemma enqueue_all:
  assumes "rqs_ok q s" and "distinct W" and "\<forall>t \<in> set W. can_queue s t \<and> t_state (tsk s t) = TASK_READY"
  shows "enqueued W q s (fold (sched_enqueue_ready me) W s)"
  using assms
proof (induction W arbitrary: q s)
  case Nil
  then show ?case by (simp add: enqueued_def)
next
  case (Cons t W)
  have t: "can_queue s t" "t_state (tsk s t) = TASK_READY" using Cons.prems(3) by simp_all
  let ?s1 = "sched_enqueue_ready me t s"
  let ?q1 = "if on_rq (tsk s t) then q else q(on_cpu (tsk s t) := q (on_cpu (tsk s t)) @ [t])"
  note f = enqueue_ready_fields [OF t(1), where me = me] and o = enqueue_ready_on_rq [OF Cons.prems(1) t, where me = me]
  have q1: "rqs_ok ?q1 ?s1" using sched_enqueue_ready_ok [OF Cons.prems(1)] t by (simp add: can_queue_def)
  have "enqueued W ?q1 ?s1 (fold (sched_enqueue_ready me) W ?s1)"
    using Cons.prems by (intro Cons.IH [OF q1]) (auto simp: can_queue_def f)
  note e = this [unfolded enqueued_def f o]
  have "(\<lambda>c. ?q1 c @ filter (\<lambda>a. on_cpu (tsk s a) = c \<and> \<not> (a = t \<or> on_rq (tsk s a))) W) =
      (\<lambda>c. q c @ filter (\<lambda>a. on_cpu (tsk s a) = c \<and> \<not> on_rq (tsk s a)) (t # W))"
  proof
    fix c
    have "filter (\<lambda>a. on_cpu (tsk s a) = c \<and> \<not> (a = t \<or> on_rq (tsk s a))) W =
        filter (\<lambda>a. on_cpu (tsk s a) = c \<and> \<not> on_rq (tsk s a)) W"
      by (rule filter_cong) (use Cons.prems(2) in auto)
    then show "?q1 c @ filter (\<lambda>a. on_cpu (tsk s a) = c \<and> \<not> (a = t \<or> on_rq (tsk s a))) W =
      q c @ filter (\<lambda>a. on_cpu (tsk s a) = c \<and> \<not> on_rq (tsk s a)) (t # W)" by auto
  qed
  with e show ?case by (simp add: enqueued_def) blast
qed

text \<open>Everything else a wake-up leaves as it is; the interrupts that it sends.\<close>

definition kept :: "sched \<Rightarrow> sched \<Rightarrow> bool" where
  "kept s s' \<longleftrightarrow>
     s' = s\<lparr>tsk := tsk s', cpu := cpu s', events := events s'\<rparr> \<and>
     (\<forall>t. tsk s' t = (tsk s t)\<lparr>on_rq := on_rq (tsk s' t), rq_next := rq_next (tsk s' t)\<rparr>) \<and>
     (\<forall>c. cpu s' c = (cpu s c)\<lparr>runqueue_head := runqueue_head (cpu s' c), runqueue_tail := runqueue_tail (cpu s' c),
            runqueue_length := runqueue_length (cpu s' c)\<rparr>)"

lemma kept_refl [simp]: "kept s s"
  by (simp add: kept_def)

lemma kept_trans:
  assumes "kept s s1" and "kept s1 s2"
  shows "kept s s2"
proof -
  note a = assms(1) [unfolded kept_def] and b = assms(2) [unfolded kept_def]
  have "s2 = (s\<lparr>tsk := tsk s1, cpu := cpu s1, events := events s1\<rparr>)\<lparr>tsk := tsk s2, cpu := cpu s2, events := events s2\<rparr>"
    using b [THEN conjunct1] unfolding a [THEN conjunct1, symmetric] .
  then have "s2 = s\<lparr>tsk := tsk s2, cpu := cpu s2, events := events s2\<rparr>" by (rule trans) simp
  moreover have "tsk s2 t = (tsk s t)\<lparr>on_rq := on_rq (tsk s2 t), rq_next := rq_next (tsk s2 t)\<rparr>" for t
  proof -
    have "tsk s2 t = ((tsk s t)\<lparr>on_rq := on_rq (tsk s1 t), rq_next := rq_next (tsk s1 t)\<rparr>)\<lparr>on_rq := on_rq (tsk s2 t), rq_next := rq_next (tsk s2 t)\<rparr>"
      using b [THEN conjunct2, THEN conjunct1, rule_format, of t]
      unfolding a [THEN conjunct2, THEN conjunct1, rule_format, of t, symmetric] .
    then show ?thesis by (rule trans) simp
  qed
  moreover have "cpu s2 c = (cpu s c)\<lparr>runqueue_head := runqueue_head (cpu s2 c), runqueue_tail := runqueue_tail (cpu s2 c),
      runqueue_length := runqueue_length (cpu s2 c)\<rparr>" for c
  proof -
    have "cpu s2 c = ((cpu s c)\<lparr>runqueue_head := runqueue_head (cpu s1 c), runqueue_tail := runqueue_tail (cpu s1 c),
        runqueue_length := runqueue_length (cpu s1 c)\<rparr>)\<lparr>runqueue_head := runqueue_head (cpu s2 c), runqueue_tail := runqueue_tail (cpu s2 c),
        runqueue_length := runqueue_length (cpu s2 c)\<rparr>"
      using b [THEN conjunct2, THEN conjunct2, rule_format, of c]
      unfolding a [THEN conjunct2, THEN conjunct2, rule_format, of c, symmetric] .
    then show ?thesis by (rule trans) simp
  qed
  ultimately show ?thesis unfolding kept_def by blast
qed

lemma rq_enqueue_kept: "kept s (rq_enqueue_locked c t s)"
proof -
  have "kept s (upd_task t (\<lambda>x. x\<lparr>rq_next := a, on_rq := b\<rparr>) s)" "kept s (upd_task t (\<lambda>x. x\<lparr>rq_next := a\<rparr>) s)"
    "kept s (upd_cpu c (\<lambda>p. p\<lparr>runqueue_head := a\<rparr>) s)"
    "kept s (upd_cpu c (\<lambda>p. p\<lparr>runqueue_tail := a, runqueue_length := runqueue_length p + 1\<rparr>) s)" for t a b c s
    by (simp_all add: kept_def upd_task_def upd_cpu_def)
  note k = this
  show ?thesis
    unfolding rq_enqueue_locked_def Let_def
    by (auto intro: kept_trans [OF k(1) kept_trans [OF k(2) k(4)]] kept_trans [OF k(1) kept_trans [OF k(3) k(4)]])
qed

definition interrupts :: "nat \<Rightarrow> addr list \<Rightarrow> sched \<Rightarrow> event list" where
  "interrupts me W s = (if g_smp_initialized s then map (\<lambda>t. Reschedule (on_cpu (tsk s t))) (filter (\<lambda>t. on_cpu (tsk s t) \<noteq> me) W) else [])"

lemma enqueue_ready_kept:
  assumes "can_queue s t"
  shows "kept s (sched_enqueue_ready me t s)" and "events (sched_enqueue_ready me t s) = interrupts me [t] s @ events s"
proof -
  let ?s2 = "if \<not> on_rq (tsk s t) \<and> t_state (tsk s t) = TASK_READY then rq_enqueue_locked (on_cpu (tsk s t)) t s else s"
  have eq: "sched_enqueue_ready me t s = (if g_smp_initialized s \<and> on_cpu (tsk s t) \<noteq> me then log_event (Reschedule (on_cpu (tsk s t))) ?s2 else ?s2)"
    using assms by (simp add: sched_enqueue_ready_def can_queue_def Let_def)
  have k: "kept s ?s2" by (simp add: rq_enqueue_kept)
  have ev: "events ?s2 = events s" by (simp add: rq_enqueue_locked_def Let_def upd_task_def upd_cpu_def)
  have log: "kept x (log_event e x)" for e x by (simp add: kept_def log_event_def)
  show "kept s (sched_enqueue_ready me t s)"
    unfolding eq by (cases "g_smp_initialized s \<and> on_cpu (tsk s t) \<noteq> me") (simp_all only: if_True if_False k kept_trans [OF k log] simp_thms)
  show "events (sched_enqueue_ready me t s) = interrupts me [t] s @ events s"
    unfolding eq interrupts_def using ev by (simp add: log_event_def)
qed

lemma enqueue_all_kept:
  assumes "\<forall>t \<in> set W. can_queue s t"
  shows "kept s (fold (sched_enqueue_ready me) W s) \<and>
    events (fold (sched_enqueue_ready me) W s) = rev (interrupts me W s) @ events s"
  using assms
proof (induction W arbitrary: s)
  case (Cons t W)
  have t: "can_queue s t" using Cons.prems by simp
  note f = enqueue_ready_fields [OF t, where me = me] and k = enqueue_ready_kept [OF t, of me]
  have "\<forall>a \<in> set W. can_queue (sched_enqueue_ready me t s) a" using Cons.prems by (auto simp: can_queue_def f)
  note IH = Cons.IH [OF this]
  have "interrupts me W (sched_enqueue_ready me t s) = interrupts me W s" by (simp add: interrupts_def f)
  then show ?case using IH k kept_trans [OF k(1)] by (auto simp: interrupts_def)
qed (simp add: interrupts_def)

lemma wake_channel_eq:
  assumes q: "rqs_ok q s" and l: "task_list s ts" and ch: "ch \<noteq> NULL" and can: "\<forall>t \<in> set ts. waiting s ch t \<longrightarrow> can_queue s t"
  obtains s' where "sched_wake_channel me ch s = Some s'"
    and "enqueued (take 16 (filter (waiting s ch) ts)) q (make_ready (set (filter (waiting s ch) ts)) s) s'"
    and "kept (make_ready (set (filter (waiting s ch) ts)) s) s'"
    and "events s' = rev (interrupts me (take 16 (filter (waiting s ch) ts)) s) @ events s"
proof -
  let ?W = "filter (waiting s ch) ts"
  let ?m = "make_ready (set ?W) s"
  have "rqs_ok q ?m" by (rule rqs_ok_same [OF q]) (use rqs_okD(2,3) [OF q] in auto)
  moreover have "distinct (take 16 ?W)" using chained_distinct [OF l [unfolded task_list_def]] by simp
  moreover have c: "\<forall>t \<in> set (take 16 ?W). can_queue ?m t \<and> t_state (tsk ?m t) = TASK_READY"
    using can by (auto simp: can_queue_def dest!: in_set_takeD)
  ultimately have "enqueued (take 16 ?W) q ?m (fold (sched_enqueue_ready me) (take 16 ?W) ?m)" by (rule enqueue_all)
  moreover have "sched_wake_channel me ch s = Some (fold (sched_enqueue_ready me) (take 16 ?W) ?m)"
    using wake_loop_ok [OF l [unfolded task_list_def], of ch "[]"] ch by (simp add: sched_wake_channel_def)
  moreover have "interrupts me X ?m = interrupts me X s" "events ?m = events s" for X by (simp_all add: interrupts_def) (simp add: make_ready_def)
  ultimately show ?thesis using that enqueue_all_kept [of "take 16 ?W" ?m me] c by simp
qed

lemma wake_channel_inv:
  assumes inv: "sched_inv T s" and l: "task_list s ts" and ch: "ch \<noteq> NULL"
    and can: "\<forall>t \<in> set ts. waiting s ch t \<longrightarrow> can_queue s t" and n: "length (filter (waiting s ch) ts) \<le> 16"
  obtains s' where "sched_wake_channel me ch s = Some s'" and "sched_inv T s'" and "task_list s' ts"
    and "\<forall>t. tsk s' t = (if t \<in> set ts \<and> waiting s ch t
      then (tsk s t)\<lparr>t_state := TASK_READY, wait_channel := NULL, on_rq := True, rq_next := rq_next (tsk s' t)\<rparr>
      else (tsk s t)\<lparr>rq_next := rq_next (tsk s' t)\<rparr>)"
    and "\<forall>q. rqs_ok q s \<longrightarrow> rqs_ok (\<lambda>c. q c @ filter (\<lambda>t. waiting s ch t \<and> on_cpu (tsk s t) = c \<and> \<not> on_rq (tsk s t)) ts) s'"
    and "s' = s\<lparr>tsk := tsk s', cpu := cpu s', events := rev (interrupts me (filter (waiting s ch) ts) s) @ events s\<rparr>"
    and "\<forall>c. cpu s' c = (cpu s c)\<lparr>runqueue_head := runqueue_head (cpu s' c), runqueue_tail := runqueue_tail (cpu s' c),
      runqueue_length := runqueue_length (cpu s' c)\<rparr>"
proof -
  obtain q where q: "rqs_ok q s" and ok: "cpus_ok s" and nl: "not_lost T s" using inv unfolding sched_inv_def by blast
  let ?W = "filter (waiting s ch) ts"
  let ?m = "make_ready (set ?W) s"
  from wake_channel_eq [OF q l ch can] obtain s' where w: "sched_wake_channel me ch s = Some s'"
    and "enqueued (take 16 ?W) q ?m s'" and k: "kept ?m s'" and "events s' = rev (interrupts me (take 16 ?W) s) @ events s" by metis
  then have e: "enqueued ?W q ?m s'" and ev: "events s' = rev (interrupts me ?W s) @ events s" using n by simp_all
  note f = e [unfolded enqueued_def make_ready_fields]
  have ni: "is_idle_task s t \<Longrightarrow> t \<notin> set ?W" for t using can unfolding can_queue_def by auto
  have "cpus_ok s'" unfolding cpus_ok_def Let_def
  proof (intro conjI allI impI)
    fix c assume "percpu_get c s'"
    then have "percpu_get c s" using f by simp
    note o = cpus_okD [OF ok this]
    show "idle_task (cpu s' c) \<noteq> NULL" "is_idle_task s' (idle_task (cpu s' c))" "sp (tsk s' (idle_task (cpu s' c))) \<noteq> 0"
      "t_state (tsk s' (idle_task (cpu s' c))) \<noteq> TASK_ZOMBIE" "on_cpu (tsk s' (idle_task (cpu s' c))) = c"
      using o f by simp_all
    show "on_cpu (tsk s' (current_task (cpu s' c))) = c" if "current_task (cpu s' c) \<noteq> NULL" using o(7) f that by simp
  next
    fix t assume "is_idle_task s' t"
    then have i: "is_idle_task s t" using f by simp
    then show "\<not> on_rq (tsk s' t)" using f ni [OF i] ok unfolding cpus_ok_def by blast
  qed
  moreover have "not_lost T s'"
    unfolding not_lost_def
  proof (intro ballI impI)
    fix t assume t: "t \<in> T" "runnable s' t"
    show "on_rq (tsk s' t) \<or> (\<exists>c. percpu_get c s' \<and> current_task (cpu s' c) = t)"
    proof (cases "t \<in> set ?W")
      case False
      have "t_state (tsk s' t) = t_state (tsk s t)" using f False by auto
      then have "runnable s t" using t(2) f unfolding runnable_def by simp
      then show ?thesis using nl t(1) f unfolding not_lost_def by auto
    qed (use f in blast)
  qed
  ultimately have "sched_inv T s'" using f unfolding sched_inv_def by blast
  moreover have "task_list s' ts"
  proof -
    have "chained (\<lambda>t. t_next (tsk s' t)) h ts = chained (\<lambda>t. t_next (tsk s t)) h ts" for h
      by (rule chained_cong) (use f in simp)
    then show ?thesis using l f unfolding task_list_def by simp
  qed
  moreover have "\<forall>t. tsk s' t = (if t \<in> set ts \<and> waiting s ch t
      then (tsk s t)\<lparr>t_state := TASK_READY, wait_channel := NULL, on_rq := True, rq_next := rq_next (tsk s' t)\<rparr>
      else (tsk s t)\<lparr>rq_next := rq_next (tsk s' t)\<rparr>)"
  proof
    fix t
    have "tsk s' t = (tsk ?m t)\<lparr>on_rq := on_rq (tsk s' t), rq_next := rq_next (tsk s' t)\<rparr>" using k unfolding kept_def by blast
    moreover have "on_rq (tsk s' t) = (t \<in> set ?W \<or> on_rq (tsk s t))" using f by blast
    ultimately have "tsk s' t = (tsk ?m t)\<lparr>on_rq := t \<in> set ?W \<or> on_rq (tsk s t), rq_next := rq_next (tsk s' t)\<rparr>" by (simp only:)
    then show "tsk s' t = (if t \<in> set ts \<and> waiting s ch t
      then (tsk s t)\<lparr>t_state := TASK_READY, wait_channel := NULL, on_rq := True, rq_next := rq_next (tsk s' t)\<rparr>
      else (tsk s t)\<lparr>rq_next := rq_next (tsk s' t)\<rparr>)"
      by (rule trans) (cases "t \<in> set ts"; cases "waiting s ch t"; simp add: make_ready_def)
  qed
  moreover have "\<forall>q. rqs_ok q s \<longrightarrow> rqs_ok (\<lambda>c. q c @ filter (\<lambda>t. waiting s ch t \<and> on_cpu (tsk s t) = c \<and> \<not> on_rq (tsk s t)) ts) s'"
  proof (intro allI impI)
    fix p assume p: "rqs_ok p s"
    obtain s2 where "sched_wake_channel me ch s = Some s2" "enqueued (take 16 ?W) p ?m s2" by (rule wake_channel_eq [OF p l ch can, of me])
    then have "enqueued ?W p ?m s'" using w n by simp
    then show "rqs_ok (\<lambda>c. p c @ filter (\<lambda>t. waiting s ch t \<and> on_cpu (tsk s t) = c \<and> \<not> on_rq (tsk s t)) ts) s'"
      unfolding enqueued_def by (simp add: conj_ac)
  qed
  moreover have "s' = s\<lparr>tsk := tsk s', cpu := cpu s', events := rev (interrupts me ?W s) @ events s\<rparr>"
  proof -
    have "s' = ?m\<lparr>tsk := tsk s', cpu := cpu s', events := events s'\<rparr>" using k unfolding kept_def by blast
    then show ?thesis unfolding ev by (rule trans) (simp add: make_ready_def)
  qed
  moreover have "\<forall>c. cpu s' c = (cpu s c)\<lparr>runqueue_head := runqueue_head (cpu s' c), runqueue_tail := runqueue_tail (cpu s' c),
      runqueue_length := runqueue_length (cpu s' c)\<rparr>" using k unfolding kept_def make_ready_fields by blast
  ultimately show ?thesis using that [OF w] by blast
qed

section \<open>Writes of a task to its own state\<close>

text \<open>A task blocks itself on a channel, as \<^verbatim>\<open>pipe_read_to_user\<close> does under the lock of the pipe.\<close>

definition block_current :: "nat \<Rightarrow> addr \<Rightarrow> sched \<Rightarrow> sched" where
  "block_current c ch s = upd_task (current_task (cpu s c)) (\<lambda>x. x\<lparr>t_state := TASK_BLOCKED, wait_channel := ch\<rparr>) s"

lemma set_state_inv:
  assumes inv: "sched_inv T s" and c: "percpu_get c s" "current_task (cpu s c) = cur"
    and s': "s' = upd_task cur f s" "rq_next (f (tsk s cur)) = rq_next (tsk s cur)" "on_cpu (f (tsk s cur)) = on_cpu (tsk s cur)"
      "on_rq (f (tsk s cur)) = on_rq (tsk s cur)" "has_exited (f (tsk s cur)) = has_exited (tsk s cur)" "sp (f (tsk s cur)) = sp (tsk s cur)"
      "t_state (f (tsk s cur)) \<noteq> TASK_RUNNING" "t_state (f (tsk s cur)) \<noteq> TASK_ZOMBIE"
  shows "sched_inv T s'"
proof -
  obtain q where q: "rqs_ok q s" and ok: "cpus_ok s" and nl: "not_lost T s" using inv unfolding sched_inv_def by blast
  have "rqs_ok q s'" by (rule rqs_ok_same [OF q]) (use s' rqs_okD(2,3) [OF q] in auto)
  moreover have "cpus_ok s'" using ok s' unfolding cpus_ok_def Let_def by auto
  moreover have "not_lost T s'" using nl c s' unfolding not_lost_def runnable_def by auto
  ultimately show ?thesis unfolding sched_inv_def by blast
qed

lemma block_inv: "sched_inv T s \<Longrightarrow> percpu_get c s \<Longrightarrow> sched_inv T (block_current c ch s)"
  by (rule set_state_inv [OF _ _ refl block_current_def]) simp_all

text \<open>Resuming changes no field that the invariant reads.\<close>

lemma resume_unchanged:
  fixes c s
  assumes "s' = after_switch c s \<or> s' = after_preempt c s"
  shows "\<And>t. rq_next (tsk s' t) = rq_next (tsk s t)" "\<And>t. on_cpu (tsk s' t) = on_cpu (tsk s t)" "\<And>t. on_rq (tsk s' t) = on_rq (tsk s t)"
    "\<And>t. t_state (tsk s' t) = t_state (tsk s t)" "\<And>t. has_exited (tsk s' t) = has_exited (tsk s t)" "\<And>t. sp (tsk s' t) = sp (tsk s t)"
    "\<And>d. runqueue_head (cpu s' d) = runqueue_head (cpu s d)" "\<And>d. runqueue_tail (cpu s' d) = runqueue_tail (cpu s d)"
    "\<And>d. runqueue_length (cpu s' d) = runqueue_length (cpu s d)" "\<And>d. current_task (cpu s' d) = current_task (cpu s d)"
    "\<And>d. idle_task (cpu s' d) = idle_task (cpu s d)" "\<And>d. percpu_get d s' = percpu_get d s" "\<And>t. is_idle_task s' t = is_idle_task s t"
  by (rule disjE [OF assms];
      simp add: after_switch_def after_preempt_def queue_deferred_def dead_thread_queue_def upd_task_def upd_cpu_def
        percpu_get_def is_idle_task_def Let_def)+

end
