(* ===== verification/Balance.thy ===== *)
theory Balance
  imports Wakeup
begin

text \<open>
  Load balancing (\<^verbatim>\<open>sched_load_balance\<close>) and the order in which tasks run. A task moves from the
  busiest queue to the queue of the calling processor. Tasks that yield run in turn.
\<close>

section \<open>Moving a task\<close>

lemma find_first:
  assumes "find P xs = Some t"
  obtains us vs where "xs = us @ t # vs" and "P t" and "\<And>u. u \<in> set us \<Longrightarrow> \<not> P u"
proof -
  have "\<exists>us vs. xs = us @ t # vs \<and> P t \<and> (\<forall>u \<in> set us. \<not> P u)"
    using assms
  proof (induction xs)
    case (Cons x xs)
    show ?case
    proof (cases "P x")
      case True
      then have "x # xs = [] @ t # xs \<and> P t \<and> (\<forall>u \<in> set []. \<not> P u)" using Cons.prems by simp
      then show ?thesis by blast
    next
      case False
      then obtain us vs where "xs = us @ t # vs" "P t" "\<forall>u \<in> set us. \<not> P u" using Cons by auto
      then have "x # xs = (x # us) @ t # vs \<and> P t \<and> (\<forall>u \<in> set (x # us). \<not> P u)" using False by simp
      then show ?thesis by blast
    qed
  qed simp
  then show ?thesis using that by blast
qed

lemma rqs_ok_move:
  assumes q: "rqs_ok q s" and t: "\<not> on_rq (tsk s t)"
  shows "rqs_ok q (upd_task t (\<lambda>x. x\<lparr>on_cpu := c\<rparr>) s)"
proof (rule rqs_okI)
  show "queue_ok (tsk (upd_task t (\<lambda>x. x\<lparr>on_cpu := c\<rparr>) s)) (cpu (upd_task t (\<lambda>x. x\<lparr>on_cpu := c\<rparr>) s) d) (q d)" for d
    by (rule queue_ok_cong [OF rqs_okD(1) [OF q]]) simp_all
  show "on_cpu (tsk (upd_task t (\<lambda>x. x\<lparr>on_cpu := c\<rparr>) s) a) = d \<and>
      t_state (tsk (upd_task t (\<lambda>x. x\<lparr>on_cpu := c\<rparr>) s) a) \<noteq> TASK_RUNNING \<and>
      percpu_get d (upd_task t (\<lambda>x. x\<lparr>on_cpu := c\<rparr>) s) \<and> on_rq (tsk (upd_task t (\<lambda>x. x\<lparr>on_cpu := c\<rparr>) s) a)" if "a \<in> set (q d)" for a d
    using rqs_okD(2) [OF q that] t by auto
  show "a \<in> set (q (on_cpu (tsk (upd_task t (\<lambda>x. x\<lparr>on_cpu := c\<rparr>) s) a)))" if "on_rq (tsk (upd_task t (\<lambda>x. x\<lparr>on_cpu := c\<rparr>) s) a)" for a
    using rqs_okD(3) [OF q, of a] that t by (auto split: if_splits)
qed

lemma pull_none:
  assumes q: "rqs_ok q s" and f: "find (migratable me s) (q b) = None"
  shows "pull me b s = Some s"
proof -
  have ch: "chained (\<lambda>a. rq_next (tsk s a)) (runqueue_head (cpu s b)) (q b)"
    using rqs_okD(1) [OF q, of b] unfolding queue_ok_def by blast
  have "y \<in> set (q b) \<Longrightarrow> \<not> migratable me s y" for y using f by (auto simp: find_None_iff)
  from find_slot_none [where P = "migratable me s", OF ch this, where pp = None] obtain pp where
    "find_slot (\<lambda>a. rq_next (tsk s a)) (migratable me s) None (runqueue_head (cpu s b)) = Some (pp, NULL)" by blast
  then show ?thesis by (simp add: pull_def)
qed

lemma pull_some:
  assumes q: "rqs_ok q s" and f: "find (migratable me s) (q b) = Some t" and b: "b \<noteq> me" and me: "percpu_get me s"
  obtains s' where "pull me b s = Some s'" and "rqs_ok (q(b := remove1 t (q b), me := q me @ [t])) s'"
    and "\<And>a. t_state (tsk s' a) = t_state (tsk s a)" "\<And>a. on_cpu (tsk s' a) = (if a = t then me else on_cpu (tsk s a))"
    and "\<And>a. has_exited (tsk s' a) = has_exited (tsk s a)" "\<And>a. sp (tsk s' a) = sp (tsk s a)"
    and "\<And>d. current_task (cpu s' d) = current_task (cpu s d)" "\<And>d. idle_task (cpu s' d) = idle_task (cpu s d)"
    and "\<And>d. percpu_get d s' = percpu_get d s" "is_idle_task s' = is_idle_task s"
    and "\<And>a. on_rq (tsk s' a) = on_rq (tsk s a)" "g_smp_initialized s' = g_smp_initialized s"
proof -
  obtain us vs where qb: "q b = us @ t # vs" and mt: "migratable me s t" and nu: "\<And>u. u \<in> set us \<Longrightarrow> \<not> migratable me s u"
    using find_first [OF f] by metis
  have ok: "queue_ok (tsk s) (cpu s b) (us @ t # vs)" using rqs_okD(1) [OF q, of b] qb by simp
  have ch: "chained (\<lambda>a. rq_next (tsk s a)) (runqueue_head (cpu s b)) (us @ t # vs)" using ok unfolding queue_ok_def by blast
  have dis: "distinct (us @ t # vs)" "NULL \<notin> set (us @ t # vs)" using queue_ok_distinct [OF ok] by simp_all
  have tl: "runqueue_tail (cpu s b) = t \<longleftrightarrow> vs = []" using ok dis(1) unfolding queue_ok_def by (auto split: if_splits)
  have sl: "find_slot (\<lambda>a. rq_next (tsk s a)) (migratable me s) None (runqueue_head (cpu s b)) =
      Some (if us = [] then None else Some (last us), t)" 
    using find_slot_found [where P = "migratable me s", OF ch mt nu, where pp = None] .
  have lu: "us \<noteq> [] \<Longrightarrow> last us \<noteq> t" using dis last_in_set by fastforce
  have tt: "t \<noteq> NULL" "on_rq (tsk s t)" "t_state (tsk s t) \<noteq> TASK_RUNNING" using dis(2) rqs_okD(2) [OF q, of t b] qb by auto
  let ?s2 = "if us = [] then upd_cpu b (\<lambda>p. p\<lparr>runqueue_head := rq_next (tsk s t)\<rparr>) s
      else upd_task (last us) (\<lambda>x. x\<lparr>rq_next := rq_next (tsk s t)\<rparr>) s"
  let ?s3 = "if vs = [] then upd_cpu b (\<lambda>p. p\<lparr>runqueue_tail := (if us = [] then NULL else last us)\<rparr>) ?s2 else ?s2"
  let ?s5 = "upd_cpu b (\<lambda>p. p\<lparr>runqueue_length := runqueue_length p - 1\<rparr>) (upd_task t (\<lambda>x. x\<lparr>rq_next := NULL, on_rq := False\<rparr>) ?s3)"
  let ?s6 = "upd_task t (\<lambda>x. x\<lparr>on_cpu := me\<rparr>) ?s5"
  have e: "pull me b s = Some (rq_enqueue_locked me t ?s6)"
    using sl tt(1) tl by (cases "us = []") (simp_all add: pull_def Let_def)
  have "rqs_ok (q(b := us @ vs)) ?s5"
    by (rule rqs_ok_unlink [OF q qb]; cases "us = []"; cases "vs = []") (use lu in simp_all)
  then have q6: "rqs_ok (q(b := us @ vs)) ?s6" by (rule rqs_ok_move) simp
  have t6: "\<not> on_rq (tsk ?s6 t)" "t_state (tsk ?s6 t) \<noteq> TASK_RUNNING" "on_cpu (tsk ?s6 t) = me" "percpu_get me ?s6"
    using tt(3) lu me by (cases "us = []"; simp)+
  have r: "rqs_ok ((q(b := us @ vs))(me := (q(b := us @ vs)) me @ [t])) (rq_enqueue_locked me t ?s6)"
    by (rule rq_enqueue_ok [OF q6 tt(1) t6])
  note on = rq_enqueue_on_rq [OF q6 tt(1) t6]
  show ?thesis
  proof (rule that [OF e])
    show "rqs_ok (q(b := remove1 t (q b), me := q me @ [t])) (rq_enqueue_locked me t ?s6)"
      using r b dis(1) by (simp add: qb remove1_split)
    show "on_rq (tsk (rq_enqueue_locked me t ?s6) a) = on_rq (tsk s a)" for a
      unfolding on using tt(2) lu by (cases "us = []") auto
  qed (use lu in \<open>(cases "us = []"; auto)+\<close>)
qed

lemma pull_inv:
  assumes inv: "sched_inv T s" and q: "rqs_ok q s" and f: "find (migratable me s) (q b) = Some t" and b: "b \<noteq> me" and me: "percpu_get me s"
    and cur: "\<forall>c. current_task (cpu s c) \<noteq> t" and s': "pull me b s = Some s'"
  shows "sched_inv T s'"
proof -
  have ok: "cpus_ok s" and nl: "not_lost T s" using inv unfolding sched_inv_def by blast+
  obtain s1 where "pull me b s = Some s1" and q1: "rqs_ok (q(b := remove1 t (q b), me := q me @ [t])) s1"
    and f1: "\<And>a. t_state (tsk s1 a) = t_state (tsk s a)" "\<And>a. on_cpu (tsk s1 a) = (if a = t then me else on_cpu (tsk s a))"
      "\<And>a. has_exited (tsk s1 a) = has_exited (tsk s a)" "\<And>a. sp (tsk s1 a) = sp (tsk s a)"
      "\<And>d. current_task (cpu s1 d) = current_task (cpu s d)" "\<And>d. idle_task (cpu s1 d) = idle_task (cpu s d)"
      "\<And>d. percpu_get d s1 = percpu_get d s" "is_idle_task s1 = is_idle_task s"
      "\<And>a. on_rq (tsk s1 a) = on_rq (tsk s a)"
    using pull_some [OF q f b me] by metis
  then have [simp]: "s1 = s'" using s' by simp
  have "t \<in> set (q b)" using find_first [OF f] by (metis in_set_conv_decomp)
  then have "on_rq (tsk s t)" using rqs_okD(2) [OF q] by blast
  then have "\<not> is_idle_task s t" using ok unfolding cpus_ok_def by blast
  then have "cpus_ok s1" using ok cur unfolding cpus_ok_def Let_def f1 by metis
  moreover have "not_lost T s1" using nl unfolding not_lost_def runnable_def f1 .
  ultimately show ?thesis using q1 unfolding sched_inv_def by auto
qed

lemma busiest_other:
  "busiest cs me b n s = (b', n') \<Longrightarrow> b' = b \<or> (b' \<in> set cs \<and> b' \<noteq> me \<and> percpu_get b' s)"
  by (induction cs me b n s arbitrary: b' n' rule: busiest.induct) (auto split: if_splits)

lemma busiest_longer:
  "busiest cs me b n s = (b', n') \<Longrightarrow> (b', n') = (b, n) \<or> n < n'"
  by (induction cs me b n s arbitrary: b' n' rule: busiest.induct) (fastforce split: if_splits)+

text \<open>When the two checks of \<^verbatim>\<open>sched_load_balance\<close> let it go on, in terms of the queues.\<close>

lemma load_balance_run:
  assumes q: "rqs_ok q (locked s)" and len: "\<forall>c. length (q c) < 2 ^ 32 - 1" and g: "g_smp_initialized s" "1 < cpus_online s"
    and b: "fst (busiest [0..<cpus_online s] me me (runqueue_length (cpu s me)) s) = b"
  shows "sched_load_balance me locked s =
    (if b = me then Some s else if length (q b) \<le> length (q me) then Some (locked s) else pull me b (locked s))"
proof -
  let ?n = "runqueue_length (cpu s me)"
  obtain n where bn: "busiest [0..<cpus_online s] me me ?n s = (b, n)" using b by (metis prod.collapse)
  have l: "runqueue_length (cpu (locked s) c) = of_nat (length (q c))" for c
    using rqs_okD(1) [OF q, of c] unfolding queue_ok_def by blast
  have u: "unat (of_nat (length (q c)) :: u32) = length (q c)" for c
    using len [rule_format, of c] by (intro unat_of_nat_small) simp
  have "unat (of_nat (length (q me)) + (1 :: u32)) = length (q me) + 1"
    using len [rule_format, of me] by (subst unat_plus_no_wrap) (simp_all add: u)
  then have longer: "runqueue_length (cpu (locked s) b) < runqueue_length (cpu (locked s) me) + 1 \<longleftrightarrow> length (q b) \<le> length (q me)"
    by (auto simp: l u word_less_nat_alt)
  have "percpu_get b s \<and> \<not> n < ?n + 1" if "b \<noteq> me"
    using busiest_other [OF bn] busiest_longer [OF bn] that inc_le [of ?n n] by (auto simp: not_less)
  then show ?thesis using g bn longer by (auto simp: sched_load_balance_def Let_def)
qed

section \<open>Taking turns\<close>

definition turn_ready :: "sched \<Rightarrow> addr \<Rightarrow> bool" where
  "turn_ready s t \<longleftrightarrow> t \<noteq> NULL \<and> \<not> has_exited (tsk s t) \<and> \<not> is_idle_task s t \<and> t_state (tsk s t) \<noteq> TASK_ZOMBIE \<and> sp (tsk s t) \<noteq> 0"

lemma yield_turn:
  assumes q: "rqs_ok q s" and ok: "cpus_ok s" and c: "percpu_get c s" "g_smp_initialized s" "current_task (cpu s c) = cur"
    and qc: "q c = t # ts" "cur \<notin> set (q c)" "\<forall>a \<in> set (cur # q c). turn_ready s a" and rsp: "rsp \<noteq> 0"
  shows "rqs_ok (q(c := ts @ [cur])) (sched_yield_in_kernel c rsp s)" "cpus_ok (sched_yield_in_kernel c rsp s)"
    "current_task (cpu (sched_yield_in_kernel c rsp s) c) = t" "same_tasks s (sched_yield_in_kernel c rsp s)"
proof -
  let ?s1 = "upd_task cur (\<lambda>x. x\<lparr>remaining_ticks := 0, t_state := TASK_READY\<rparr>) s"
  have cur: "turn_ready s cur" "turn_ready s t" "t \<noteq> cur" "cur \<notin> set ts" using qc by auto
  have q1: "rqs_ok q ?s1" by (rule rqs_ok_same [OF q]) (use rqs_okD(2,3) [OF q] in auto)
  have ok1: "cpus_ok ?s1" using ok unfolding cpus_ok_def Let_def by auto
  have st1: "same_tasks s ?s1" by (simp add: same_tasks_def)
  have y: "sched_yield_in_kernel c rsp s = sched_schedule c rsp ?s1"
    using c cur(1) by (simp add: sched_yield_in_kernel_def yield_write_def Let_def turn_ready_def)
  have "next_task True c ?s1 (q c) = (t, ts @ [cur])"
    using c cur qc(1) by (simp add: next_task_def Let_def behind_def runnable_def turn_ready_def)
  then have r: "sched_result c q ?s1 (sched_schedule c rsp ?s1) (t, ts @ [cur])"
    using sched_schedule_result [OF q1 ok1, of c rsp] c cur(1) rsp by (simp add: turn_ready_def)
  show "rqs_ok (q(c := ts @ [cur])) (sched_yield_in_kernel c rsp s)" "cpus_ok (sched_yield_in_kernel c rsp s)"
    "current_task (cpu (sched_yield_in_kernel c rsp s) c) = t"
    using r unfolding y sched_result_def by simp_all
  show "same_tasks s (sched_yield_in_kernel c rsp s)"
    using r same_tasks_trans [OF st1] unfolding y sched_result_def by blast
qed

lemma turn_ready_same: "same_tasks s s' \<Longrightarrow> turn_ready s t \<Longrightarrow> turn_ready s' t"
  unfolding same_tasks_def turn_ready_def by (metis empty_iff insert_iff task_state.distinct(7,13))

lemma turns:
  assumes "rqs_ok q s" and "cpus_ok s" and "percpu_get c s" "g_smp_initialized s" "current_task (cpu s c) = cur"
    and "q c \<noteq> []" "cur \<notin> set (q c)" "\<forall>a \<in> set (cur # q c). turn_ready s a" and "rsp \<noteq> 0" and "k \<le> length (q c)"
  shows "current_task (cpu ((sched_yield_in_kernel c rsp ^^ Suc k) s) c) = (q c @ [cur]) ! k"
  using assms
proof (induction k arbitrary: q s cur)
  case 0
  then obtain t ts where qc: "q c = t # ts" by (cases "q c") auto
  show ?case using yield_turn(3) [OF "0.prems"(1-5) qc "0.prems"(7-9)] by (simp add: qc)
next
  case (Suc k)
  then obtain t ts where qc: "q c = t # ts" by (cases "q c") auto
  let ?s1 = "sched_yield_in_kernel c rsp s"
  note y = yield_turn [OF Suc.prems(1-5) qc Suc.prems(7-9)]
  have dis: "t \<notin> set ts" using queue_ok_distinct [OF rqs_okD(1) [OF Suc.prems(1), of c]] qc by simp
  have "current_task (cpu ((sched_yield_in_kernel c rsp ^^ Suc k) ?s1) c) = ((q(c := ts @ [cur])) c @ [t]) ! k"
  proof (rule Suc.IH [OF y(1,2) _ _ y(3)])
    show "percpu_get c ?s1" "g_smp_initialized ?s1" using y(4) Suc.prems(3,4) unfolding same_tasks_def by auto
    show "\<forall>a \<in> set (t # (q(c := ts @ [cur])) c). turn_ready ?s1 a" using Suc.prems(8) qc turn_ready_same [OF y(4)] by auto
  qed (use Suc.prems qc dis in auto)
  moreover have "((q(c := ts @ [cur])) c @ [t]) ! k = (q c @ [cur]) ! Suc k" using Suc.prems(10) qc by (simp add: nth_append)
  ultimately show ?case by (simp add: funpow_swap1)
qed

end
