(* ===== verification/Interleaving.thy ===== *)
theory Interleaving
  imports Wakeup
begin

text \<open>
  The scheduler under interleaving. A step is what a processor does between two points at which others can
  interfere: a section under the lock of a run queue, one round of the scan of \<^verbatim>\<open>sched_wake_channel\<close> under the
  lock of the task list, putting one woken task on its queue, or a write of a task to its own state that
  no lock protects. The calls of \<^verbatim>\<open>sched_wake_channel\<close> and \<^verbatim>\<open>sched_wake_task\<close> that are under way are wakers with a program
  counter; any number of them run at once, but only one is in its scan. A scheduling function's section under the
  lock is taken together with the switch of stacks that follows it: after the lock is released the function touches
  fields of its own processor and the saved stack pointer of the task it leaves, which only that processor reads.
  Load balancing, which reads them too, is not a step (theory \<^verbatim>\<open>Balance\<close>).
\<close>

section \<open>What a scheduling call does to the states of tasks\<close>

definition moves :: "nat \<Rightarrow> sched \<Rightarrow> sched \<Rightarrow> bool" where
  "moves c s s' \<longleftrightarrow>
     (\<forall>t. on_rq (tsk s' t) \<longrightarrow> on_rq (tsk s t) \<or> t_state (tsk s' t) = TASK_READY) \<and>
     (\<forall>t. t_state (tsk s' t) = t_state (tsk s t) \<or>
          t = current_task (cpu s' c) \<and> t_state (tsk s' t) = TASK_RUNNING \<or>
          t = current_task (cpu s c) \<and> t_state (tsk s' t) = TASK_READY \<and> t \<noteq> current_task (cpu s' c)) \<and>
     (current_task (cpu s' c) = current_task (cpu s c) \<or> t_state (tsk s' (current_task (cpu s' c))) = TASK_RUNNING)"

lemma moves_refl [simp]: "moves c s s"
  by (simp add: moves_def)

text \<open>Nothing moves, and at most tasks leave the queues.\<close>

definition quiet :: "nat \<Rightarrow> sched \<Rightarrow> sched \<Rightarrow> bool" where
  "quiet c s s' \<longleftrightarrow>
     (\<forall>t. (on_rq (tsk s' t) \<longrightarrow> on_rq (tsk s t)) \<and> t_state (tsk s' t) = t_state (tsk s t)) \<and>
     current_task (cpu s' c) = current_task (cpu s c)"

lemma quiet_moves: "quiet c s s1 \<Longrightarrow> moves c s1 s' \<Longrightarrow> moves c s s'"
  unfolding quiet_def moves_def by metis

lemma dequeue_quiet:
  assumes "rqs_ok q s" and "rq_dequeue_locked c s = (n, s1)"
  shows "quiet c s s1" and "n \<noteq> NULL \<Longrightarrow> on_rq (tsk s n)" and "idle_task (cpu s1 c) = idle_task (cpu s c)"
    and "is_idle_task s1 = is_idle_task s"
proof -
  have n: "n = runqueue_head (cpu s c)" using assms(2) by (auto simp: rq_dequeue_locked_def Let_def split: if_splits)
  show "n \<noteq> NULL \<Longrightarrow> on_rq (tsk s n)"
    using queue_ok_head [OF rqs_okD(1) [OF assms(1), of c]] rqs_okD(2) [OF assms(1), of n c] n by (auto split: list.splits)
  have s1: "s1 = snd (rq_dequeue_locked c s)" using assms(2) by simp
  show "quiet c s s1" unfolding s1 quiet_def by (simp add: rq_dequeue_locked_def Let_def)
  show "idle_task (cpu s1 c) = idle_task (cpu s c)" "is_idle_task s1 = is_idle_task s"
    unfolding s1 by (simp_all add: rq_dequeue_locked_def Let_def)
qed

lemma enqueue_on_rq: "on_rq (tsk (rq_enqueue_locked c t s) a) \<Longrightarrow> a = t \<or> on_rq (tsk s a)"
  by (auto simp: rq_enqueue_locked_def Let_def split: if_splits)

lemma usable_quiet:
  assumes "quiet c s s1" and "on_rq (tsk s n) \<or> is_idle_task s1 n"
  shows "quiet c s (snd (usable c n s1))"
  using assms enqueue_on_rq [of c n s1] unfolding usable_def quiet_def by auto

text \<open>The function \<open>k\<close> changes at most the state of the current task, to running.\<close>

definition stays :: "nat \<Rightarrow> addr \<Rightarrow> (sched \<Rightarrow> sched) \<Rightarrow> bool" where
  "stays c cur k \<longleftrightarrow>
     (\<forall>s t. on_rq (tsk (k s) t) = on_rq (tsk s t) \<and> current_task (cpu (k s) c) = current_task (cpu s c) \<and>
        (t_state (tsk (k s) t) = t_state (tsk s t) \<or> t = cur \<and> t_state (tsk (k s) t) = TASK_RUNNING))"

lemma keep_stays:
  "stays c cur (keep_running cur b)" "stays c cur (keep_alive cur b)" "stays c cur (run_alive cur)"
  "stays c cur (\<lambda>s. no_frame cur (keep_running cur b s))" "stays c cur (\<lambda>s. no_frame cur (keep_alive cur b s))"
  "stays c cur (\<lambda>s. no_frame cur (tick_alive cur s))"
  by (auto simp: stays_def keep_running_def keep_alive_def run_alive_def no_frame_def tick_alive_def)

lemma stays_moves: "stays c cur k \<Longrightarrow> current_task (cpu s c) = cur \<Longrightarrow> moves c s (k s)"
  unfolding stays_def moves_def by metis

lemma switched_moves:
  assumes sw: "switched c cur n b s s'" and cur: "current_task (cpu s c) = cur" "n \<noteq> cur"
  shows "moves c s s'"
proof -
  note d = switchedD [OF sw]
  have rq: "on_rq (tsk (requeue c cur b s) t) \<Longrightarrow> on_rq (tsk s t) \<or> t = cur \<and> t_state (tsk (requeue c cur b s) t) = TASK_READY" for t
    unfolding requeue_def by (auto split: if_splits dest!: enqueue_on_rq)
  have st: "t_state (tsk (requeue c cur b s) t) = t_state (tsk s t) \<or> t = cur \<and> t_state (tsk (requeue c cur b s) t) = TASK_READY" for t
    by (auto simp: requeue_def)
  have n: "current_task (cpu s' c) = n" by (simp add: d)
  show ?thesis
    unfolding moves_def n cur(1)
  proof (intro conjI allI impI)
    fix t assume "on_rq (tsk s' t)"
    then have "on_rq (tsk s t) \<or> t = cur \<and> t_state (tsk (requeue c cur b s) t) = TASK_READY" using rq d(3) by simp
    then show "on_rq (tsk s t) \<or> t_state (tsk s' t) = TASK_READY" using d(9) [of cur] cur(2) by auto
  next
    fix t
    show "t_state (tsk s' t) = t_state (tsk s t) \<or> t = n \<and> t_state (tsk s' t) = TASK_RUNNING \<or>
        t = cur \<and> t_state (tsk s' t) = TASK_READY \<and> t \<noteq> n"
      using d(9) [of t] d(10) st [of t] cur(2) by (cases "t = n") auto
  qed (use d(10) in simp)
qed

lemma dispatch_moves:
  assumes q: "rqs_ok q s" and ok: "cpus_ok s" and c: "percpu_get c s" "current_task (cpu s c) = cur"
    and k: "stays c cur kS" "stays c cur kE" "stays c cur kU" and sw: "\<And>n s. n \<noteq> cur \<Longrightarrow> switched c cur n b s (sw n s)"
  shows "moves c s (dispatch c stay kS kE kU sw s)"
    and "(\<And>s. t_state (tsk (kS s) cur) = TASK_RUNNING \<or> has_exited (tsk s cur)) \<Longrightarrow>
      (\<And>s. t_state (tsk (kE s) cur) = TASK_RUNNING \<or> has_exited (tsk s cur)) \<Longrightarrow>
      (\<And>s. t_state (tsk (kU s) cur) = TASK_RUNNING \<or> has_exited (tsk s cur)) \<Longrightarrow>
      current_task (cpu (dispatch c stay kS kE kU sw s) c) = cur \<Longrightarrow>
      t_state (tsk (dispatch c stay kS kE kU sw s) cur) = TASK_RUNNING \<or> has_exited (tsk s cur)"
proof -
  obtain n s1 where deq: "rq_dequeue_locked c s = (n, s1)" by (cases "rq_dequeue_locked c s")
  note dq = dequeue_quiet [OF q deq]
  define n1 where "n1 = (if n = NULL \<or> n = cur then idle_task (cpu s1 c) else n)"
  obtain n2 s2 where us: "usable c n1 s1 = (n2, s2)" by (cases "usable c n1 s1")
  have "on_rq (tsk s n1) \<or> is_idle_task s1 n1" using dq(2-4) cpus_okD(2) [OF ok c(1)] by (simp add: n1_def)
  then have q2: "quiet c s s2" using usable_quiet [OF dq(1)] us by (metis snd_conv)
  have ex: "has_exited (tsk s1 t) = has_exited (tsk s t)" "has_exited (tsk s2 t) = has_exited (tsk s1 t)" for t
    using deq us by (auto simp: rq_dequeue_locked_def usable_def Let_def split: if_splits)
  have d: "dispatch c stay kS kE kU sw s = (if stay \<and> n = cur then kS s1 else if n1 = NULL \<or> n1 = cur then kE s1
      else if n2 = NULL \<or> n2 = cur \<or> sp (tsk s2 n2) = 0 then kU s2 else sw n2 s2)"
    unfolding dispatch_def Let_def deq c(2) prod.case n1_def [symmetric] us ..
  have cur: "current_task (cpu s1 c) = cur" "current_task (cpu s2 c) = cur" using dq(1) q2 c(2) by (simp_all add: quiet_def)
  have m: "moves c s (k s1)" "moves c s (k s2)" if "stays c cur k" for k
    using quiet_moves [OF dq(1) stays_moves [OF that cur(1)]] quiet_moves [OF q2 stays_moves [OF that cur(2)]] by blast+
  have "n2 \<noteq> cur \<Longrightarrow> moves c s (sw n2 s2)"
    using quiet_moves [OF q2 switched_moves [OF sw cur(2)]] by blast
  then show "moves c s (dispatch c stay kS kE kU sw s)" unfolding d using m k by auto
  show "t_state (tsk (dispatch c stay kS kE kU sw s) cur) = TASK_RUNNING \<or> has_exited (tsk s cur)"
    if "\<And>s. t_state (tsk (kS s) cur) = TASK_RUNNING \<or> has_exited (tsk s cur)"
      "\<And>s. t_state (tsk (kE s) cur) = TASK_RUNNING \<or> has_exited (tsk s cur)"
      "\<And>s. t_state (tsk (kU s) cur) = TASK_RUNNING \<or> has_exited (tsk s cur)"
      "current_task (cpu (dispatch c stay kS kE kU sw s) c) = cur"
    using that(4) that(1) [of s1] that(2) [of s1] that(3) [of s2] ex switchedD(15) [OF sw, of n2 s2 c] unfolding d by (auto split: if_splits)
qed

lemma schedule_moves:
  assumes q: "rqs_ok q s" and ok: "cpus_ok s" and c: "percpu_get c s" "current_task (cpu s c) \<noteq> NULL"
    and smp: "g_smp_initialized s" and rsp: "rsp \<noteq> 0"
  shows "moves c s (sched_schedule c rsp s)" "moves c s (sched_run_ready c rsp s)" "moves c s (sched_preempt c locked frame rsp s)"
    and "current_task (cpu (sched_schedule c rsp s) c) = current_task (cpu s c) \<Longrightarrow>
      t_state (tsk (sched_schedule c rsp s) (current_task (cpu s c))) = TASK_RUNNING \<or> has_exited (tsk s (current_task (cpu s c)))"
proof -
  define cur where "cur = current_task (cpu s c)"
  note cn = c(2) [folded cur_def]
  let ?s0 = "s\<lparr>g_total_schedules := g_total_schedules s + 1\<rparr>"
  have a0: "agree s ?s0" by (simp add: agree_def percpu_get_def is_idle_task_def fun_eq_iff)
  have pre: "rqs_ok q s0" "cpus_ok s0" "percpu_get c s0" "current_task (cpu s0 c) = cur" "quiet c s s0" if "agree s s0" for s0
    using q ok c(1) agree_ok(1,2) [OF that] that by (simp_all add: agree_def cur_def quiet_def)
  note p0 = pre [OF a0]
  note d0 = sched_schedule_dispatch [OF cur_def smp cn, of rsp]
  note m0 = dispatch_moves [OF p0(1-4) keep_stays(1,2,2) switched_schedule(1) [OF _ rsp], where stay = True]
  show "moves c s (sched_schedule c rsp s)" unfolding d0 by (rule quiet_moves [OF p0(5) m0(1)])
  show "t_state (tsk (sched_schedule c rsp s) (current_task (cpu s c))) = TASK_RUNNING \<or> has_exited (tsk s (current_task (cpu s c)))"
    if "current_task (cpu (sched_schedule c rsp s) c) = current_task (cpu s c)"
    using m0(2) that unfolding d0 cur_def [symmetric] by (simp add: keep_running_def keep_alive_def)
  have a1: "agree s (upd_task cur (\<lambda>x. x\<lparr>need_resched := False\<rparr>) s)" by (simp add: agree_def)
  show "moves c s (sched_run_ready c rsp s)"
  proof (cases "need_resched (tsk s cur) \<and> runqueue_head (cpu s c) \<noteq> NULL")
    case True
    then have run: "need_resched (tsk s cur)" "runqueue_head (cpu s c) \<noteq> NULL" by simp_all
    note p = pre [OF a1]
    show ?thesis unfolding sched_run_ready_dispatch [OF cur_def smp cn run]
      by (rule quiet_moves [OF p(5) dispatch_moves(1) [OF p(1-4) keep_stays(2,2,3) switched_schedule(2) [OF _ rsp]]])
  next
    case False
    then have "sched_run_ready c rsp s = s \<or> sched_run_ready c rsp s = upd_task cur (\<lambda>x. x\<lparr>need_resched := False\<rparr>) s"
      by (auto simp: sched_run_ready_def Let_def cur_def)
    then show ?thesis using quiet_moves [OF pre(5) [OF a1] moves_refl] by auto
  qed
  show "moves c s (sched_preempt c locked frame rsp s)"
  proof (cases "in_context_switch (cpu s c) \<or> is_bootstrap_task s cur \<or> \<not> locked")
    case True
    then have "sched_preempt c locked frame rsp s = s" by (auto simp: sched_preempt_def Let_def cur_def)
    then show ?thesis by simp
  next
    case False
    have "agree s (upd_task cur (\<lambda>x. x\<lparr>need_resched := False, preempt_frame := frame\<rparr>) s)" by (simp add: agree_def)
    note p = pre [OF this]
    show ?thesis unfolding sched_preempt_dispatch [OF cur_def smp cn False]
      by (rule quiet_moves [OF p(5) dispatch_moves(1) [OF p(1-4) keep_stays(4,5,6) switched_schedule(3) [OF _ rsp]]])
  qed
qed

section \<open>Steps\<close>

text \<open>
  A waker scans the task list from a task on, with the array of tasks it has collected, or puts the tasks left in the
  array on their queues.
\<close>

datatype waker = Idle | Scan addr addr "addr list" | Enqueue "addr list"

fun to_wake :: "waker \<Rightarrow> addr list" where
  "to_wake Idle = []"
| "to_wake (Scan ch t ws) = ws"
| "to_wake (Enqueue ws) = ws"

fun scanning :: "waker \<Rightarrow> bool" where
  "scanning (Scan ch t ws) = True"
| "scanning _ = False"

text \<open>\<open>leaving\<close> are the tasks between the write to their own state and the call of the scheduler.\<close>

record system =
  sch :: sched
  wk :: "nat \<Rightarrow> waker"
  leaving :: "addr set"

definition pending :: "system \<Rightarrow> addr set" where
  "pending y = (\<Union>i. set (to_wake (wk y i)))"

text \<open>
  The steps of all processors. Control flow gives the side conditions: a task that has written its state goes on to the
  scheduler, a task that has exited writes no more, and the lock of the task list admits one scan. A task that is found
  waiting is not idle and belongs to a processor that is present, and the array has room for it; what happens with more
  waiters is shown separately. \<open>rsp\<close> is the stack pointer that a switch saves.
\<close>

inductive sys_step :: "system \<Rightarrow> system \<Rightarrow> bool" where
  schedule: "percpu_get c (sch y) \<Longrightarrow> rsp \<noteq> 0 \<Longrightarrow>
    sys_step y (y\<lparr>sch := sched_schedule c rsp (sch y), leaving := leaving y - {current_task (cpu (sch y) c)}\<rparr>)"
| run_ready: "percpu_get c (sch y) \<Longrightarrow> rsp \<noteq> 0 \<Longrightarrow> sys_step y (y\<lparr>sch := sched_run_ready c rsp (sch y)\<rparr>)"
| preempt: "percpu_get c (sch y) \<Longrightarrow> rsp \<noteq> 0 \<Longrightarrow> sys_step y (y\<lparr>sch := sched_preempt c locked frame rsp (sch y)\<rparr>)"
| resume: "sys_step y (y\<lparr>sch := after_switch c (sch y)\<rparr>)"
| resume_preempted: "sys_step y (y\<lparr>sch := after_preempt c (sch y)\<rparr>)"
| yield: "percpu_get c (sch y) \<Longrightarrow> current_task (cpu (sch y) c) = cur \<Longrightarrow> cur \<noteq> NULL \<Longrightarrow> cur \<notin> leaving y \<Longrightarrow>
    \<not> has_exited (tsk (sch y) cur) \<Longrightarrow> sys_step y (y\<lparr>sch := yield_write cur (sch y), leaving := insert cur (leaving y)\<rparr>)"
| block: "percpu_get c (sch y) \<Longrightarrow> current_task (cpu (sch y) c) = cur \<Longrightarrow> cur \<noteq> NULL \<Longrightarrow> cur \<notin> leaving y \<Longrightarrow>
    \<not> has_exited (tsk (sch y) cur) \<Longrightarrow> sys_step y (y\<lparr>sch := block_current c ch (sch y), leaving := insert cur (leaving y)\<rparr>)"
| scan_start: "wk y i = Idle \<Longrightarrow> \<forall>j. \<not> scanning (wk y j) \<Longrightarrow> ch \<noteq> NULL \<Longrightarrow>
    sys_step y (y\<lparr>wk := (wk y)(i := Scan ch (g_task_list_head (sch y)) [])\<rparr>)"
| scan_next: "wk y i = Scan ch t ws \<Longrightarrow> t \<noteq> NULL \<Longrightarrow> waiting (sch y) ch t \<longrightarrow> can_queue (sch y) t \<and> length ws < 16 \<Longrightarrow>
    wake_mark ch t ws (sch y) = (ws', s') \<Longrightarrow> sys_step y (y\<lparr>sch := s', wk := (wk y)(i := Scan ch (t_next (tsk s' t)) ws')\<rparr>)"
| scan_end: "wk y i = Scan ch NULL ws \<Longrightarrow> sys_step y (y\<lparr>wk := (wk y)(i := Enqueue ws)\<rparr>)"
| wake_task: "wk y i = Idle \<Longrightarrow> t_state (tsk (sch y) t) = TASK_BLOCKED \<Longrightarrow> can_queue (sch y) t \<Longrightarrow>
    sys_step y (y\<lparr>sch := wake_write t (sch y), wk := (wk y)(i := Enqueue [t])\<rparr>)"
| enqueue: "wk y i = Enqueue (t # ws) \<Longrightarrow>
    sys_step y (y\<lparr>sch := sched_enqueue_ready me t (sch y), wk := (wk y)(i := Enqueue ws)\<rparr>)"
| wake_end: "wk y i = Enqueue [] \<Longrightarrow> sys_step y (y\<lparr>wk := (wk y)(i := Idle)\<rparr>)"

section \<open>Invariant\<close>

text \<open>
  A current task that is not marked running is on its way to the scheduler (or has exited), queued tasks are ready, and
  every runnable task is on a queue, on a processor, or ready and in the array of a waker.
\<close>

definition sys_inv :: "addr set \<Rightarrow> system \<Rightarrow> bool" where
  "sys_inv T y \<longleftrightarrow>
     g_smp_initialized (sch y) \<and> (\<exists>q. rqs_ok q (sch y)) \<and> cpus_ok (sch y) \<and>
     (\<forall>t. on_rq (tsk (sch y) t) \<longrightarrow> t_state (tsk (sch y) t) = TASK_READY) \<and>
     (\<forall>c t. percpu_get c (sch y) \<and> current_task (cpu (sch y) c) = t \<and> t \<noteq> NULL \<and> t_state (tsk (sch y) t) \<in> {TASK_READY, TASK_BLOCKED} \<longrightarrow>
        t \<in> leaving y \<or> has_exited (tsk (sch y) t)) \<and>
     (\<forall>t \<in> pending y. can_queue (sch y) t) \<and>
     not_lost (T - {t \<in> pending y. t_state (tsk (sch y) t) = TASK_READY}) (sch y)"

lemma sys_invD:
  assumes "sys_inv T y"
  shows "g_smp_initialized (sch y)" "\<exists>q. rqs_ok q (sch y)" "cpus_ok (sch y)"
    "on_rq (tsk (sch y) t) \<Longrightarrow> t_state (tsk (sch y) t) = TASK_READY"
    "percpu_get c (sch y) \<Longrightarrow> current_task (cpu (sch y) c) = t \<Longrightarrow> t \<noteq> NULL \<Longrightarrow> t_state (tsk (sch y) t) \<in> {TASK_READY, TASK_BLOCKED} \<Longrightarrow>
      t \<in> leaving y \<or> has_exited (tsk (sch y) t)"
    "t \<in> pending y \<Longrightarrow> can_queue (sch y) t"
    "not_lost (T - {t \<in> pending y. t_state (tsk (sch y) t) = TASK_READY}) (sch y)"
  using assms unfolding sys_inv_def by blast+

text \<open>A scheduling call.\<close>

lemma sys_sched:
  assumes inv: "sys_inv T y" and c: "percpu_get c (sch y)" and cur: "current_task (cpu (sch y) c) = cur"
    and res: "\<And>q. rqs_ok q (sch y) \<Longrightarrow> \<exists>r. sched_result c q (sch y) s' r" and mv: "moves c (sch y) s'"
    and L: "L = leaving y \<or> L = leaving y - {cur} \<and>
      (current_task (cpu s' c) = cur \<longrightarrow> cur = NULL \<or> t_state (tsk s' cur) = TASK_RUNNING \<or> has_exited (tsk (sch y) cur))"
  shows "sys_inv T (y\<lparr>sch := s', leaving := L\<rparr>)"
proof -
  let ?s = "sch y"
  note i = sys_invD [OF inv]
  obtain q where "rqs_ok q ?s" using i(2) by blast
  then obtain r where r: "sched_result c q ?s s' r" using res by blast
  have q': "rqs_ok (q(c := snd r)) s'" and ok': "cpus_ok s'" and st: "same_tasks ?s s'"
    and cr: "\<And>d. d \<noteq> c \<Longrightarrow> current_task (cpu s' d) = current_task (cpu ?s d)"
    and nl: "\<And>X. not_lost X ?s \<Longrightarrow> not_lost X s'" using r unfolding sched_result_def by auto
  note m = mv [unfolded moves_def cur]
  have p: "percpu_get d s' = percpu_get d ?s" "has_exited (tsk s' t) = has_exited (tsk ?s t)" "can_queue s' t = can_queue ?s t" for d t
    using st unfolding same_tasks_def can_queue_def by auto
  have ready: "t_state (tsk s' t) = TASK_READY" if "on_rq (tsk s' t)" for t
  proof -
    have "t_state (tsk s' t) \<noteq> TASK_RUNNING" using rqs_okD(2,3) [OF q'] that by blast
    then show ?thesis using m i(4) [of t] that by metis
  qed
  have own: "t \<in> L \<or> has_exited (tsk s' t)"
    if d: "percpu_get d s'" "current_task (cpu s' d) = t" "t \<noteq> NULL" "t_state (tsk s' t) \<in> {TASK_READY, TASK_BLOCKED}" for d t
  proof (cases "d = c")
    case True
    then have t: "t = cur" "t_state (tsk s' t) = t_state (tsk ?s t)" using m d by auto
    then have "t \<in> leaving y \<or> has_exited (tsk ?s t)" using i(5) [OF c cur] d by auto
    then show ?thesis using L t(1) d True by (auto simp: p)
  next
    case False
    have pd: "percpu_get d ?s" using d(1) p by simp
    have "on_cpu (tsk s' t) = d" using cpus_okD(7) [OF ok' d(1)] d(2,3) by simp
    then have "t \<noteq> current_task (cpu s' c)" using cpus_okD(7) [OF ok'] c p False d(3) by metis
    moreover have td: "current_task (cpu ?s d) = t" using cr [OF False] d(2) by simp
    then have "t \<noteq> cur" using cpus_okD(7) [OF i(3) pd] cpus_okD(7) [OF i(3) c] cur d(3) False by metis
    ultimately have "t_state (tsk s' t) = t_state (tsk ?s t)" using m by metis
    then have "t \<in> leaving y \<or> has_exited (tsk ?s t)" using i(5) [OF pd td d(3)] d(4) by simp
    then show ?thesis using L \<open>t \<noteq> cur\<close> by (auto simp: p)
  qed
  have "not_lost (T - {t \<in> pending y. t_state (tsk s' t) = TASK_READY}) s'"
    unfolding not_lost_def
  proof (intro ballI impI)
    fix t assume t: "t \<in> T - {t \<in> pending y. t_state (tsk s' t) = TASK_READY}" "runnable s' t"
    show "on_rq (tsk s' t) \<or> (\<exists>d. percpu_get d s' \<and> current_task (cpu s' d) = t)"
    proof (cases "t \<in> pending y \<and> t_state (tsk ?s t) = TASK_READY")
      case True
      then have "t_state (tsk s' t) \<noteq> TASK_READY" using t(1) by blast
      then have "t = current_task (cpu s' c)" using m True by metis
      then show ?thesis using c p by auto
    next
      case False
      then show ?thesis using nl [OF i(7)] t unfolding not_lost_def by blast
    qed
  qed
  then show ?thesis
    unfolding sys_inv_def pending_def [symmetric]
    using q' ok' ready own i(1,6) st p(3) by (auto simp: pending_def same_tasks_def)
qed

lemma no_current:
  assumes "current_task (cpu s c) = NULL"
  shows "sched_schedule c rsp s = s" "sched_run_ready c rsp s = s" "sched_preempt c locked frame rsp s = s"
  using assms by (auto simp: sched_schedule_def sched_run_ready_def sched_preempt_def Let_def)

lemma sys_schedule:
  assumes inv: "sys_inv T y" and c: "percpu_get c (sch y)" and rsp: "rsp \<noteq> 0"
  shows "sys_inv T (y\<lparr>sch := sched_schedule c rsp (sch y), leaving := leaving y - {current_task (cpu (sch y) c)}\<rparr>)"
    and "sys_inv T (y\<lparr>sch := sched_run_ready c rsp (sch y)\<rparr>)" and "sys_inv T (y\<lparr>sch := sched_preempt c locked frame rsp (sch y)\<rparr>)"
proof -
  note i = sys_invD [OF inv]
  obtain q where q: "rqs_ok q (sch y)" using i(2) by blast
  have all: "sys_inv T (y\<lparr>sch := sched_schedule c rsp (sch y), leaving := leaving y - {current_task (cpu (sch y) c)}\<rparr>) \<and>
    sys_inv T (y\<lparr>sch := sched_run_ready c rsp (sch y)\<rparr>) \<and> sys_inv T (y\<lparr>sch := sched_preempt c locked frame rsp (sch y)\<rparr>)"
  proof (cases "current_task (cpu (sch y) c) = NULL")
    case True
    then show ?thesis using inv unfolding no_current [OF True] by (auto simp: sys_inv_def pending_def)
  next
    case False
    note r = sched_schedule_result [OF _ i(3) c False i(1) rsp] sched_run_ready_result [OF _ i(3) c False i(1) rsp]
      sched_preempt_result [OF _ i(3) c False i(1) rsp, of _ locked frame]
    note m = schedule_moves [OF q i(3) c False i(1) rsp]
    have "sys_inv T (y\<lparr>sch := sched_schedule c rsp (sch y), leaving := leaving y - {current_task (cpu (sch y) c)}\<rparr>)"
      by (rule sys_sched [OF inv c refl _ m(1)]) (use r(1) m(4) in blast)+
    moreover have "sys_inv T (y\<lparr>sch := sched_run_ready c rsp (sch y), leaving := leaving y\<rparr>)"
      by (rule sys_sched [OF inv c refl _ m(2)]) (use r(2) in blast)+
    moreover have "sys_inv T (y\<lparr>sch := sched_preempt c locked frame rsp (sch y), leaving := leaving y\<rparr>)"
      by (rule sys_sched [OF inv c refl _ m(3)]) (use r(3) in blast)+
    ultimately show ?thesis by simp
  qed
  then show "sys_inv T (y\<lparr>sch := sched_schedule c rsp (sch y), leaving := leaving y - {current_task (cpu (sch y) c)}\<rparr>)"
    and "sys_inv T (y\<lparr>sch := sched_run_ready c rsp (sch y)\<rparr>)" and "sys_inv T (y\<lparr>sch := sched_preempt c locked frame rsp (sch y)\<rparr>)"
    by blast+
qed

text \<open>A write to the state of one task that marks it ready or blocked.\<close>

lemma sys_write:
  assumes inv: "sys_inv T y" and s': "s' = upd_task t f (sch y)"
    and f: "rq_next (f (tsk (sch y) t)) = rq_next (tsk (sch y) t)" "on_cpu (f (tsk (sch y) t)) = on_cpu (tsk (sch y) t)"
      "on_rq (f (tsk (sch y) t)) = on_rq (tsk (sch y) t)" "has_exited (f (tsk (sch y) t)) = has_exited (tsk (sch y) t)"
      "sp (f (tsk (sch y) t)) = sp (tsk (sch y) t)"
    and st: "t_state (f (tsk (sch y) t)) = TASK_READY \<or> t_state (f (tsk (sch y) t)) = TASK_BLOCKED \<and> \<not> on_rq (tsk (sch y) t)"
    and L: "leaving y \<subseteq> L"
    and own: "\<And>c. percpu_get c (sch y) \<Longrightarrow> current_task (cpu (sch y) c) = t \<Longrightarrow> t \<noteq> NULL \<Longrightarrow> t \<in> L \<or> has_exited (tsk (sch y) t)"
    and P: "pending y \<subseteq> pending y'" "\<And>u. u \<in> pending y' \<Longrightarrow> u \<in> pending y \<or> can_queue (sch y) u"
      "t_state (f (tsk (sch y) t)) = TASK_READY \<Longrightarrow> t \<in> pending y' \<or> (\<exists>c. percpu_get c (sch y) \<and> current_task (cpu (sch y) c) = t)"
    and y': "sch y' = s'" "leaving y' = L"
  shows "sys_inv T y'"
proof -
  let ?s = "sch y"
  note i = sys_invD [OF inv]
  obtain q where q: "rqs_ok q ?s" using i(2) by blast
  have g: "percpu_get d s' = percpu_get d ?s" "cpu s' = cpu ?s" "is_idle_task s' = is_idle_task ?s" "g_smp_initialized s' = g_smp_initialized ?s" for d
    by (simp_all add: s')
  have u: "rq_next (tsk s' a) = rq_next (tsk ?s a)" "on_cpu (tsk s' a) = on_cpu (tsk ?s a)" "on_rq (tsk s' a) = on_rq (tsk ?s a)"
    "has_exited (tsk s' a) = has_exited (tsk ?s a)" "sp (tsk s' a) = sp (tsk ?s a)"
    "t_state (tsk s' a) = (if a = t then t_state (f (tsk ?s t)) else t_state (tsk ?s a))" for a
    using f by (simp_all add: s')
  have cq: "can_queue s' a = can_queue ?s a" for a by (simp add: can_queue_def u g)
  have "rqs_ok q s'" by (rule rqs_ok_same [OF q]) (use rqs_okD(2,3) [OF q] st in \<open>auto simp: u g\<close>)
  moreover have "cpus_ok s'" using i(3) st unfolding cpus_ok_def Let_def by (auto simp: u g)
  moreover have "t_state (tsk s' a) = TASK_READY" if "on_rq (tsk s' a)" for a using that i(4) [of a] st by (auto simp: u)
  moreover have "a \<in> L \<or> has_exited (tsk s' a)"
    if "percpu_get c s'" "current_task (cpu s' c) = a" "a \<noteq> NULL" "t_state (tsk s' a) \<in> {TASK_READY, TASK_BLOCKED}" for a c
    using that i(5) [of c a] own [of c] L by (auto simp: u g split: if_splits)
  moreover have "not_lost (T - {a \<in> pending y'. t_state (tsk s' a) = TASK_READY}) s'"
    unfolding not_lost_def
  proof (intro ballI impI)
    fix a assume a: "a \<in> T - {a \<in> pending y'. t_state (tsk s' a) = TASK_READY}" "runnable s' a"
    show "on_rq (tsk s' a) \<or> (\<exists>d. percpu_get d s' \<and> current_task (cpu s' d) = a)"
    proof (cases "a = t")
      case True
      then have "t_state (f (tsk ?s t)) = TASK_READY" using a(2) st by (auto simp: runnable_def u)
      then show ?thesis using P(3) a(1) True by (auto simp: u g)
    next
      case False
      then have "runnable ?s a" "a \<in> T - {a \<in> pending y. t_state (tsk ?s a) = TASK_READY}" using a P(1) by (auto simp: runnable_def u g)
      then show ?thesis using i(7) unfolding not_lost_def by (simp add: u g)
    qed
  qed
  moreover have "can_queue s' a" if "a \<in> pending y'" for a using P(2) [OF that] i(6) cq by blast
  ultimately show ?thesis unfolding sys_inv_def y' using i(1) g(4) by auto
qed

text \<open>A step of a waker that changes nothing but its program counter.\<close>

lemma pending_upd: "pending (y\<lparr>wk := (wk y)(i := x)\<rparr>) = pending y" if "to_wake x = to_wake (wk y i)"
proof -
  have "set (to_wake (((wk y)(i := x)) j)) = set (to_wake (wk y j))" for j using that by simp
  then show ?thesis by (simp add: pending_def del: fun_upd_apply)
qed

lemma sys_counter: "sys_inv T y \<Longrightarrow> to_wake x = to_wake (wk y i) \<Longrightarrow> sys_inv T (y\<lparr>wk := (wk y)(i := x)\<rparr>)"
  using pending_upd [of x y i] unfolding sys_inv_def by simp

lemma pending_mem: "u \<in> set (to_wake (wk y i)) \<Longrightarrow> u \<in> pending y"
  by (auto simp: pending_def)

lemma pending_fun_upd: "pending (y\<lparr>sch := s, wk := (wk y)(i := x)\<rparr>) = set (to_wake x) \<union> (\<Union>j \<in> - {i}. set (to_wake (wk y j)))"
  by (auto simp: pending_def split: if_splits)

lemma pending_split: "pending y = set (to_wake (wk y i)) \<union> (\<Union>j \<in> - {i}. set (to_wake (wk y j)))"
  by (auto simp: pending_def)

text \<open>Putting a woken task on its queue: only if it is still ready.\<close>

lemma enqueue_not_ready:
  assumes "can_queue s t" and "t_state (tsk s t) \<noteq> TASK_READY"
  shows "sched_enqueue_ready me t s = s \<or> (\<exists>e. sched_enqueue_ready me t s = log_event e s)"
  using assms by (auto simp: sched_enqueue_ready_def can_queue_def Let_def)

lemma sys_enqueue:
  assumes inv: "sys_inv T y" and w: "wk y i = Enqueue (t # ws)"
  shows "sys_inv T (y\<lparr>sch := sched_enqueue_ready me t (sch y), wk := (wk y)(i := Enqueue ws)\<rparr>)"
proof -
  let ?s = "sch y" and ?s' = "sched_enqueue_ready me t (sch y)" and ?y = "y\<lparr>sch := sched_enqueue_ready me t (sch y), wk := (wk y)(i := Enqueue ws)\<rparr>"
  note i = sys_invD [OF inv]
  have tp: "t \<in> pending y" using w by (intro pending_mem [of t y i]) simp
  then have can: "can_queue ?s t" by (rule i(6))
  note f = enqueue_ready_fields [OF can, where me = me]
  obtain q where q: "rqs_ok q ?s" using i(2) by blast
  have on: "on_rq (tsk ?s' a) = (a = t \<and> t_state (tsk ?s t) = TASK_READY \<or> on_rq (tsk ?s a))" for a
    using enqueue_ready_on_rq [OF q can, of me a] enqueue_not_ready [OF can, of me]
    by (cases "t_state (tsk ?s t) = TASK_READY") (auto simp: log_event_def)
  have "\<exists>q. rqs_ok q ?s'"
  proof (cases "t_state (tsk ?s t) = TASK_READY")
    case True
    then show ?thesis using sched_enqueue_ready_ok [OF q _ _ True, of me] can unfolding can_queue_def by blast
  next
    case False
    then show ?thesis using enqueue_not_ready [OF can, of me] q by auto
  qed
  moreover have "cpus_ok ?s'"
    by (rule cpus_ok_same [OF i(3)]) (use can i(3) in \<open>auto simp: same_tasks_def f on can_queue_def cpus_ok_def\<close>)
  moreover have cq: "can_queue ?s' a = can_queue ?s a" for a by (simp add: can_queue_def f)
  moreover have P: "pending ?y \<subseteq> pending y" "pending y \<subseteq> insert t (pending ?y)"
    using pending_split [of y i] w by (auto simp: pending_fun_upd)
  moreover have "not_lost (T - {a \<in> pending ?y. t_state (tsk ?s' a) = TASK_READY}) ?s'"
    unfolding not_lost_def
  proof (intro ballI impI)
    fix a assume a: "a \<in> T - {a \<in> pending ?y. t_state (tsk ?s' a) = TASK_READY}" "runnable ?s' a"
    have r: "runnable ?s a" using a(2) by (simp add: runnable_def f)
    show "on_rq (tsk ?s' a) \<or> (\<exists>d. percpu_get d ?s' \<and> current_task (cpu ?s' d) = a)"
    proof (cases "a = t \<and> t_state (tsk ?s t) = TASK_READY")
      case False
      then have "a \<in> T - {a \<in> pending y. t_state (tsk ?s a) = TASK_READY}" using a(1) P(2) by (auto simp: f)
      then show ?thesis using i(7) r unfolding not_lost_def by (simp add: on f)
    qed (simp add: on)
  qed
  moreover have "\<forall>c a. percpu_get c ?s' \<and> current_task (cpu ?s' c) = a \<and> a \<noteq> NULL \<and> t_state (tsk ?s' a) \<in> {TASK_READY, TASK_BLOCKED} \<longrightarrow>
      a \<in> leaving y \<or> has_exited (tsk ?s' a)"
    using inv unfolding sys_inv_def f by blast
  moreover have "t_state (tsk ?s' a) = TASK_READY" if "on_rq (tsk ?s' a)" for a using that i(4) [of a] by (auto simp: on f)
  ultimately show ?thesis unfolding sys_inv_def using i(1,6) by (auto simp: f(12))
qed

lemma sys_resume:
  assumes inv: "sys_inv T y" and s': "s' = after_switch c (sch y) \<or> s' = after_preempt c (sch y)"
  shows "sys_inv T (y\<lparr>sch := s'\<rparr>)"
proof -
  note u = resume_unchanged [OF s'] and i = sys_invD [OF inv]
  have g: "g_smp_initialized s' = g_smp_initialized (sch y)"
    by (rule disjE [OF s']; simp add: after_switch_def after_preempt_def queue_deferred_def Let_def)
  obtain q where q: "rqs_ok q (sch y)" using i(2) by blast
  have "rqs_ok q s'" by (rule rqs_ok_same [OF q]) (use rqs_okD(2,3) [OF q] in \<open>auto simp: u\<close>)
  moreover have "cpus_ok s'" using i(3) unfolding cpus_ok_def Let_def by (simp add: u)
  ultimately show ?thesis
    using inv unfolding sys_inv_def not_lost_def runnable_def can_queue_def pending_def by (auto simp: u g)
qed

lemma sys_step_inv: "sys_step y y' \<Longrightarrow> sys_inv T y \<Longrightarrow> sys_inv T y'"
proof (induction rule: sys_step.induct)
  case (schedule c y rsp)
  then show ?case by (blast intro: sys_schedule)
next
  case (run_ready c y rsp)
  then show ?case by (blast intro: sys_schedule)
next
  case (preempt c y rsp locked frame)
  then show ?case by (blast intro: sys_schedule)
next
  case (resume y c)
  then show ?case by (blast intro: sys_resume)
next
  case (resume_preempted y c)
  then show ?case by (blast intro: sys_resume)
next
  case (yield c y cur)
  show ?case by (rule sys_write [OF yield.prems yield_write_def]) (use yield.hyps in \<open>auto simp: pending_def\<close>)
next
  case (block c y cur ch)
  have "\<not> on_rq (tsk (sch y) cur)" using sys_invD(4,5) [OF block.prems] block.hyps by blast
  then show ?case
    by (intro sys_write [OF block.prems block_current_def]) (use block.hyps in \<open>auto simp: pending_def\<close>)
next
  case (scan_start y i ch)
  then show ?case by (intro sys_counter) simp_all
next
  case (scan_next y i ch t ws ws' s')
  show ?case
  proof (cases "waiting (sch y) ch t")
    case False
    then have "ws' = ws" "s' = sch y" using scan_next.hyps(4) by (auto simp: wake_mark_def waiting_def)
    then show ?thesis using sys_counter [OF scan_next.prems, of "Scan ch (t_next (tsk s' t)) ws'" i] scan_next.hyps(1) by simp
  next
    case True
    then have m: "ws' = ws @ [t]" "s' = upd_task t (\<lambda>x. x\<lparr>t_state := TASK_READY, wait_channel := NULL\<rparr>) (sch y)"
      and t: "can_queue (sch y) t" "t_state (tsk (sch y) t) = TASK_BLOCKED"
      using scan_next.hyps(3,4) by (auto simp: wake_mark_def waiting_def)
    show ?thesis
      by (rule sys_write [OF scan_next.prems m(2)])
        (use pending_split [of y i] scan_next.hyps(1) m(1) t sys_invD(5) [OF scan_next.prems] in \<open>auto simp: pending_fun_upd\<close>)
  qed
next
  case (scan_end y i ch ws)
  then show ?case by (intro sys_counter) simp_all
next
  case (wake_task y i t)
  show ?case
    by (rule sys_write [OF wake_task.prems wake_write_def])
      (use pending_split [of y i] wake_task.hyps sys_invD(5) [OF wake_task.prems] in \<open>auto simp: pending_fun_upd\<close>)
next
  case (enqueue y i t ws me)
  then show ?case by (blast intro: sys_enqueue)
next
  case (wake_end y i)
  then show ?case by (intro sys_counter) simp_all
qed

section \<open>Calls that nobody interferes with\<close>

text \<open>
  The steps of one call, taken one after the other, are the function of theory \<^verbatim>\<open>Sched\<close>: a yield, and a wake-up of at
  most 16 tasks.
\<close>

lemma yield_alone:
  assumes "percpu_get c (sch y)" and "current_task (cpu (sch y) c) = cur" "cur \<noteq> NULL" "cur \<notin> leaving y"
    "\<not> has_exited (tsk (sch y) cur)" and "rsp \<noteq> 0"
  shows "sys_step\<^sup>*\<^sup>* y (y\<lparr>sch := sched_yield_in_kernel c rsp (sch y)\<rparr>)"
proof -
  let ?y = "y\<lparr>sch := yield_write cur (sch y), leaving := insert cur (leaving y)\<rparr>"
  have "sys_step y ?y" by (rule sys_step.yield [OF assms(1-5)])
  moreover have "sys_step ?y (?y\<lparr>sch := sched_schedule c rsp (sch ?y), leaving := leaving ?y - {current_task (cpu (sch ?y) c)}\<rparr>)"
    by (rule sys_step.schedule) (use assms in \<open>simp_all add: yield_write_def\<close>)
  moreover have "?y\<lparr>sch := sched_schedule c rsp (sch ?y), leaving := leaving ?y - {current_task (cpu (sch ?y) c)}\<rparr> =
      y\<lparr>sch := sched_yield_in_kernel c rsp (sch y)\<rparr>"
    using assms(2-4) by (simp add: sched_yield_in_kernel_def Let_def) (simp add: yield_write_def)
  ultimately show ?thesis by (metis converse_rtranclp_into_rtranclp rtranclp.rtrancl_refl)
qed

lemma scan_alone:
  assumes "chained (\<lambda>t. t_next (tsk s t)) h ts" and "\<forall>t \<in> set ts. waiting s ch t \<longrightarrow> can_queue s t"
    and "length ws + length (filter (waiting s ch) ts) \<le> 16"
  shows "\<exists>ws' s'. wake_loop ch h ws s = Some (ws', s') \<and>
    sys_step\<^sup>*\<^sup>* (y\<lparr>sch := s, wk := w(i := Scan ch h ws)\<rparr>) (y\<lparr>sch := s', wk := w(i := Scan ch NULL ws')\<rparr>)"
  using assms
proof (induction ts arbitrary: h ws s)
  case Nil
  then show ?case by (simp add: wake_loop.simps)
next
  case (Cons t ts)
  have h: "h = t" "t \<noteq> NULL" and ch: "chained (\<lambda>t. t_next (tsk s t)) (t_next (tsk s t)) ts" using Cons.prems by simp_all
  have d: "t \<notin> set ts" using chained_distinct [OF Cons.prems(1)] by simp
  obtain ws1 s1 where m: "wake_mark ch t ws s = (ws1, s1)" by (cases "wake_mark ch t ws s")
  have f: "t_next (tsk s1 a) = t_next (tsk s a)" "a \<noteq> t \<Longrightarrow> tsk s1 a = tsk s a" "on_cpu (tsk s1 a) = on_cpu (tsk s a)"
    "percpu_get c s1 = percpu_get c s" "is_idle_task s1 = is_idle_task s" for a c
    using m by (auto simp: wake_mark_def split: if_splits)
  have wt: "waiting s1 ch a = waiting s ch a" "can_queue s1 a = can_queue s a" if "a \<noteq> t" for a
    using f(2) [OF that] f(3-5) by (simp_all add: waiting_def can_queue_def)
  have flt: "filter (waiting s1 ch) ts = filter (waiting s ch) ts" by (rule filter_cong) (use d wt in \<open>metis+\<close>)
  have "length ws1 + length (filter (waiting s1 ch) ts) \<le> 16"
  proof -
    have "ws1 = (if waiting s ch t \<and> length ws < 16 then ws @ [t] else ws)" using m by (auto simp: wake_mark_def waiting_def split: if_splits)
    then show ?thesis using Cons.prems(3) unfolding flt by (cases "waiting s ch t") auto
  qed
  moreover have "chained (\<lambda>t. t_next (tsk s1 t)) (t_next (tsk s1 t)) ts" using ch by (simp add: f(1))
  moreover have "\<forall>a \<in> set ts. waiting s1 ch a \<longrightarrow> can_queue s1 a" using Cons.prems(2) d wt by (metis list.set_intros(2))
  ultimately obtain ws' s' where IH: "wake_loop ch (t_next (tsk s1 t)) ws1 s1 = Some (ws', s')"
    "sys_step\<^sup>*\<^sup>* (y\<lparr>sch := s1, wk := w(i := Scan ch (t_next (tsk s1 t)) ws1)\<rparr>) (y\<lparr>sch := s', wk := w(i := Scan ch NULL ws')\<rparr>)"
    using Cons.IH by blast
  have "sys_step (y\<lparr>sch := s, wk := w(i := Scan ch t ws)\<rparr>) (y\<lparr>sch := s1, wk := w(i := Scan ch (t_next (tsk s1 t)) ws1)\<rparr>)"
    using sys_step.scan_next [of "y\<lparr>sch := s, wk := w(i := Scan ch t ws)\<rparr>" i ch t ws ws1 s1] h(2) m Cons.prems(2,3)
    by (auto split: if_splits)
  moreover have "wake_loop ch h ws s = Some (ws', s')" using h m IH(1) by (subst wake_loop.simps) simp
  ultimately show ?case using IH(2) h(1) by (meson converse_rtranclp_into_rtranclp)
qed

lemma enqueue_alone:
  "sys_step\<^sup>*\<^sup>* (y\<lparr>sch := s, wk := w(i := Enqueue ws)\<rparr>) (y\<lparr>sch := fold (sched_enqueue_ready me) ws s, wk := w(i := Idle)\<rparr>)"
proof (induction ws arbitrary: s)
  case Nil
  have "sys_step (y\<lparr>sch := s, wk := w(i := Enqueue [])\<rparr>) (y\<lparr>sch := s, wk := w(i := Idle)\<rparr>)"
    using sys_step.wake_end [of "y\<lparr>sch := s, wk := w(i := Enqueue [])\<rparr>" i] by simp
  then show ?case unfolding fold_simps by (rule r_into_rtranclp)
next
  case (Cons t ws)
  have "sys_step (y\<lparr>sch := s, wk := w(i := Enqueue (t # ws))\<rparr>) (y\<lparr>sch := sched_enqueue_ready me t s, wk := w(i := Enqueue ws)\<rparr>)"
    using sys_step.enqueue [of "y\<lparr>sch := s, wk := w(i := Enqueue (t # ws))\<rparr>" i t ws me] by simp
  then show ?case unfolding fold_simps using Cons.IH [of "sched_enqueue_ready me t s"] by (rule converse_rtranclp_into_rtranclp)
qed

lemma wake_alone:
  assumes "wk y i = Idle" and "\<forall>j. \<not> scanning (wk y j)" and "ch \<noteq> NULL" and l: "task_list (sch y) ts"
    and "\<forall>t \<in> set ts. waiting (sch y) ch t \<longrightarrow> can_queue (sch y) t" and "length (filter (waiting (sch y) ch) ts) \<le> 16"
    and run: "sched_wake_channel me ch (sch y) = Some s'"
  shows "sys_step\<^sup>*\<^sup>* y (y\<lparr>sch := s'\<rparr>)"
proof -
  obtain ws s1 where a: "wake_loop ch (g_task_list_head (sch y)) [] (sch y) = Some (ws, s1)"
    and b: "sys_step\<^sup>*\<^sup>* (y\<lparr>sch := sch y, wk := (wk y)(i := Scan ch (g_task_list_head (sch y)) [])\<rparr>)
      (y\<lparr>sch := s1, wk := (wk y)(i := Scan ch NULL ws)\<rparr>)"
    using scan_alone [OF l [unfolded task_list_def] assms(5), of "[]", where y = y and w = "wk y" and i = i] assms(6) by auto
  have "sys_step y (y\<lparr>wk := (wk y)(i := Scan ch (g_task_list_head (sch y)) [])\<rparr>)" by (rule sys_step.scan_start [OF assms(1-3)])
  then have "sys_step\<^sup>*\<^sup>* y (y\<lparr>sch := s1, wk := (wk y)(i := Scan ch NULL ws)\<rparr>)" using b by (simp add: converse_rtranclp_into_rtranclp)
  moreover have "sys_step (y\<lparr>sch := s1, wk := (wk y)(i := Scan ch NULL ws)\<rparr>) (y\<lparr>sch := s1, wk := (wk y)(i := Enqueue ws)\<rparr>)"
    using sys_step.scan_end [of "y\<lparr>sch := s1, wk := (wk y)(i := Scan ch NULL ws)\<rparr>" i ch ws] by simp
  moreover have "sys_step\<^sup>*\<^sup>* (y\<lparr>sch := s1, wk := (wk y)(i := Enqueue ws)\<rparr>) (y\<lparr>sch := s', wk := (wk y)(i := Idle)\<rparr>)"
    using enqueue_alone [where y = y and s = s1 and w = "wk y" and i = i and ws = ws and me = me] run a assms(3) by (simp add: sched_wake_channel_def)
  moreover have "y\<lparr>sch := s', wk := (wk y)(i := Idle)\<rparr> = y\<lparr>sch := s'\<rparr>" using assms(1) by (simp add: fun_upd_idem)
  ultimately show ?thesis by (metis (no_types, lifting) rtranclp.rtrancl_into_rtrancl rtranclp_trans)
qed

end
