(* ===== verification/Scheduler.thy ===== *)
theory Scheduler
  imports Balance Interleaving
begin

text \<open>
  The properties of the scheduler: run queues are first-in first-out queues, the scheduling functions pick
  the first task that can run, every interleaving of steps keeps the invariant, tasks that yield take turns, and what waking
  and load balancing do, with the two cases in which they go wrong.
\<close>

section \<open>An example state\<close>

text \<open>Two processors with their idle tasks; user tasks from address \<^verbatim>\<open>0x1000\<close> on.\<close>

definition demo_task :: "nat \<Rightarrow> task_state \<Rightarrow> addr \<Rightarrow> task" where
  "demo_task c st nxt = \<lparr>sp = 8, t_state = st, privilege = TASK_USER, t_next = nxt, rq_next = 0, on_cpu = c,
     cpu_affinity = 0, on_rq = False, need_resched = False, remaining_ticks = 2, preempt_frame = 0,
     has_exited = False, wait_channel = 0, wakeup_tick = 0, exit_signal = 17\<rparr>"

definition demo_cpu :: "addr \<Rightarrow> addr \<Rightarrow> percpu" where
  "demo_cpu cur idle = \<lparr>current_task = cur, idle_task = idle, runqueue_head = 0, runqueue_tail = 0, runqueue_length = 0,
     context_switches = 0, deferred_zombie = 0, in_context_switch = False\<rparr>"

definition demo_idle :: sched where
  "demo_idle = \<lparr>tsk = (\<lambda>t. if t = 0x200 then demo_task 1 TASK_RUNNING 0
                       else if t = 0x1000 then demo_task 0 TASK_RUNNING 0x2000
                       else if t = 0x2000 then demo_task 0 TASK_READY 0x3000
                       else if t = 0x3000 then demo_task 0 TASK_READY 0
                       else demo_task 0 TASK_STOPPED 0),
     cpu = (\<lambda>c. if c = 0 then demo_cpu 0x1000 0x100 else demo_cpu 0x200 0x200),
     cpu_present = (\<lambda>c. c < 2), cpus_online = 2, g_task_list_head = 0x1000, g_idle_task = 0x100, g_bootstrap_task = 0x50,
     g_ap_idle_tasks = [0x200], g_dead_threads = [], g_smp_initialized = True, g_total_schedules = 0, events = []\<rparr>"

lemma demo_idle_ok: "rqs_ok (\<lambda>_. []) demo_idle" "cpus_ok demo_idle"
proof -
  show "rqs_ok (\<lambda>_. []) demo_idle"
    by (rule rqs_okI) (auto simp: demo_idle_def demo_cpu_def demo_task_def queue_ok_def split: if_splits)
  show "cpus_ok demo_idle"
  proof -
    have "percpu_get c demo_idle \<Longrightarrow> c = 0 \<or> c = 1" for c by (auto simp: percpu_get_def demo_idle_def)
    then show ?thesis unfolding cpus_ok_def Let_def
      by (auto simp: is_idle_task_def demo_idle_def demo_cpu_def demo_task_def)
  qed
qed

text \<open>Two stopped tasks become ready and go to the queue of processor 0.\<close>

definition demo_queue :: sched where
  "demo_queue = rq_enqueue_locked 0 0x3000 (rq_enqueue_locked 0 0x2000 demo_idle)"

lemma demo_queue_ok: "rqs_ok ((\<lambda>_. [])(0 := [0x2000, 0x3000])) demo_queue"
proof -
  have "rqs_ok ((\<lambda>_. [])(0 := [] @ [0x2000])) (rq_enqueue_locked 0 0x2000 demo_idle)"
    by (rule rq_enqueue_ok [OF demo_idle_ok(1)]) (simp_all add: demo_idle_def demo_task_def percpu_get_def MAX_CPUS_def)
  from rq_enqueue_ok [OF this, of "0x3000" 0] show ?thesis
    unfolding demo_queue_def
    by (simp add: demo_idle_def demo_task_def percpu_get_def MAX_CPUS_def rq_enqueue_locked_def Let_def demo_cpu_def upd_task_def upd_cpu_def)
qed

lemma demo_queue_inv: "cpus_ok demo_queue" "sched_inv {0x1000, 0x2000, 0x3000} demo_queue" "task_list demo_queue [0x1000, 0x2000, 0x3000]"
proof -
  have on: "on_rq (tsk demo_queue t) \<longleftrightarrow> t = 0x2000 \<or> t = 0x3000" for t
    by (simp add: demo_queue_def demo_idle_def demo_task_def rq_enqueue_locked_def Let_def demo_cpu_def upd_task_def upd_cpu_def)
  have f: "percpu_get c demo_queue = percpu_get c demo_idle" "is_idle_task demo_queue = is_idle_task demo_idle"
    "current_task (cpu demo_queue c) = current_task (cpu demo_idle c)" for c
    by (simp_all add: demo_queue_def)
  have st: "same_tasks demo_idle demo_queue" by (simp add: same_tasks_def demo_queue_def)
  show ok: "cpus_ok demo_queue"
  proof (rule cpus_ok_same [OF demo_idle_ok(2) st])
    show "\<not> on_rq (tsk demo_queue t)" if "is_idle_task demo_idle t" for t
      using that unfolding on by (auto simp: is_idle_task_def demo_idle_def)
  qed (simp_all add: demo_queue_def)
  have "percpu_get 0 demo_idle \<and> current_task (cpu demo_idle 0) = 0x1000"
    by (simp add: percpu_get_def demo_idle_def demo_cpu_def MAX_CPUS_def)
  then have "percpu_get 0 demo_queue \<and> current_task (cpu demo_queue 0) = 0x1000" by (simp only: f)
  then have "not_lost {0x1000, 0x2000, 0x3000} demo_queue" using on by (auto simp: not_lost_def)
  then show "sched_inv {0x1000, 0x2000, 0x3000} demo_queue" using ok demo_queue_ok unfolding sched_inv_def by blast
  show "task_list demo_queue [0x1000, 0x2000, 0x3000]" unfolding task_list_def by code_simp
qed

lemma demo_queue_facts:
  "percpu_get 0 demo_queue" "percpu_get 1 demo_queue" "current_task (cpu demo_queue 0) = 0x1000" "g_smp_initialized demo_queue"
  "\<forall>a \<in> {0x1000, 0x2000, 0x3000}. turn_ready demo_queue a"
proof -
  have "percpu_get 0 demo_idle" "percpu_get 1 demo_idle" by (simp_all add: percpu_get_def demo_idle_def MAX_CPUS_def)
  then show "percpu_get 0 demo_queue" "percpu_get 1 demo_queue" by (simp_all add: demo_queue_def)
  have "\<forall>a \<in> {0x1000, 0x2000, 0x3000}. turn_ready demo_idle a"
    by (simp add: demo_idle_def demo_task_def turn_ready_def is_idle_task_def)
  then show "\<forall>a \<in> {0x1000, 0x2000, 0x3000}. turn_ready demo_queue a" by (simp add: turn_ready_def demo_queue_def)
qed (simp_all add: demo_queue_def, simp_all add: demo_idle_def demo_cpu_def)

section \<open>Run queues\<close>

text \<open>C19: The linked run queues behave as first-in first-out queues, one per processor: enqueueing a task that is on
  no queue and not running appends it to the queue of its processor; dequeueing returns the first task and
  removes it, or null when the queue is empty; \<^verbatim>\<open>rq_remove\<close> always ends and takes the task off whatever
  queue holds it, wherever it stands. Links, tail pointer, length counter and \<^verbatim>\<open>on_rq\<close> flags stay
  consistent for all processors.\<close>

theorem run_queues_fifo:
  assumes "rqs_ok q s"
  shows "(t \<noteq> NULL \<and> \<not> on_rq (tsk s t) \<and> t_state (tsk s t) \<noteq> TASK_RUNNING \<and> on_cpu (tsk s t) = c \<and> percpu_get c s \<longrightarrow>
      rqs_ok (q(c := q c @ [t])) (rq_enqueue_locked c t s)) \<and>
    (case q c of [] \<Rightarrow> rq_dequeue_locked c s = (NULL, s)
     | u # us \<Rightarrow> \<exists>s'. rq_dequeue_locked c s = (u, s') \<and> rqs_ok (q(c := us)) s') \<and>
    (\<exists>s'. rq_remove t s = Some s' \<and> rqs_ok (\<lambda>d. remove1 t (q d)) s')"
proof (intro conjI impI)
  show "case q c of [] \<Rightarrow> rq_dequeue_locked c s = (NULL, s)
     | u # us \<Rightarrow> \<exists>s'. rq_dequeue_locked c s = (u, s') \<and> rqs_ok (q(c := us)) s'"
  proof (cases "q c")
    case (Cons u us)
    show ?thesis by (rule rq_dequeue_ok [OF assms Cons]) (auto simp: Cons)
  qed (use rq_dequeue_empty [OF assms, of c] in simp)
  show "\<exists>s'. rq_remove t s = Some s' \<and> rqs_ok (\<lambda>d. remove1 t (q d)) s'"
    by (rule rq_remove_ok [OF assms, of t]) blast
qed (use rq_enqueue_ok [OF assms, of t c] in blast)

theorem run_queues_fifo_witness:
  "rqs_ok ((\<lambda>_. [])(0 := [0x2000, 0x3000])) demo_queue \<and>
   (\<exists>s'. rq_dequeue_locked 0 demo_queue = (0x2000, s') \<and> rqs_ok ((\<lambda>_. [])(0 := [0x3000])) s')"
  using run_queues_fifo [OF demo_queue_ok, of 0 0] demo_queue_ok by simp

section \<open>The choice of the next task\<close>

text \<open>C5: A call of \<^verbatim>\<open>sched_schedule\<close>, and a timer preemption that is not suppressed, run the task that the
  abstract choice \<open>next_task\<close> names: the first task of the local queue if it can run, else the idle task; a
  dequeued task without a saved stack goes back to the end, a zombie is dropped. The task switched out is
  appended to the queue when it can still run, no other queue and no other processor's current task changes,
  and no runnable task is lost. This holds for every processor and every consistent state.\<close>

theorem schedule_runs_next:
  assumes "rqs_ok q s" and "cpus_ok s" and "percpu_get c s" and "current_task (cpu s c) \<noteq> NULL" and "g_smp_initialized s" and "rsp \<noteq> 0"
    and "s' = sched_schedule c rsp s \<or>
      s' = sched_preempt c True frame rsp s \<and> \<not> in_context_switch (cpu s c) \<and> \<not> is_bootstrap_task s (current_task (cpu s c))"
  shows "rqs_ok (q(c := snd (next_task True c s (q c)))) s' \<and> cpus_ok s' \<and>
    current_task (cpu s' c) = fst (next_task True c s (q c)) \<and>
    (\<forall>d. d \<noteq> c \<longrightarrow> current_task (cpu s' d) = current_task (cpu s d)) \<and> (not_lost T s \<longrightarrow> not_lost T s')"
  using sched_schedule_result [OF assms(1-6)] sched_preempt_result [OF assms(1-6), of True frame] assms(7)
  unfolding sched_result_def by auto

theorem schedule_runs_next_witness:
  "current_task (cpu (sched_schedule 0 8 demo_queue) 0) = 0x2000 \<and>
   rqs_ok ((\<lambda>_. [])(0 := [0x3000, 0x1000])) (sched_schedule 0 8 demo_queue)"
proof -
  have n: "next_task True 0 demo_queue [0x2000, 0x3000] = (0x2000, [0x3000, 0x1000])" by code_simp
  show ?thesis
    using schedule_runs_next [OF demo_queue_ok demo_queue_inv(1), of 0 8 "sched_schedule 0 8 demo_queue"] demo_queue_facts
    by (simp add: n)
qed

section \<open>Invariant of all steps\<close>

text \<open>A system in a given state of the scheduler, in which no task is being woken and none is about to leave.\<close>

definition at_rest :: "sched \<Rightarrow> system" where
  "at_rest s = \<lparr>sch = s, wk = (\<lambda>_. Idle), leaving = {}\<rparr>"

lemma at_rest_fields [simp]: "sch (at_rest s) = s" "wk (at_rest s) i = Idle" "leaving (at_rest s) = {}" "pending (at_rest s) = {}"
  "(at_rest s)\<lparr>sch := s'\<rparr> = at_rest s'"
  by (simp_all add: at_rest_def pending_def)

lemma at_rest_inv:
  assumes "sched_inv T s" and "g_smp_initialized s" and "\<forall>t. on_rq (tsk s t) \<longrightarrow> t_state (tsk s t) = TASK_READY"
    and "\<forall>c. percpu_get c s \<longrightarrow> t_state (tsk s (current_task (cpu s c))) = TASK_RUNNING"
  shows "sys_inv T (at_rest s)"
  using assms unfolding sys_inv_def sched_inv_def by auto

lemma demo_rest: "sys_inv {0x1000, 0x2000, 0x3000} (at_rest demo_queue)"
proof (rule at_rest_inv [OF demo_queue_inv(2) demo_queue_facts(4)])
  show "\<forall>t. on_rq (tsk demo_queue t) \<longrightarrow> t_state (tsk demo_queue t) = TASK_READY"
    by (simp add: demo_queue_def demo_idle_def demo_task_def rq_enqueue_locked_def Let_def demo_cpu_def upd_task_def upd_cpu_def)
  have "current_task (cpu demo_queue c) = (if c = 0 then 0x1000 else 0x200)" for c
    by (simp add: demo_queue_def) (simp add: demo_idle_def demo_cpu_def)
  moreover have "t_state (tsk demo_queue t) = t_state (tsk demo_idle t)" for t by (simp add: demo_queue_def)
  ultimately show "\<forall>c. percpu_get c demo_queue \<longrightarrow> t_state (tsk demo_queue (current_task (cpu demo_queue c))) = TASK_RUNNING"
    by (simp add: demo_idle_def demo_task_def)
qed

text \<open>C1: Whatever the processors do - scheduling, preemption, resuming, and, in the separate sections and unlocked writes
  that they consist of, yielding, blocking on a channel, waking a task and waking all waiters of a channel, at most 16 - and
  in whatever order the steps of all of them interleave, the scheduler stays consistent: the run queues are well formed and
  hold only ready tasks, every idle task can run, every task that could run is on a queue, is the current task of a
  processor, or is ready and in the array of a wake-up that has still to put it on its queue, and no task is the current
  task of two processors. When no wake-up is under way no runnable task is off every queue and off every processor. Load
  balancing is not among the steps.\<close>

theorem scheduler_invariant:
  assumes "sys_step\<^sup>*\<^sup>* y y'" and "sys_inv T y"
  shows "sys_inv T y' \<and> (pending y' = {} \<longrightarrow> sched_inv T (sch y')) \<and>
    (\<forall>c d. percpu_get c (sch y') \<and> percpu_get d (sch y') \<and> current_task (cpu (sch y') c) = current_task (cpu (sch y') d) \<and>
       current_task (cpu (sch y') c) \<noteq> NULL \<longrightarrow> c = d)"
proof -
  have inv: "sys_inv T y'"
    using assms by (induction rule: rtranclp_induct) (auto intro: sys_step_inv)
  note i = sys_invD [OF inv]
  have "sched_inv T (sch y')" if "pending y' = {}" using i(2,3,7) that unfolding sched_inv_def by simp
  then show ?thesis using inv cpus_okD(7) [OF i(3)] by metis
qed

theorem scheduler_invariant_witness:
  "sys_step\<^sup>*\<^sup>* (at_rest demo_queue) (at_rest (sched_yield_in_kernel 0 8 demo_queue)) \<and>
   sched_inv {0x1000, 0x2000, 0x3000} (sched_yield_in_kernel 0 8 demo_queue)"
proof -
  have "\<not> has_exited (tsk demo_queue 0x1000)" by code_simp
  then have "sys_step\<^sup>*\<^sup>* (at_rest demo_queue) (at_rest (sched_yield_in_kernel 0 8 demo_queue))"
    using yield_alone [of 0 "at_rest demo_queue" "0x1000" 8] demo_queue_facts by simp
  then show ?thesis using scheduler_invariant [OF _ demo_rest] by fastforce
qed

section \<open>Turns\<close>

text \<open>C9: Tasks that yield take turns: when every task of the processor can run, the k-th task of the queue runs after k
  more calls of \<^verbatim>\<open>sched_yield_in_kernel\<close>, and the task that yielded first runs again after all the others.
  So every queued task runs within as many yields as the queue has tasks.\<close>

theorem yield_round_robin:
  assumes "rqs_ok q s" and "cpus_ok s" and "percpu_get c s" and "g_smp_initialized s" and "current_task (cpu s c) = cur"
    and "q c \<noteq> []" and "cur \<notin> set (q c)" and "\<forall>a \<in> set (cur # q c). turn_ready s a" and "rsp \<noteq> 0"
  shows "(\<forall>k \<le> length (q c). current_task (cpu ((sched_yield_in_kernel c rsp ^^ Suc k) s) c) = (q c @ [cur]) ! k) \<and>
    (\<forall>t \<in> set (q c). \<exists>n \<le> length (q c). current_task (cpu ((sched_yield_in_kernel c rsp ^^ n) s) c) = t)"
proof (intro conjI allI impI ballI)
  fix k assume "k \<le> length (q c)"
  then show "current_task (cpu ((sched_yield_in_kernel c rsp ^^ Suc k) s) c) = (q c @ [cur]) ! k" by (rule turns [OF assms])
next
  fix t assume "t \<in> set (q c)"
  then obtain k where k: "k < length (q c)" "q c ! k = t" by (meson in_set_conv_nth)
  then have "current_task (cpu ((sched_yield_in_kernel c rsp ^^ Suc k) s) c) = t" using turns [OF assms, of k] by (simp add: nth_append)
  then show "\<exists>n \<le> length (q c). current_task (cpu ((sched_yield_in_kernel c rsp ^^ n) s) c) = t" using k(1) Suc_leI by blast
qed

theorem yield_round_robin_witness:
  "current_task (cpu ((sched_yield_in_kernel 0 8 ^^ 2) demo_queue) 0) = 0x3000 \<and>
   current_task (cpu ((sched_yield_in_kernel 0 8 ^^ 3) demo_queue) 0) = 0x1000"
proof -
  have h: "((\<lambda>_. [])(0 := [0x2000, 0x3000])) (0 :: nat) \<noteq> []" "(0x1000 :: addr) \<notin> set (((\<lambda>_. [])(0 := [0x2000, 0x3000])) (0 :: nat))"
    "\<forall>a \<in> set (0x1000 # ((\<lambda>_. [])(0 := [0x2000, 0x3000])) (0 :: nat)). turn_ready demo_queue a"
    using demo_queue_facts(5) by simp_all
  have "(8 :: addr) \<noteq> 0" by simp
  note r = yield_round_robin [OF demo_queue_ok demo_queue_inv(1) demo_queue_facts(1,4,3) h this, THEN conjunct1, rule_format]
  show ?thesis using r [of 1] r [of 2] by (simp add: numeral_2_eq_2 numeral_3_eq_3)
qed

section \<open>Waking\<close>

text \<open>C10: \<^verbatim>\<open>sched_wake_channel\<close> on a channel with at most 16 waiters, each of which can be queued, returns. It makes every
  waiter ready, clears its channel and puts it on a run queue: the waiters that were on none join the queue of their
  processor at its end, in the order of the task list. Nothing else changes but the links of the queues and the interrupts
  that are sent, one for each waiter of another processor; the invariant of the scheduler is kept.\<close>

theorem wake_channel_correct:
  assumes "sched_inv T s" and "task_list s ts" and "ch \<noteq> NULL" and "\<forall>t \<in> set ts. waiting s ch t \<longrightarrow> can_queue s t"
    and "length (filter (waiting s ch) ts) \<le> 16"
  shows "\<exists>s'. sched_wake_channel me ch s = Some s' \<and> sched_inv T s' \<and>
    (\<forall>t. tsk s' t = (if t \<in> set ts \<and> waiting s ch t
       then (tsk s t)\<lparr>t_state := TASK_READY, wait_channel := NULL, on_rq := True, rq_next := rq_next (tsk s' t)\<rparr>
       else (tsk s t)\<lparr>rq_next := rq_next (tsk s' t)\<rparr>)) \<and>
    (\<forall>q. rqs_ok q s \<longrightarrow>
       rqs_ok (\<lambda>c. q c @ filter (\<lambda>t. waiting s ch t \<and> on_cpu (tsk s t) = c \<and> \<not> on_rq (tsk s t)) ts) s') \<and>
    s' = s\<lparr>tsk := tsk s', cpu := cpu s', events := rev (interrupts me (filter (waiting s ch) ts) s) @ events s\<rparr> \<and>
    (\<forall>c. cpu s' c = (cpu s c)\<lparr>runqueue_head := runqueue_head (cpu s' c), runqueue_tail := runqueue_tail (cpu s' c),
       runqueue_length := runqueue_length (cpu s' c)\<rparr>)"
  by (rule wake_channel_inv [OF assms, of me]) blast

theorem wake_channel_correct_witness:
  "waiting (block_current 0 0x7000 demo_queue) 0x7000 0x1000 \<and>
   (\<exists>s'. sched_wake_channel 1 0x7000 (block_current 0 0x7000 demo_queue) = Some s' \<and>
     t_state (tsk s' 0x1000) = TASK_READY \<and> on_rq (tsk s' 0x1000))"
proof -
  let ?s = "block_current 0 0x7000 demo_queue"
  have inv: "sched_inv {0x1000, 0x2000, 0x3000} ?s" by (rule block_inv [OF demo_queue_inv(2) demo_queue_facts(1)])
  have l: "task_list ?s [0x1000, 0x2000, 0x3000]" unfolding task_list_def by code_simp
  have w: "filter (waiting ?s 0x7000) [0x1000, 0x2000, 0x3000] = [0x1000]" "waiting ?s 0x7000 0x1000"
    "list_all (\<lambda>t. waiting ?s 0x7000 t \<longrightarrow> can_queue ?s t) [0x1000, 0x2000, 0x3000]" by code_simp+
  have "\<forall>t \<in> set [0x1000, 0x2000, 0x3000]. waiting ?s 0x7000 t \<longrightarrow> can_queue ?s t" using w(3) unfolding list_all_iff .
  moreover have "length (filter (waiting ?s 0x7000) [0x1000, 0x2000, 0x3000]) \<le> 16" unfolding w(1) by simp
  moreover have "(0x7000 :: addr) \<noteq> NULL" by simp
  ultimately obtain s' where "sched_wake_channel 1 0x7000 ?s = Some s'"
    and all: "\<forall>t. tsk s' t = (if t \<in> set [0x1000, 0x2000, 0x3000] \<and> waiting ?s 0x7000 t
      then (tsk ?s t)\<lparr>t_state := TASK_READY, wait_channel := NULL, on_rq := True, rq_next := rq_next (tsk s' t)\<rparr>
      else (tsk ?s t)\<lparr>rq_next := rq_next (tsk s' t)\<rparr>)"
    using wake_channel_correct [OF inv l, of "0x7000" 1] by blast
  moreover have t: "tsk s' 0x1000 = (tsk ?s 0x1000)\<lparr>t_state := TASK_READY, wait_channel := NULL, on_rq := True, rq_next := rq_next (tsk s' 0x1000)\<rparr>"
    using spec [OF all, of "0x1000"] w(2) by (simp only: list.set_intros(1) if_True simp_thms)
  moreover have "t_state (tsk s' 0x1000) = TASK_READY" "on_rq (tsk s' 0x1000)" by (subst t, simp)+
  ultimately show ?thesis using w(2) by blast
qed

text \<open>C39: When more than 16 tasks wait on the channel, \<^verbatim>\<open>sched_wake_channel\<close> makes them all ready but puts only the
  first 16 on a run queue. Each further task is ready, is on no queue and waits on no channel, so no later
  wake-up can reach it: if it is not running it is lost.\<close>

theorem wake_channel_loses_tasks:
  assumes "rqs_ok q s" and "task_list s ts" and "ch \<noteq> NULL" and "\<forall>t \<in> set ts. waiting s ch t \<longrightarrow> can_queue s t"
    and "t \<in> set (drop 16 (filter (waiting s ch) ts))" and "\<not> on_rq (tsk s t)" and "\<not> has_exited (tsk s t)"
    and "\<forall>c. current_task (cpu s c) \<noteq> t"
  shows "\<exists>s'. sched_wake_channel me ch s = Some s' \<and> t_state (tsk s' t) = TASK_READY \<and> \<not> on_rq (tsk s' t) \<and>
    (\<forall>ch'. \<not> waiting s' ch' t) \<and> \<not> not_lost {t} s'"
proof -
  let ?W = "filter (waiting s ch) ts"
  obtain s' where w: "sched_wake_channel me ch s = Some s'" and e: "enqueued (take 16 ?W) q (make_ready (set ?W) s) s'"
    by (rule wake_channel_eq [OF assms(1-4), of me])
  have "distinct ?W" using chained_distinct [OF assms(2) [unfolded task_list_def]] by simp
  then have "t \<notin> set (take 16 ?W)" using assms(5) set_take_disj_set_drop_if_distinct [of ?W 16 16] by blast
  moreover have tW: "t \<in> set ?W" using assms(5) by (rule in_set_dropD)
  then have "\<not> is_idle_task s t" using assms(4) unfolding can_queue_def by simp
  ultimately have "t_state (tsk s' t) = TASK_READY \<and> \<not> on_rq (tsk s' t) \<and> \<not> has_exited (tsk s' t) \<and> \<not> is_idle_task s' t \<and>
      (\<forall>c. current_task (cpu s' c) \<noteq> t)"
    using e tW assms(6-8) unfolding enqueued_def make_ready_fields by auto
  then show ?thesis using w unfolding not_lost_def runnable_def waiting_def by auto
qed

text \<open>Seventeen tasks that wait on one channel.\<close>

definition many_tasks :: "addr list" where
  "many_tasks = map (\<lambda>i. 0x10000 + 0x100 * of_nat i) [0..<17]"

definition demo_many :: sched where
  "demo_many = demo_idle\<lparr>g_task_list_head := 0x10000,
     tsk := (\<lambda>t. if t \<in> set many_tasks
                 then (demo_task 0 TASK_BLOCKED (if t = 0x11000 then 0 else t + 0x100))\<lparr>wait_channel := 0x7000\<rparr>
                 else tsk demo_idle t)\<rparr>"

theorem wake_channel_loses_tasks_witness:
  "\<exists>s'. sched_wake_channel 1 0x7000 demo_many = Some s' \<and> t_state (tsk s' 0x11000) = TASK_READY \<and>
     \<not> on_rq (tsk s' 0x11000) \<and> \<not> not_lost {0x11000} s'"
proof -
  have "\<not> on_rq (tsk demo_many t)" for t by (simp add: demo_many_def demo_idle_def demo_task_def)
  moreover have "cpu demo_many = cpu demo_idle" "percpu_get c demo_many = percpu_get c demo_idle" for c
    by (simp_all add: demo_many_def percpu_get_def)
  ultimately have q: "rqs_ok (\<lambda>_. []) demo_many"
    by (intro rqs_okI) (auto simp: queue_ok_def demo_idle_def demo_cpu_def)
  have l: "task_list demo_many many_tasks" unfolding task_list_def by code_simp
  have "list_all (\<lambda>t. waiting demo_many 0x7000 t \<longrightarrow> can_queue demo_many t) many_tasks" by code_simp
  then have can: "\<forall>t \<in> set many_tasks. waiting demo_many 0x7000 t \<longrightarrow> can_queue demo_many t" unfolding list_all_iff .
  have t: "0x11000 \<in> set (drop 16 (filter (waiting demo_many 0x7000) many_tasks))" by code_simp
  have "\<not> on_rq (tsk demo_many 0x11000)" "\<not> has_exited (tsk demo_many 0x11000)" by code_simp+
  moreover have "\<forall>c. current_task (cpu demo_many c) \<noteq> 0x11000" by (simp add: demo_many_def demo_idle_def demo_cpu_def)
  ultimately show ?thesis using wake_channel_loses_tasks [OF q l _ can t, of 1] by auto
qed

section \<open>Load balancing\<close>

text \<open>C20: \<^verbatim>\<open>sched_load_balance\<close> always returns. When the queue that looked longest is still longer than the
  own one under the locks, the first ready user task of it whose affinity allows the calling processor moves
  to the end of the own queue and is assigned to the own processor, all other tasks keeping their places; in
  every other case nothing changes. If the task is not the current task of any processor, the invariant of
  the scheduler is kept.\<close>

theorem load_balance_correct:
  assumes "rqs_ok q (locked s)" and "percpu_get me (locked s)" and "\<forall>c. length (q c) < 2 ^ 32 - 1"
    and "g_smp_initialized s" and "1 < cpus_online s"
    and "fst (busiest [0..<cpus_online s] me me (runqueue_length (cpu s me)) s) = b"
  shows "if b = me then sched_load_balance me locked s = Some s
    else case (if length (q me) < length (q b) then find (migratable me (locked s)) (q b) else None) of
        None \<Rightarrow> sched_load_balance me locked s = Some (locked s)
      | Some t \<Rightarrow> \<exists>s'. sched_load_balance me locked s = Some s' \<and>
          rqs_ok (q(b := remove1 t (q b), me := q me @ [t])) s' \<and> on_cpu (tsk s' t) = me \<and>
          (\<forall>T. sched_inv T (locked s) \<and> (\<forall>c. current_task (cpu (locked s) c) \<noteq> t) \<longrightarrow> sched_inv T s')"
proof -
  let ?s1 = "locked s"
  have run: "sched_load_balance me locked s =
      (if b = me then Some s else if length (q b) \<le> length (q me) then Some ?s1 else pull me b ?s1)"
    by (rule load_balance_run [where locked = locked and s = s, OF assms(1,3-6)])
  show ?thesis
  proof (cases "b \<noteq> me \<and> length (q me) < length (q b)")
    case True
    show ?thesis
    proof (cases "find (migratable me ?s1) (q b)")
      case None
      then show ?thesis using run True pull_none [OF assms(1), of me b] by simp
    next
      case (Some t)
      obtain s' where p: "pull me b ?s1 = Some s'" and "rqs_ok (q(b := remove1 t (q b), me := q me @ [t])) s'"
        and "on_cpu (tsk s' t) = me" using pull_some [OF assms(1) Some _ assms(2)] True by metis
      moreover have "\<forall>T. sched_inv T ?s1 \<and> (\<forall>c. current_task (cpu ?s1 c) \<noteq> t) \<longrightarrow> sched_inv T s'"
        using pull_inv [OF _ assms(1) Some _ assms(2) _ p] True by blast
      ultimately show ?thesis using run True Some by simp
    qed
  qed (use run in auto)
qed

theorem load_balance_correct_witness:
  "\<exists>s'. sched_load_balance 1 id demo_queue = Some s' \<and> on_cpu (tsk s' 0x2000) = 1 \<and>
     rqs_ok ((\<lambda>_. [])(0 := [0x3000], 1 := [0x2000])) s'"
proof -
  define q :: "nat \<Rightarrow> addr list" where "q = (\<lambda>_. [])(0 := [0x2000, 0x3000])"
  have ok: "rqs_ok q (id demo_queue)" and p: "percpu_get 1 (id demo_queue)" using demo_queue_ok demo_queue_facts(2) by (simp_all add: q_def)
  have n: "\<forall>c. length (q c) < 2 ^ 32 - 1" by (simp add: q_def)
  have g: "g_smp_initialized demo_queue" "1 < cpus_online demo_queue" by code_simp+
  have b: "fst (busiest [0..<cpus_online demo_queue] 1 1 (runqueue_length (cpu demo_queue 1)) demo_queue) = 0" by code_simp
  have f: "find (migratable 1 demo_queue) [0x2000, 0x3000] = Some 0x2000" by code_simp
  from load_balance_correct [where locked = id and s = demo_queue, OF ok p n g b] f show ?thesis by (auto simp: q_def)
qed

text \<open>One user task, running on processor 0.\<close>

definition demo_one :: sched where
  "demo_one = demo_idle\<lparr>tsk := (\<lambda>t. if t = 0x200 then demo_task 1 TASK_RUNNING 0
     else demo_task 0 (if t = 0x1000 then TASK_RUNNING else TASK_STOPPED) 0)\<rparr>"

lemma demo_one_inv: "sched_inv UNIV demo_one"
proof -
  have g: "cpu demo_one = cpu demo_idle" "percpu_get c demo_one = percpu_get c demo_idle" "is_idle_task demo_one = is_idle_task demo_idle" for c
    by (simp_all add: demo_one_def percpu_get_def is_idle_task_def fun_eq_iff)
  have t: "\<not> on_rq (tsk demo_one a)" "sp (tsk demo_one a) = 8" "on_cpu (tsk demo_one a) = on_cpu (tsk demo_idle a)"
    "t_state (tsk demo_one a) = (if a \<in> {0x200, 0x1000} then TASK_RUNNING else TASK_STOPPED)" for a
    by (simp_all add: demo_one_def demo_idle_def demo_task_def)
  have "rqs_ok (\<lambda>_. []) demo_one"
    by (rule rqs_okI) (auto simp: t g queue_ok_def demo_idle_def demo_cpu_def)
  moreover have "cpus_ok demo_one" using demo_idle_ok(2) unfolding cpus_ok_def g Let_def by (auto simp: t)
  moreover have "percpu_get 0 demo_idle" "current_task (cpu demo_idle 0) = 0x1000" "is_idle_task demo_idle 0x200"
    by (simp_all add: percpu_get_def demo_idle_def demo_cpu_def MAX_CPUS_def is_idle_task_def)
  then have "not_lost UNIV demo_one" unfolding not_lost_def runnable_def g by (auto simp: t)
  ultimately show ?thesis unfolding sched_inv_def by blast
qed

lemma demo_one_rest: "sys_inv UNIV (at_rest demo_one)"
  by (rule at_rest_inv [OF demo_one_inv]) (simp_all add: demo_one_def demo_idle_def demo_task_def demo_cpu_def)

text \<open>C40: The check that a task is ready does not protect the current task of another processor. A task that blocks
  and is woken before it calls the scheduler is ready and queued while it still runs. From a consistent
  state, after such a wake-up, \<^verbatim>\<open>sched_load_balance\<close> on the other processor takes the task, and the next
  call of \<^verbatim>\<open>sched_schedule\<close> there runs it: two processors execute the same task on the same stack.\<close>

theorem load_balance_runs_task_twice:
  "\<exists>s s1 s2 t. sched_inv UNIV demo_one \<and> sys_inv UNIV (at_rest demo_one) \<and> sys_step\<^sup>*\<^sup>* (at_rest demo_one) s \<and> pending s = {} \<and>
     sched_load_balance 1 id (sch s) = Some s1 \<and>
     s2 = sched_schedule 1 8 s1 \<and> t \<noteq> NULL \<and> current_task (cpu s2 0) = t \<and> current_task (cpu s2 1) = t"
proof -
  let ?b = "block_current 0 0x7000 demo_one"
  let ?y = "(at_rest demo_one)\<lparr>sch := ?b, leaving := {0x1000}\<rparr>"
  have "percpu_get 0 demo_one" "current_task (cpu demo_one 0) = 0x1000" "\<not> has_exited (tsk demo_one 0x1000)" by code_simp+
  then have b: "sys_step (at_rest demo_one) ?y" using sys_step.block [of 0 "at_rest demo_one" "0x1000" "0x7000"] by simp
  have r: "case sched_wake_channel 1 0x7000 ?b of None \<Rightarrow> False | Some s \<Rightarrow>
      (case sched_load_balance 1 id s of None \<Rightarrow> False | Some s1 \<Rightarrow>
        current_task (cpu (sched_schedule 1 8 s1) 0) = 0x1000 \<and> current_task (cpu (sched_schedule 1 8 s1) 1) = 0x1000)"
    by code_simp
  then obtain s s1 where w: "sched_wake_channel 1 0x7000 ?b = Some s" and l: "sched_load_balance 1 id s = Some s1"
    and c: "current_task (cpu (sched_schedule 1 8 s1) 0) = 0x1000" "current_task (cpu (sched_schedule 1 8 s1) 1) = 0x1000"
    by (auto split: option.splits)
  have "task_list ?b [0x1000]" unfolding task_list_def by code_simp
  moreover have "list_all (\<lambda>t. waiting ?b 0x7000 t \<longrightarrow> can_queue ?b t) [0x1000]" by code_simp
  ultimately have "sys_step\<^sup>*\<^sup>* ?y (?y\<lparr>sch := s\<rparr>)"
    using w by (intro wake_alone [of ?y 0 "0x7000" "[0x1000]" 1]) auto
  with b have "sys_step\<^sup>*\<^sup>* (at_rest demo_one) (?y\<lparr>sch := s\<rparr>)" by (rule converse_rtranclp_into_rtranclp)
  moreover have "pending (?y\<lparr>sch := s\<rparr>) = {}" by (simp add: pending_def)
  ultimately show ?thesis using demo_one_inv demo_one_rest l c
    by - (rule exI [of _ "?y\<lparr>sch := s\<rparr>"], rule exI [of _ s1], rule exI [of _ "sched_schedule 1 8 s1"], rule exI [of _ "0x1000"], simp)
qed

end
