(* ===== verification/Pipe.thy ===== *)
theory Pipe
  imports Bytes
begin

text \<open>
  Pipes: the ring buffer and its ends of \<^verbatim>\<open>kernel/ke/pipe.c\<close>, and the two transfers of
  \<^verbatim>\<open>kernel/ke/syscall.c\<close>, \<^verbatim>\<open>pipe_read_to_user\<close> and \<^verbatim>\<open>pipe_write_from_user\<close>. The ring buffer and the
  buffers of the callers lie in one byte memory. A transfer holds the lock of the pipe except while it
  sleeps: what other tasks do until its \<open>k\<close>-th sleep ends is the argument \<open>others\<close>, \<open>None\<close> when no task ever
  wakes it, and whether a signal is pending before and after the sleep are the arguments \<open>sig\<close> and \<open>sig'\<close>. A
  transfer that does not return, because a sleep does not end or because it goes back to sleep for ever, is \<open>None\<close>.
  The counts of readers and writers are integers: they are numbers of open ends, far below \<open>2\<^sup>3\<^sup>1\<close>.
  Faults on the buffers of the callers are not modelled.
\<close>

section \<open>Pipes\<close>

record pipe =
  buffer :: addr
  p_size :: u64
  read_pos :: u64
  write_pos :: u64
  used :: u64
  readers :: int
  writers :: int

record pipe_end =
  pe_magic :: u32
  is_read :: bool
  pe_pipe :: addr
  pe_flags :: u32

definition PIPE_MAGIC :: u32 where "PIPE_MAGIC = 0x50495045"
definition O_NONBLOCK :: u32 where "O_NONBLOCK = 0x800"
definition EINTR :: int where "EINTR = 4"
definition EBADF :: int where "EBADF = 9"
definition EAGAIN :: int where "EAGAIN = 11"
definition EPIPE :: int where "EPIPE = 32"

type_synonym pipe_mem = "pipe \<times> bytes"

text \<open>The waiting loop of a reader: \<open>None\<close> when it may go on, otherwise the value to return.\<close>

partial_function (option) read_wait ::
    "(nat \<Rightarrow> pipe_mem \<Rightarrow> pipe_mem option) \<Rightarrow> (nat \<Rightarrow> bool) \<Rightarrow> (nat \<Rightarrow> bool) \<Rightarrow> bool \<Rightarrow> u32 \<Rightarrow> nat \<Rightarrow> pipe_mem \<Rightarrow>
     (int option \<times> pipe_mem) option" where
  "read_wait others sig sig' cur fl k st =
     (if used (fst st) \<noteq> 0 then Some (None, st)
      else if writers (fst st) = 0 then Some (Some 0, st)
      else if fl AND O_NONBLOCK \<noteq> 0 then Some (Some (- EAGAIN), st)
      else if cur \<and> sig k then Some (Some (- EINTR), st)
      else if cur
      then (case others k st of None \<Rightarrow> None
            | Some st1 \<Rightarrow> if sig' k then Some (Some (- EINTR), st1) else read_wait others sig sig' cur fl (Suc k) st1)
      else Some (Some (- EAGAIN), st))"

partial_function (option) write_wait ::
    "(nat \<Rightarrow> pipe_mem \<Rightarrow> pipe_mem option) \<Rightarrow> (nat \<Rightarrow> bool) \<Rightarrow> (nat \<Rightarrow> bool) \<Rightarrow> bool \<Rightarrow> nat \<Rightarrow> pipe_mem \<Rightarrow>
     (int option \<times> pipe_mem) option" where
  "write_wait others sig sig' cur k st =
     (if used (fst st) \<noteq> p_size (fst st) then Some (None, st)
      else if readers (fst st) = 0 then Some (Some (- EPIPE), st)
      else if cur \<and> sig k then Some (Some (- EINTR), st)
      else if cur
      then (case others k st of None \<Rightarrow> None
            | Some st1 \<Rightarrow> if sig' k then Some (Some (- EINTR), st1) else write_wait others sig sig' cur (Suc k) st1)
      else Some (Some (- EAGAIN), st))"

declare read_wait.simps [code] write_wait.simps [code]

text \<open>Moving bytes out of and into the ring, in one or two pieces.\<close>

definition move_out :: "addr \<Rightarrow> u64 \<Rightarrow> pipe_mem \<Rightarrow> u64 \<times> pipe_mem" where
  "move_out buf count st =
     (let (p, m) = st;
          to_read = (if count < used p then count else used p);
          first = (if p_size p - read_pos p > to_read then to_read else p_size p - read_pos p);
          m1 = mm_memcpy buf (buffer p + read_pos p) first m;
          m2 = (if to_read > first then mm_memcpy (buf + first) (buffer p) (to_read - first) m1 else m1)
      in (to_read, p\<lparr>read_pos := (read_pos p + to_read) mod p_size p, used := used p - to_read\<rparr>, m2))"

definition move_in :: "addr \<Rightarrow> u64 \<Rightarrow> pipe_mem \<Rightarrow> u64 \<times> pipe_mem" where
  "move_in buf count st =
     (let (p, m) = st;
          space = p_size p - used p;
          to_write = (if count < space then count else space);
          first = (if p_size p - write_pos p > to_write then to_write else p_size p - write_pos p);
          m1 = mm_memcpy (buffer p + write_pos p) buf first m;
          m2 = (if to_write > first then mm_memcpy (buffer p) (buf + first) (to_write - first) m1 else m1)
      in (to_write, p\<lparr>write_pos := (write_pos p + to_write) mod p_size p, used := used p + to_write\<rparr>, m2))"

text \<open>
  The transfers return the result, whether they wake the channel of the pipe (\<^verbatim>\<open>sched_wake_channel\<close>) and the
  new state. \<open>cur\<close> says that there is a current task; \<open>None\<close> for the end is a null pointer. The signal
  \<^verbatim>\<open>SIGPIPE\<close> that goes with \<open>EPIPE\<close> is not modelled.
\<close>

definition pipe_read_to_user ::
    "(nat \<Rightarrow> pipe_mem \<Rightarrow> pipe_mem option) \<Rightarrow> (nat \<Rightarrow> bool) \<Rightarrow> (nat \<Rightarrow> bool) \<Rightarrow> bool \<Rightarrow> pipe_end option \<Rightarrow> addr \<Rightarrow> u64 \<Rightarrow>
     pipe_mem \<Rightarrow> (int \<times> bool \<times> pipe_mem) option" where
  "pipe_read_to_user others sig sig' cur e buf count st =
     (case e of None \<Rightarrow> Some (- EBADF, False, st)
      | Some en \<Rightarrow>
          if pe_pipe en = NULL \<or> \<not> is_read en then Some (- EBADF, False, st)
          else if count = 0 then Some (0, False, st)
          else case read_wait others sig sig' cur (pe_flags en) 0 st of
                 None \<Rightarrow> None
               | Some (Some r, st1) \<Rightarrow> Some (r, False, st1)
               | Some (None, st1) \<Rightarrow> (let (n, st2) = move_out buf count st1 in Some (sint n, True, st2)))"

definition pipe_write_from_user ::
    "(nat \<Rightarrow> pipe_mem \<Rightarrow> pipe_mem option) \<Rightarrow> (nat \<Rightarrow> bool) \<Rightarrow> (nat \<Rightarrow> bool) \<Rightarrow> bool \<Rightarrow> pipe_end option \<Rightarrow> addr \<Rightarrow> u64 \<Rightarrow>
     pipe_mem \<Rightarrow> (int \<times> bool \<times> pipe_mem) option" where
  "pipe_write_from_user others sig sig' cur e buf count st =
     (case e of None \<Rightarrow> Some (- EBADF, False, st)
      | Some en \<Rightarrow>
          if pe_pipe en = NULL \<or> is_read en then Some (- EBADF, False, st)
          else if count = 0 then Some (0, False, st)
          else if readers (fst st) = 0 then Some (- EPIPE, False, st)
          else case write_wait others sig sig' cur 0 st of
                 None \<Rightarrow> None
               | Some (Some r, st1) \<Rightarrow> Some (r, False, st1)
               | Some (None, st1) \<Rightarrow> (let (n, st2) = move_in buf count st1 in Some (sint n, True, st2)))"

section \<open>The ring as a queue\<close>

definition pipe_inv :: "pipe \<Rightarrow> bool" where
  "pipe_inv p \<longleftrightarrow> 0 < p_size p \<and> p_size p \<le> 2 ^ 62 \<and> unat (buffer p) + unat (p_size p) \<le> 2 ^ 64 \<and>
     read_pos p < p_size p \<and> used p \<le> p_size p \<and>
     unat (write_pos p) = (unat (read_pos p) + unat (used p)) mod unat (p_size p)"

definition bytes_at :: "bytes \<Rightarrow> addr \<Rightarrow> nat \<Rightarrow> u8 list" where
  "bytes_at m a n = map (\<lambda>i. m (a + of_nat i)) [0..<n]"

text \<open>The bytes in the pipe, the oldest first.\<close>

definition contents :: "pipe_mem \<Rightarrow> u8 list" where
  "contents st = map (\<lambda>i. snd st (buffer (fst st) + of_nat ((unat (read_pos (fst st)) + i) mod unat (p_size (fst st)))))
     [0..<unat (used (fst st))]"

text \<open>A buffer of a caller, outside the ring.\<close>

definition outside :: "pipe \<Rightarrow> addr \<Rightarrow> nat \<Rightarrow> bool" where
  "outside p buf n \<longleftrightarrow> n \<le> 2 ^ 63 \<and> unat buf + n \<le> 2 ^ 64 \<and> (\<forall>a. in_block buf n a \<longrightarrow> \<not> in_block (buffer p) (unat (p_size p)) a)"

lemma unat_offset: "unat (p :: addr) + x < 2 ^ 64 \<Longrightarrow> unat (p + of_nat x) = unat p + x"
  by (subst unat_plus_no_wrap) (simp_all add: unat_of_nat_small)

text \<open>Inside a block that does not wrap, a part of it is an interval of offsets.\<close>

lemma in_block_part:
  assumes "unat p + n \<le> 2 ^ 64" and "w + k \<le> n" and "x < n"
  shows "in_block (p + of_nat w) k (p + of_nat x) \<longleftrightarrow> w \<le> x \<and> x < w + k"
proof (cases "k = 0")
  case False
  then have "unat (p + of_nat w) = unat p + w" using assms by (intro unat_offset) simp
  moreover have "unat (p + of_nat x) = unat p + x" using assms by (intro unat_offset) simp
  ultimately show ?thesis using assms by (subst in_block_iff) auto
qed simp

lemma in_block_sub:
  assumes "unat p + n \<le> 2 ^ 64" and "w + k \<le> n" and "in_block (p + of_nat w) k a"
  shows "in_block p n a"
proof (cases "k = 0")
  case False
  then have "unat (p + of_nat w) = unat p + w" using assms(1,2) by (intro unat_offset) simp
  then show ?thesis using assms in_block_iff [of p n a] in_block_iff [of "p + of_nat w" k a] by auto
qed (use assms(3) in simp)

text \<open>Copying \<open>k\<close> bytes between parts of two blocks that do not overlap.\<close>

lemma memcpy_part:
  assumes d: "unat d + nd \<le> 2 ^ 64" "w + k \<le> nd" and s: "unat s + ns \<le> 2 ^ 64" "v + k \<le> ns"
    and dis: "\<And>a. in_block d nd a \<Longrightarrow> \<not> in_block s ns a"
  shows "x < nd \<Longrightarrow> mm_memcpy (d + of_nat w) (s + of_nat v) (of_nat k) m (d + of_nat x) =
      (if w \<le> x \<and> x < w + k then m (s + of_nat (v + (x - w))) else m (d + of_nat x))"
    and "\<not> in_block d nd a \<Longrightarrow> mm_memcpy (d + of_nat w) (s + of_nat v) (of_nat k) m a = m a"
proof -
  have eq: "mm_memcpy (d + of_nat w) (s + of_nat v) (of_nat k) m =
      (\<lambda>a. if in_block (d + of_nat w) k a then m (s + of_nat v + (a - (d + of_nat w))) else m a)" if "k < 2 ^ 64"
    using mm_memcpy_correct [of "d + of_nat w" "of_nat k" "s + of_nat v" m]
      in_block_sub [OF d] in_block_sub [OF s] dis that by (simp add: unat_of_nat_small) blast
  have lt: "k < 2 ^ 64"
  proof (rule ccontr)
    assume "\<not> k < 2 ^ 64"
    then have "in_block d nd 0" "in_block s ns 0" using d s by (auto simp: in_block_iff)
    then show False using dis by blast
  qed
  show "mm_memcpy (d + of_nat w) (s + of_nat v) (of_nat k) m (d + of_nat x) =
      (if w \<le> x \<and> x < w + k then m (s + of_nat (v + (x - w))) else m (d + of_nat x))" if "x < nd"
    using eq [OF lt] in_block_part [OF d that] by (simp add: of_nat_diff algebra_simps)
  show "mm_memcpy (d + of_nat w) (s + of_nat v) (of_nat k) m a = m a" if "\<not> in_block d nd a"
    using eq [OF lt] in_block_sub [OF d] that by auto
qed

lemma mod_once: "z < 2 * n \<Longrightarrow> z mod n = (if z < n then z else z - n :: nat)"
  by (auto simp: mod_if)

text \<open>The two pieces of a transfer into the ring, as offsets.\<close>

lemma ring_in:
  assumes b: "unat b + S \<le> 2 ^ 64" and u: "unat buf + c \<le> 2 ^ 64" and dis0: "\<forall>a. in_block b S a \<longrightarrow> \<not> in_block buf c a"
    and W: "W < S" and N: "N \<le> S" "N \<le> c" and F: "F = min N (S - W)"
    and m1: "m1 = mm_memcpy (b + of_nat W) buf (of_nat F) m"
    and m2: "m2 = (if F < N then mm_memcpy b (buf + of_nat F) (of_nat (N - F)) m1 else m1)"
  shows "j < N \<Longrightarrow> m2 (b + of_nat ((W + j) mod S)) = m (buf + of_nat j)"
    and "x < S \<Longrightarrow> (\<And>j. j < N \<Longrightarrow> x \<noteq> (W + j) mod S) \<Longrightarrow> m2 (b + of_nat x) = m (b + of_nat x)"
    and "\<not> in_block b S a \<Longrightarrow> m2 a = m a"
proof -
  have dis: "\<And>a. in_block b S a \<Longrightarrow> \<not> in_block buf c a" using dis0 by blast
  have out: "\<not> in_block b S (buf + of_nat i)" if "i < c" for i
    using dis in_block_part [OF u, of 0 c i] that by auto
  have p1: "m1 (b + of_nat x) = (if W \<le> x \<and> x < W + F then m (buf + of_nat (x - W)) else m (b + of_nat x))" if "x < S" for x
    using memcpy_part(1) [OF b _ u _ dis that, of W F 0 m] W N F by (simp add: m1)
  have o1: "m1 a = m a" if "\<not> in_block b S a" for a
    using memcpy_part(2) [OF b _ u _ dis that, of W F 0 m] W N F by (simp add: m1)
  have p2: "m2 (b + of_nat x) = (if x < N - F then m (buf + of_nat (F + x)) else m1 (b + of_nat x))" if "x < S" for x
    using memcpy_part(1) [OF b _ u _ dis that, of 0 "N - F" F m1] N o1 [OF out, of "F + x"] by (auto simp: m2)
  show "m2 (b + of_nat ((W + j) mod S)) = m (buf + of_nat j)" if "j < N"
    using that W N F mod_once [of "W + j" S] p1 [of "W + j"] p2 [of "W + j"] p2 [of "W + j - S"] by auto
  show "m2 (b + of_nat x) = m (b + of_nat x)" if x: "x < S" "\<And>j. j < N \<Longrightarrow> x \<noteq> (W + j) mod S"
  proof -
    have "\<not> (W \<le> x \<and> x < W + F)"
    proof
      assume "W \<le> x \<and> x < W + F"
      then have "x - W < N" "W + (x - W) = x" using F by linarith+
      then show False using x(2) [of "x - W"] x(1) by simp
    qed
    moreover have "\<not> x < N - F"
    proof
      assume "x < N - F"
      then have lt: "F + x < N" and eq: "W + (F + x) = S + x" using F W by linarith+
      show False using x(2) [OF lt] x(1) unfolding eq by simp
    qed
    ultimately show ?thesis using p1 [OF x(1)] p2 [OF x(1)] by auto
  qed
  show "m2 a = m a" if "\<not> in_block b S a"
    using memcpy_part(2) [OF b _ u _ dis that, of 0 "N - F" F m1] N o1 [OF that] by (auto simp: m2)
qed

text \<open>The same for a transfer out of the ring.\<close>

lemma ring_out:
  assumes b: "unat b + S \<le> 2 ^ 64" and u: "unat buf + c \<le> 2 ^ 64" and dis0: "\<forall>a. in_block buf c a \<longrightarrow> \<not> in_block b S a"
    and R: "R < S" and N: "N \<le> S" "N \<le> c" and F: "F = min N (S - R)"
    and m1: "m1 = mm_memcpy buf (b + of_nat R) (of_nat F) m"
    and m2: "m2 = (if F < N then mm_memcpy (buf + of_nat F) b (of_nat (N - F)) m1 else m1)"
  shows "j < N \<Longrightarrow> m2 (buf + of_nat j) = m (b + of_nat ((R + j) mod S))"
    and "\<not> in_block buf N a \<Longrightarrow> m2 a = m a"
proof -
  have uN: "unat buf + N \<le> 2 ^ 64" using u N by simp
  have disN: "\<And>a. in_block buf N a \<Longrightarrow> \<not> in_block b S a" using dis0 N by (auto simp: in_block_def)
  have out: "\<not> in_block buf N (b + of_nat i)" if "i < S" for i
    using disN in_block_part [OF b, of 0 S i] that by auto
  have p1: "m1 (buf + of_nat x) = (if x < F then m (b + of_nat (R + x)) else m (buf + of_nat x))" if "x < N" for x
    using memcpy_part(1) [OF uN _ b _ disN that, of 0 F R m] R F by (simp add: m1)
  have o1: "m1 a = m a" if "\<not> in_block buf N a" for a
    using memcpy_part(2) [OF uN _ b _ disN that, of 0 F R m] R F by (simp add: m1)
  have Fle: "F \<le> N" using F by simp
  have p2: "m2 (buf + of_nat x) = (if F \<le> x then m (b + of_nat (x - F)) else m1 (buf + of_nat x))" if "x < N" for x
  proof (cases "F < N")
    case True
    have "m1 (b + of_nat (x - F)) = m (b + of_nat (x - F))" using o1 out [of "x - F"] that N by simp
    then show ?thesis
      using memcpy_part(1) [OF uN _ b _ disN that, of F "N - F" 0 m1] N Fle True that by (simp add: m2 del: of_nat_diff)
  qed (use Fle that in \<open>simp add: m2\<close>)
  show "m2 (buf + of_nat j) = m (b + of_nat ((R + j) mod S))" if "j < N"
    using that R N F mod_once [of "R + j" S] p1 [OF that] p2 [OF that] by (auto simp: add.commute)
  show "m2 a = m a" if "\<not> in_block buf N a"
    using memcpy_part(2) [OF uN _ b _ disN that, of F "N - F" 0 m1] N o1 [OF that] Fle by (simp add: m2 del: of_nat_diff)
qed

section \<open>Transfers\<close>

lemma pipe_invD:
  assumes "pipe_inv p"
  shows "unat (buffer p) + unat (p_size p) \<le> 2 ^ 64" "unat (read_pos p) < unat (p_size p)" "unat (used p) \<le> unat (p_size p)"
    "unat (write_pos p) = (unat (read_pos p) + unat (used p)) mod unat (p_size p)" "unat (write_pos p) < unat (p_size p)"
    "unat (p_size p) \<le> 2 ^ 62"
  using assms by (auto simp: pipe_inv_def word_less_nat_alt word_le_nat_alt)

lemma unat_if_less: "unat (if a < b then a else b :: u64) = min (unat a) (unat b)"
  by (auto simp: word_less_nat_alt)

text \<open>Advancing a position around the ring.\<close>

lemma advance:
  assumes "unat (i :: u64) < unat S" "unat n \<le> unat S" "unat S \<le> 2 ^ 62"
  shows "unat ((i + n) mod S) = (unat i + unat n) mod unat S"
proof -
  have "unat (i + n) = unat i + unat n" using assms by (subst unat_plus_no_wrap) simp_all
  then show ?thesis by (simp add: unat_mod)
qed

lemma map_upt_add: "map f [0..<a + b] = map f [0..<a] @ map (\<lambda>j. f (a + j)) [0..<b]"
  by (rule nth_equalityI) (auto simp: nth_append)

lemma move_in_step:
  assumes inv: "pipe_inv p" and out: "outside p buf (unat count)" and run: "move_in buf count (p, m) = (n, p', m')"
  shows "pipe_inv p'" "unat n = min (unat count) (unat (p_size p) - unat (used p))"
    "contents (p', m') = contents (p, m) @ bytes_at m buf (unat n)"
    "\<And>a. \<not> in_block (buffer p) (unat (p_size p)) a \<Longrightarrow> m' a = m a"
    "p' = p\<lparr>write_pos := (write_pos p + n) mod p_size p, used := used p + n\<rparr>"
proof -
  note i = pipe_invD [OF inv]
  let ?S = "unat (p_size p)" and ?R = "unat (read_pos p)" and ?U = "unat (used p)" and ?W = "unat (write_pos p)"
  define F where "F = min (unat n) (?S - ?W)"
  have sp: "unat (p_size p - used p) = ?S - ?U" using i(3) by (simp add: unat_minus_no_wrap)
  have n: "n = (if count < p_size p - used p then count else p_size p - used p)"
    and p': "p' = p\<lparr>write_pos := (write_pos p + n) mod p_size p, used := used p + n\<rparr>"
    using run by (auto simp: move_in_def Let_def)
  show un: "unat n = min (unat count) (?S - ?U)" unfolding n unat_if_less sp ..
  then have N: "unat n \<le> ?S" "unat n \<le> unat count" "?U + unat n \<le> ?S" using i(3) by linarith+
  have rest: "unat (p_size p - write_pos p) = ?S - ?W" using i(5) by (simp add: unat_minus_no_wrap)
  have uF: "unat (of_nat F :: u64) = F" using unat_lt_2p [of n] by (simp add: F_def unat_of_nat_small)
  have first: "(if p_size p - write_pos p > n then n else p_size p - write_pos p) = of_nat F"
    by (rule word_unat_eq_iff [THEN iffD2]) (simp only: uF unat_if_less rest, simp only: F_def)
  define m1 where "m1 = mm_memcpy (buffer p + of_nat ?W) buf (of_nat F) m"
  have m': "m' = (if F < unat n then mm_memcpy (buffer p) (buf + of_nat F) (of_nat (unat n - F)) m1 else m1)"
    using run first uF by (auto simp: move_in_def Let_def m1_def n [symmetric] word_less_nat_alt of_nat_diff)
  have dis: "\<forall>a. in_block (buffer p) ?S a \<longrightarrow> \<not> in_block buf (unat count) a"
    and u: "unat buf + unat count \<le> 2 ^ 64" using out by (auto simp: outside_def)
  note ring = ring_in [OF i(1) u dis i(5) N(1,2) F_def m1_def m']
  show "\<And>a. \<not> in_block (buffer p) ?S a \<Longrightarrow> m' a = m a" by (rule ring(3))
  have uu: "unat (used p + n) = ?U + unat n" using N(3) i(6) by (subst unat_plus_no_wrap) simp_all
  show "p' = p\<lparr>write_pos := (write_pos p + n) mod p_size p, used := used p + n\<rparr>" by (rule p')
  show "pipe_inv p'"
    using inv N(3) advance [OF i(5) N(1) i(6)] i(4)
    by (simp add: pipe_inv_def p' word_le_nat_alt uu mod_simps add.assoc)
  have old: "m' (buffer p + of_nat ((?R + k) mod ?S)) = m (buffer p + of_nat ((?R + k) mod ?S))" if "k < ?U" for k
  proof (rule ring(2))
    show "(?R + k) mod ?S < ?S" using i(2) by simp
    show "(?R + k) mod ?S \<noteq> (?W + j) mod ?S" if "j < unat n" for j
    proof -
      have "(?W + j) mod ?S = (?R + (?U + j)) mod ?S" by (simp add: i(4) mod_simps add.assoc)
      moreover have "(?R + k) mod ?S \<noteq> (?R + (?U + j)) mod ?S"
        using \<open>k < ?U\<close> that N(3) i(2) mod_once [of "?R + k" ?S] mod_once [of "?R + (?U + j)" ?S] by auto
      ultimately show ?thesis by simp
    qed
  qed
  have new: "m' (buffer p + of_nat ((?R + (?U + j)) mod ?S)) = m (buf + of_nat j)" if "j < unat n" for j
    using ring(1) [OF that] by (simp add: i(4) mod_simps add.assoc)
  show "contents (p', m') = contents (p, m) @ bytes_at m buf (unat n)"
    by (simp add: contents_def bytes_at_def p' uu map_upt_add old new)
qed

lemma move_out_step:
  assumes inv: "pipe_inv p" and out: "outside p buf (unat count)" and run: "move_out buf count (p, m) = (n, p', m')"
  shows "pipe_inv p'" "unat n = min (unat count) (unat (used p))"
    "bytes_at m' buf (unat n) = take (unat n) (contents (p, m))" "contents (p', m') = drop (unat n) (contents (p, m))"
    "\<And>a. \<not> in_block buf (unat n) a \<Longrightarrow> m' a = m a"
    "p' = p\<lparr>read_pos := (read_pos p + n) mod p_size p, used := used p - n\<rparr>"
proof -
  note i = pipe_invD [OF inv]
  let ?S = "unat (p_size p)" and ?R = "unat (read_pos p)" and ?U = "unat (used p)"
  define F where "F = min (unat n) (?S - ?R)"
  have n: "n = (if count < used p then count else used p)"
    and p': "p' = p\<lparr>read_pos := (read_pos p + n) mod p_size p, used := used p - n\<rparr>"
    using run by (auto simp: move_out_def Let_def)
  show un: "unat n = min (unat count) ?U" unfolding n unat_if_less ..
  then have N: "unat n \<le> ?S" "unat n \<le> unat count" "unat n \<le> ?U" using i(3) by linarith+
  have rest: "unat (p_size p - read_pos p) = ?S - ?R" using i(2) by (simp add: unat_minus_no_wrap)
  have uF: "unat (of_nat F :: u64) = F" using unat_lt_2p [of n] by (simp add: F_def unat_of_nat_small)
  have first: "(if p_size p - read_pos p > n then n else p_size p - read_pos p) = of_nat F"
    by (rule word_unat_eq_iff [THEN iffD2]) (simp only: uF unat_if_less rest, simp only: F_def)
  define m1 where "m1 = mm_memcpy buf (buffer p + of_nat ?R) (of_nat F) m"
  have m': "m' = (if F < unat n then mm_memcpy (buf + of_nat F) (buffer p) (of_nat (unat n - F)) m1 else m1)"
    using run first uF by (auto simp: move_out_def Let_def m1_def n [symmetric] word_less_nat_alt of_nat_diff)
  have dis: "\<forall>a. in_block buf (unat count) a \<longrightarrow> \<not> in_block (buffer p) ?S a"
    and u: "unat buf + unat count \<le> 2 ^ 64" using out by (auto simp: outside_def)
  note ring = ring_out [OF i(1) u dis i(2) N(1,2) F_def m1_def m']
  show o: "\<And>a. \<not> in_block buf (unat n) a \<Longrightarrow> m' a = m a" by (rule ring(2))
  have uu: "unat (used p - n) = ?U - unat n" using N(3) by (simp add: unat_minus_no_wrap)
  show "p' = p\<lparr>read_pos := (read_pos p + n) mod p_size p, used := used p - n\<rparr>" by (rule p')
  have adv: "unat ((read_pos p + n) mod p_size p) = (?R + unat n) mod ?S" by (rule advance [OF i(2) N(1) i(6)])
  have "(read_pos p + n) mod p_size p < p_size p" using i(2) by (simp add: word_less_nat_alt adv)
  moreover have "((?R + unat n) mod ?S + (?U - unat n)) mod ?S = (?R + ?U) mod ?S"
    using N(3) by (simp only: mod_add_left_eq) simp
  ultimately show "pipe_inv p'" using inv i(3) by (simp add: pipe_inv_def p' word_le_nat_alt uu adv)
  show "bytes_at m' buf (unat n) = take (unat n) (contents (p, m))"
    using N(3) by (auto simp: bytes_at_def contents_def take_map ring(1) min_def)
  have ringpart: "m' (buffer p + of_nat x) = m (buffer p + of_nat x)" if "x < ?S" for x
  proof (rule o)
    have "in_block (buffer p) ?S (buffer p + of_nat x)" using in_block_part [OF i(1), of 0 ?S x] that by simp
    then have "\<not> in_block buf (unat count) (buffer p + of_nat x)" using dis by blast
    then show "\<not> in_block buf (unat n) (buffer p + of_nat x)" using N(2) unfolding in_block_def by linarith
  qed
  have "contents (p', m') = map (\<lambda>k. m (buffer p + of_nat ((?R + (unat n + k)) mod ?S))) [0..<?U - unat n]"
    using i(2) by (simp add: contents_def p' uu adv ringpart mod_simps add.assoc)
  also have "\<dots> = drop (unat n) (contents (p, m))"
    by (rule nth_equalityI) (auto simp: contents_def)
  finally show "contents (p', m') = drop (unat n) (contents (p, m))" .
qed

section \<open>Ends\<close>

text \<open>
  The objects of pipes: \<open>alive\<close> are the addresses that were allocated and not freed. \<open>kalloc\<close> is an argument
  that takes the size asked for; \<open>wakes\<close> logs the calls of \<^verbatim>\<open>sched_wake_channel\<close>.
\<close>

record pipes =
  pipe_at :: "addr \<Rightarrow> pipe"
  end_at :: "addr \<Rightarrow> pipe_end"
  alive :: "addr set"
  wakes :: "addr list"

definition sizeof_pipe :: u64 where "sizeof_pipe = 64"
definition sizeof_pipe_end :: u64 where "sizeof_pipe_end = 24"

definition pipe_create :: "(u64 \<Rightarrow> pipes \<Rightarrow> addr) \<Rightarrow> u64 \<Rightarrow> pipes \<Rightarrow> addr \<times> pipes" where
  "pipe_create kalloc sz s =
     (if sz = 0 then (NULL, s)
      else
        let p = kalloc sizeof_pipe s in
        if p = NULL then (NULL, s)
        else
          let s1 = s\<lparr>alive := insert p (alive s)\<rparr>;
              b = kalloc sz s1 in
          if b = NULL then (NULL, s1\<lparr>alive := alive s1 - {p}\<rparr>)
          else (p, s1\<lparr>alive := insert b (alive s1),
                      pipe_at := (pipe_at s1)(p := \<lparr>buffer = b, p_size = sz, read_pos = 0, write_pos = 0, used = 0,
                        readers = 0, writers = 0\<rparr>)\<rparr>))"

definition pipe_create_end :: "(u64 \<Rightarrow> pipes \<Rightarrow> addr) \<Rightarrow> addr \<Rightarrow> bool \<Rightarrow> pipes \<Rightarrow> addr \<times> pipes" where
  "pipe_create_end kalloc p rd s =
     (if p = NULL then (NULL, s)
      else
        let e = kalloc sizeof_pipe_end s in
        if e = NULL then (NULL, s)
        else
          let s1 = s\<lparr>alive := insert e (alive s),
                     end_at := (end_at s)(e := \<lparr>pe_magic = PIPE_MAGIC, is_read = rd, pe_pipe = p, pe_flags = 0\<rparr>)\<rparr>;
              x = pipe_at s1 p
          in (e, s1\<lparr>pipe_at := (pipe_at s1)(p := (if rd then x\<lparr>readers := readers x + 1\<rparr>
                                                   else x\<lparr>writers := writers x + 1\<rparr>))\<rparr>))"

definition pipe_dup_end :: "(u64 \<Rightarrow> pipes \<Rightarrow> addr) \<Rightarrow> addr \<Rightarrow> pipes \<Rightarrow> addr \<times> pipes" where
  "pipe_dup_end kalloc e s =
     (if e = NULL \<or> pe_magic (end_at s e) \<noteq> PIPE_MAGIC then (NULL, s)
      else pipe_create_end kalloc (pe_pipe (end_at s e)) (is_read (end_at s e)) s)"

definition pipe_close_end :: "addr \<Rightarrow> pipes \<Rightarrow> pipes" where
  "pipe_close_end e s =
     (if e = NULL \<or> pe_magic (end_at s e) \<noteq> PIPE_MAGIC then s
      else
        let s1 = s\<lparr>end_at := (end_at s)(e := (end_at s e)\<lparr>pe_magic := 0\<rparr>)\<rparr>;
            p = pe_pipe (end_at s1 e);
            x = pipe_at s1 p;
            x1 = (if is_read (end_at s1 e) then (if readers x > 0 then x\<lparr>readers := readers x - 1\<rparr> else x)
                  else (if writers x > 0 then x\<lparr>writers := writers x - 1\<rparr> else x));
            s2 = s1\<lparr>pipe_at := (pipe_at s1)(p := x1), wakes := p # wakes s1\<rparr>;
            s3 = (if readers x1 = 0 \<and> writers x1 = 0
                  then s2\<lparr>alive := (if buffer x1 \<noteq> NULL then alive s2 - {buffer x1} else alive s2) - {p}\<rparr> else s2);
            s4 = (if p \<noteq> NULL then s3 else s1)
        in s4\<lparr>alive := alive s4 - {e}\<rparr>)"

end
