(* ===== verification/PipeEnds.thy ===== *)
theory PipeEnds
  imports Pipe
begin

text \<open>
  The ends of pipes (\<^verbatim>\<open>kernel/ke/pipe.c\<close>): the counts of a pipe are the numbers of its open ends, and a pipe
  is freed exactly when its last end is closed.
\<close>

definition ends_of :: "pipes \<Rightarrow> addr set \<Rightarrow> addr \<Rightarrow> bool \<Rightarrow> addr set" where
  "ends_of s E p rd = {e \<in> E. pe_pipe (end_at s e) = p \<and> is_read (end_at s e) = rd}"

text \<open>
  \<open>P\<close> are the pipes and \<open>E\<close> the open ends: their objects are distinct and allocated, and the counts of a pipe
  are the numbers of its open ends.
\<close>

definition pipe_ok :: "addr set \<Rightarrow> addr set \<Rightarrow> pipes \<Rightarrow> addr \<Rightarrow> bool" where
  "pipe_ok P E s p \<longleftrightarrow>
     (let b = buffer (pipe_at s p) in
      p \<noteq> NULL \<and> p \<in> alive s \<and> p \<notin> E \<and> b \<noteq> NULL \<and> b \<in> alive s \<and> b \<notin> P \<and> b \<notin> E \<and>
      (\<forall>r \<in> P. buffer (pipe_at s r) = b \<longrightarrow> r = p) \<and>
      readers (pipe_at s p) = int (card (ends_of s E p True)) \<and> writers (pipe_at s p) = int (card (ends_of s E p False)))"

definition end_ok :: "addr set \<Rightarrow> pipes \<Rightarrow> addr \<Rightarrow> bool" where
  "end_ok P s e \<longleftrightarrow> e \<noteq> NULL \<and> e \<in> alive s \<and> pe_magic (end_at s e) = PIPE_MAGIC \<and> pe_pipe (end_at s e) \<in> P"

definition pipes_ok :: "addr set \<Rightarrow> addr set \<Rightarrow> pipes \<Rightarrow> bool" where
  "pipes_ok P E s \<longleftrightarrow> finite E \<and> (\<forall>p \<in> P. pipe_ok P E s p) \<and> (\<forall>e \<in> E. end_ok P s e)"

definition pipe_kalloc_fresh :: "(u64 \<Rightarrow> pipes \<Rightarrow> addr) \<Rightarrow> bool" where
  "pipe_kalloc_fresh kalloc \<longleftrightarrow> (\<forall>n s. kalloc n s = NULL \<or> kalloc n s \<notin> alive s)"

lemma pipe_kalloc_freshD: "pipe_kalloc_fresh kalloc \<Longrightarrow> kalloc n s \<noteq> NULL \<Longrightarrow> kalloc n s \<notin> alive s"
  unfolding pipe_kalloc_fresh_def by blast

lemma finite_ends [simp]: "finite E \<Longrightarrow> finite (ends_of s E p rd)"
  by (simp add: ends_of_def)

lemma pipes_okD:
  assumes "pipes_ok P E s"
  shows "finite E" "p \<in> P \<Longrightarrow> pipe_ok P E s p" "e \<in> E \<Longrightarrow> end_ok P s e"
  using assms by (simp_all add: pipes_ok_def)

text \<open>An address that is not allocated belongs to no object.\<close>

lemma fresh_object:
  assumes "pipes_ok P E s" and "a \<notin> alive s"
  shows "a \<notin> P" "a \<notin> E" "p \<in> P \<Longrightarrow> buffer (pipe_at s p) \<noteq> a"
  using pipes_okD(2,3) [OF assms(1)] assms(2) unfolding pipe_ok_def end_ok_def Let_def by metis+

lemma create_ok:
  assumes ok: "pipes_ok P E s" and fresh: "pipe_kalloc_fresh kalloc" and run: "pipe_create kalloc sz s = (p, s')"
  shows "if p = NULL then s' = s else p \<notin> P \<union> E \<and> pipes_ok (insert p P) E s'"
proof -
  define p0 where "p0 = kalloc sizeof_pipe s"
  define s1 where "s1 = s\<lparr>alive := insert p0 (alive s)\<rparr>"
  define b where "b = kalloc sz s1"
  have f: "p0 \<noteq> NULL \<Longrightarrow> p0 \<notin> alive s" "b \<noteq> NULL \<Longrightarrow> b \<notin> insert p0 (alive s)"
    using pipe_kalloc_freshD [OF fresh, of sizeof_pipe s] pipe_kalloc_freshD [OF fresh, of sz s1]
    by (simp_all add: p0_def b_def s1_def)
  note run = run [unfolded pipe_create_def Let_def, folded p0_def, folded s1_def, folded b_def]
  show ?thesis
  proof (cases "p = NULL")
    case True
    then have "s' = s \<or> p0 \<noteq> NULL \<and> s' = s1\<lparr>alive := alive s1 - {p0}\<rparr>" using run by (auto split: if_splits)
    then show ?thesis using f(1) True by (auto simp: s1_def)
  next
    case False
    then have p: "p = p0" "b \<noteq> NULL" and s': "s' = s1\<lparr>alive := insert b (alive s1),
        pipe_at := (pipe_at s1)(p0 := \<lparr>buffer = b, p_size = sz, read_pos = 0, write_pos = 0, used = 0, readers = 0, writers = 0\<rparr>)\<rparr>"
      using run by (auto split: if_splits)
    have pf: "p \<notin> alive s" and bf: "b \<notin> alive s" "b \<noteq> p" using f p False by auto
    note newp = fresh_object [OF ok pf] and newb = fresh_object [OF ok bf(1)]
    have fields: "pipe_at s' r = (if r = p then \<lparr>buffer = b, p_size = sz, read_pos = 0, write_pos = 0, used = 0, readers = 0, writers = 0\<rparr>
        else pipe_at s r)" "alive s' = insert b (insert p (alive s))" "end_at s' = end_at s" for r
      by (simp_all add: s' s1_def p(1))
    have ends: "ends_of s' E r rd = ends_of s E r rd" for r rd by (simp add: ends_of_def fields)
    have none: "ends_of s E p rd = {}" for rd
      using newp(1) pipes_okD(3) [OF ok] by (auto simp: ends_of_def end_ok_def)
    have "pipe_ok (insert p P) E s' r" if "r \<in> P" for r
      using pipes_okD(2) [OF ok that] newp(1) newb(3) [OF that] newp(3) [OF that] that
      by (auto simp: pipe_ok_def Let_def fields ends)
    moreover have "pipe_ok (insert p P) E s' p"
      using newp(1,2) newb bf(2) p(2) False by (auto simp: pipe_ok_def Let_def fields ends none)
    moreover have "end_ok (insert p P) s' e" if "e \<in> E" for e
      using pipes_okD(3) [OF ok that] by (simp add: end_ok_def fields)
    ultimately show ?thesis using pipes_okD(1) [OF ok] newp(1,2) False by (simp add: pipes_ok_def)
  qed
qed

lemma create_end_ok:
  assumes ok: "pipes_ok P E s" and fresh: "pipe_kalloc_fresh kalloc" and p: "p \<in> P"
    and run: "pipe_create_end kalloc p rd s = (e, s')"
  shows "if e = NULL then s' = s
    else e \<notin> P \<union> E \<and> pipes_ok P (insert e E) s' \<and> pe_pipe (end_at s' e) = p \<and> is_read (end_at s' e) = rd"
proof (cases "kalloc sizeof_pipe_end s = NULL")
  case True
  then show ?thesis using run pipes_okD(2) [OF ok p] by (auto simp: pipe_create_end_def Let_def pipe_ok_def)
next
  case False
  have e: "e = kalloc sizeof_pipe_end s" "e \<noteq> NULL" and ef: "e \<notin> alive s" and pn: "p \<noteq> NULL"
    using run False pipe_kalloc_freshD [OF fresh False] pipes_okD(2) [OF ok p] by (auto simp: pipe_create_end_def Let_def pipe_ok_def)
  note new = fresh_object [OF ok ef]
  let ?up = "\<lambda>x. if rd then x\<lparr>readers := readers x + 1\<rparr> else x\<lparr>writers := writers x + 1\<rparr>"
  have fields: "pipe_at s' r = (if r = p then ?up (pipe_at s p) else pipe_at s r)" "alive s' = insert e (alive s)"
    "end_at s' a = (if a = e then \<lparr>pe_magic = PIPE_MAGIC, is_read = rd, pe_pipe = p, pe_flags = 0\<rparr> else end_at s a)" for r a
    using run e(2) pn by (auto simp: pipe_create_end_def Let_def split: if_splits)
  have buf: "buffer (pipe_at s' r) = buffer (pipe_at s r)" for r by (simp add: fields)
  have ends: "ends_of s' (insert e E) r rd' = (if r = p \<and> rd' = rd then insert e (ends_of s E r rd') else ends_of s E r rd')" for r rd'
    using new(2) by (auto simp: ends_of_def fields)
  have "e \<notin> ends_of s E r rd'" for r rd' using new(2) by (simp add: ends_of_def)
  then have card: "card (ends_of s' (insert e E) r rd') = card (ends_of s E r rd') + (if r = p \<and> rd' = rd then 1 else 0)" for r rd'
    using pipes_okD(1) [OF ok] by (simp add: ends)
  have "pipe_ok P (insert e E) s' r" if "r \<in> P" for r
    using pipes_okD(2) [OF ok that] new(1) new(3) [OF that] that
    by (auto simp: pipe_ok_def Let_def buf card) (auto simp: fields)
  moreover have "end_ok P s' a" if "a \<in> insert e E" for a
    using pipes_okD(3) [OF ok, of a] that p e(2) by (auto simp: end_ok_def fields)
  ultimately show ?thesis using pipes_okD(1) [OF ok] new(1,2) e(2) by (simp add: pipes_ok_def fields)
qed

lemma close_ok:
  assumes ok: "pipes_ok P E s" and e: "e \<in> E"
  defines "p \<equiv> pe_pipe (end_at s e)" and "s' \<equiv> pipe_close_end e s"
  shows "pipes_ok (if \<exists>a \<in> E - {e}. pe_pipe (end_at s a) = p then P else P - {p}) (E - {e}) s'"
    and "p \<in> alive s' \<longleftrightarrow> (\<exists>a \<in> E - {e}. pe_pipe (end_at s a) = p)" and "e \<notin> alive s'"
    and "wakes s' = p # wakes s"
proof -
  have ee: "e \<noteq> NULL" "pe_magic (end_at s e) = PIPE_MAGIC" and pP: "p \<in> P"
    using pipes_okD(3) [OF ok e] by (auto simp: end_ok_def p_def)
  have po: "pipe_ok P E s p" by (rule pipes_okD(2) [OF ok pP])
  then have pn: "p \<noteq> NULL" "p \<notin> E" by (auto simp: pipe_ok_def Let_def)
  let ?rd = "is_read (end_at s e)"
  have fin: "finite E" by (rule pipes_okD(1) [OF ok])
  have mem: "e \<in> ends_of s E p ?rd" using e by (simp add: ends_of_def p_def)
  then have pos: "card (ends_of s E p ?rd) > 0" using fin by (auto simp: card_gt_0_iff)
  define x1 where "x1 = (if ?rd then (pipe_at s p)\<lparr>readers := readers (pipe_at s p) - 1\<rparr>
    else (pipe_at s p)\<lparr>writers := writers (pipe_at s p) - 1\<rparr>)"
  have up: "0 < readers (pipe_at s p)" if ?rd using po pos that by (simp add: pipe_ok_def Let_def)
  have up': "0 < writers (pipe_at s p)" if "\<not> ?rd" using po pos that by (simp add: pipe_ok_def Let_def)
  have bn: "buffer x1 = buffer (pipe_at s p)" by (simp add: x1_def)
  have bne: "buffer (pipe_at s p) \<noteq> NULL" using po by (simp add: pipe_ok_def Let_def)
  have fields: "pipe_at s' r = (if r = p then x1 else pipe_at s r)" "wakes s' = p # wakes s"
    "end_at s' a = (if a = e then (end_at s e)\<lparr>pe_magic := 0\<rparr> else end_at s a)"
    "alive s' = (if readers x1 = 0 \<and> writers x1 = 0 then alive s - {buffer (pipe_at s p)} - {p} else alive s) - {e}" for r a
    using ee pn bn bne up up'
    by (simp_all add: s'_def pipe_close_end_def Let_def p_def [symmetric] x1_def) auto
  have ends: "ends_of s' (E - {e}) r rd = ends_of s E r rd - {e}" for r rd by (auto simp: ends_of_def fields)
  have card: "int (card (ends_of s' (E - {e}) r rd)) = int (card (ends_of s E r rd)) - (if r = p \<and> rd = ?rd then 1 else 0)" for r rd
  proof (cases "r = p \<and> rd = ?rd")
    case True
    then show ?thesis using mem pos fin by (simp add: ends card_Diff_singleton of_nat_diff)
  next
    case False
    then have "e \<notin> ends_of s E r rd" by (auto simp: ends_of_def p_def)
    then show ?thesis using False by (simp add: ends)
  qed
  have counts: "readers x1 = int (card (ends_of s' (E - {e}) p True))" "writers x1 = int (card (ends_of s' (E - {e}) p False))"
    using po unfolding card by (auto simp: x1_def pipe_ok_def Let_def)
  have last: "readers x1 = 0 \<and> writers x1 = 0 \<longleftrightarrow> \<not> (\<exists>a \<in> E - {e}. pe_pipe (end_at s a) = p)"
  proof -
    have "readers x1 = 0 \<and> writers x1 = 0 \<longleftrightarrow> ends_of s E p True - {e} = {} \<and> ends_of s E p False - {e} = {}"
      using fin by (simp add: counts ends)
    also have "\<dots> \<longleftrightarrow> \<not> (\<exists>a \<in> E - {e}. pe_pipe (end_at s a) = p)" by (auto simp: ends_of_def)
    finally show ?thesis .
  qed
  show "e \<notin> alive s'" "wakes s' = p # wakes s" by (simp_all add: fields)
  show "p \<in> alive s' \<longleftrightarrow> (\<exists>a \<in> E - {e}. pe_pipe (end_at s a) = p)"
    using po pn e unfolding fields last by (auto simp: pipe_ok_def Let_def)
  let ?P = "if \<exists>a \<in> E - {e}. pe_pipe (end_at s a) = p then P else P - {p}"
  have buf: "buffer (pipe_at s' r) = buffer (pipe_at s r)" for r by (simp add: fields bn)
  have "pipe_ok ?P (E - {e}) s' r" if r: "r \<in> ?P" for r
  proof -
    have rP: "r \<in> P" using r by (auto split: if_splits)
    note ro = pipes_okD(2) [OF ok rP]
    have "readers (pipe_at s' r) = int (card (ends_of s' (E - {e}) r True)) \<and>
        writers (pipe_at s' r) = int (card (ends_of s' (E - {e}) r False))"
    proof (cases "r = p")
      case True
      then show ?thesis using counts by (simp add: fields)
    next
      case False
      then show ?thesis using ro unfolding card by (simp add: fields pipe_ok_def Let_def)
    qed
    moreover have "r \<in> alive s' \<and> buffer (pipe_at s r) \<in> alive s'"
    proof -
      have "r \<noteq> e" "buffer (pipe_at s r) \<noteq> e" "r \<noteq> buffer (pipe_at s p)" "buffer (pipe_at s r) \<noteq> p"
        using ro po e rP pP by (auto simp: pipe_ok_def Let_def)
      moreover have "readers x1 = 0 \<and> writers x1 = 0 \<Longrightarrow> r \<noteq> p \<and> buffer (pipe_at s r) \<noteq> buffer (pipe_at s p)"
        using r last po rP by (auto simp: pipe_ok_def Let_def)
      ultimately show ?thesis using ro unfolding fields by (auto simp: pipe_ok_def Let_def)
    qed
    ultimately show ?thesis using ro by (auto simp: pipe_ok_def Let_def buf split: if_splits)
  qed
  moreover have "end_ok ?P s' a" if a: "a \<in> E - {e}" for a
  proof -
    note ao = pipes_okD(3) [OF ok, of a]
    have "a \<noteq> p" "a \<noteq> buffer (pipe_at s p)" using po a by (auto simp: pipe_ok_def Let_def)
    then have "a \<in> alive s'" using ao a by (auto simp: fields end_ok_def)
    then show ?thesis using ao a by (auto simp: end_ok_def fields)
  qed
  ultimately show "pipes_ok ?P (E - {e}) s'" using fin by (simp add: pipes_ok_def)
qed

end
