(* ===== verification/Pipes.thy ===== *)
theory Pipes
  imports PipeEnds
begin

text \<open>
  The properties of pipes: a transfer moves exactly the bytes it reports, the bytes come out in the order
  they went in, a reader returns when there is something to return, and pipes live as long as their ends.
\<close>

section \<open>Waiting\<close>

text \<open>
  The state before the \<open>k\<close>-th round of a wait that has not ended, \<open>None\<close> when a sleep before it does not end, and
  whether that round ends the wait. A signal that is seen after the sleep ends it only if the sleep ends.
\<close>

primrec after :: "(nat \<Rightarrow> pipe_mem \<Rightarrow> pipe_mem option) \<Rightarrow> pipe_mem \<Rightarrow> nat \<Rightarrow> pipe_mem option" where
  "after others st 0 = Some st"
| "after others st (Suc k) = Option.bind (after others st k) (others k)"

definition read_ends :: "(nat \<Rightarrow> pipe_mem \<Rightarrow> pipe_mem option) \<Rightarrow> (nat \<Rightarrow> bool) \<Rightarrow> (nat \<Rightarrow> bool) \<Rightarrow> nat \<Rightarrow> pipe_mem \<Rightarrow> bool" where
  "read_ends others sig sig' k st \<longleftrightarrow>
     used (fst st) \<noteq> 0 \<or> writers (fst st) = 0 \<or> sig k \<or> sig' k \<and> others k st \<noteq> None"

lemma after_earlier:
  assumes "after others st n = Some x" and "k \<le> n"
  shows "\<exists>y. after others st k = Some y"
  using assms
proof (induction n arbitrary: x)
  case (Suc n)
  then obtain y where "after others st n = Some y" by (auto simp: bind_eq_Some_conv)
  then show ?case using Suc.IH Suc.prems by (cases "k = Suc n") auto
qed simp

lemma read_wait_ends:
  assumes a: "after others st n = Some x" and e: "read_ends others sig sig' n x" and "k \<le> n" and "after others st k = Some y"
  shows "\<exists>r. read_wait others sig sig' True fl k y = Some r"
  using assms(3,4)
proof (induction "n - k" arbitrary: k y)
  case 0
  then have "y = x" "k = n" using a by auto
  then show ?case using e by (subst read_wait.simps) (auto simp: read_ends_def)
next
  case (Suc d)
  then have d: "d = n - Suc k" "Suc k \<le> n" by linarith+
  obtain z where z: "after others st (Suc k) = Some z" using after_earlier [OF a d(2)] by blast
  then have "others k y = Some z" using Suc.prems(2) by simp
  then show ?case using Suc.hyps(1) [OF d z] by (subst read_wait.simps) auto
qed

lemma read_wait_needs:
  assumes "read_wait others sig sig' True fl 0 st = Some r" and fl: "fl AND O_NONBLOCK = 0"
  shows "\<exists>n y. after others st n = Some y \<and> read_ends others sig sig' n y"
proof -
  let ?E = "\<exists>n y. after others st n = Some y \<and> read_ends others sig sig' n y"
  let ?Q = "\<lambda>oth sg sg' cur f k x (r :: int option \<times> pipe_mem).
    oth = others \<and> sg = sig \<and> sg' = sig' \<and> cur \<and> f = fl \<and> after others st k = Some x \<longrightarrow> ?E"
  have "?Q others sig sig' True fl 0 st r"
  proof (rule read_wait.raw_induct [where P = ?Q, OF _ assms(1)])
    fix f oth sg sg' cur fl' k x r
    assume IH: "\<And>oth sg sg' cur fl' k x r. f oth sg sg' cur fl' k x = Some r \<Longrightarrow> ?Q oth sg sg' cur fl' k x r"
      and run: "(if used (fst x) \<noteq> 0 then Some (None, x) else if writers (fst x) = 0 then Some (Some 0, x)
        else if fl' AND O_NONBLOCK \<noteq> 0 then Some (Some (- EAGAIN), x) else if cur \<and> sg k then Some (Some (- EINTR), x)
        else if cur then (case oth k x of None \<Rightarrow> None
          | Some st1 \<Rightarrow> if sg' k then Some (Some (- EINTR), st1) else f oth sg sg' cur fl' (Suc k) st1)
        else Some (Some (- EAGAIN), x)) = Some r"
    show "?Q oth sg sg' cur fl' k x r"
    proof (intro impI)
      assume eqs: "oth = others \<and> sg = sig \<and> sg' = sig' \<and> cur \<and> fl' = fl \<and> after others st k = Some x"
      show ?E
      proof (cases "read_ends others sig sig' k x")
        case False
        then obtain z where z: "others k x = Some z" "f others sig sig' True fl (Suc k) z = Some r"
          using run eqs fl by (auto simp: read_ends_def split: option.splits if_splits)
        then show ?thesis using IH [OF z(2)] eqs by simp
      qed (use eqs in blast)
    qed
  qed
  then show ?thesis by simp
qed

section \<open>Properties\<close>

text \<open>An example: a pipe of four bytes at \<^verbatim>\<open>0x1000\<close> holding \<open>7, 8\<close> across the end of the ring, and the buffer of a caller at \<^verbatim>\<open>0x2000\<close>.\<close>

definition demo_pipe :: pipe where
  "demo_pipe = \<lparr>buffer = 0x1000, p_size = 4, read_pos = 3, write_pos = 1, used = 2, readers = 1, writers = 1\<rparr>"

definition demo_mem :: bytes where
  "demo_mem = (\<lambda>a. if a = 0x1003 then 7 else if a = 0x1000 then 8 else if a = 0x2000 then 1 else if a = 0x2001 then 2 else 0)"

definition demo_end :: "bool \<Rightarrow> pipe_end" where
  "demo_end rd = \<lparr>pe_magic = PIPE_MAGIC, is_read = rd, pe_pipe = 0x500, pe_flags = 0\<rparr>"

lemma demo_pipe_inv: "pipe_inv demo_pipe" "outside demo_pipe 0x2000 3"
proof -
  show "pipe_inv demo_pipe" by (simp add: pipe_inv_def demo_pipe_def)
  show "outside demo_pipe 0x2000 3" by (auto simp: outside_def demo_pipe_def in_block_iff)
qed

text \<open>C12: A transfer that does not have to wait moves what it says. With data in the pipe, a read returns the
  smaller of the count and the number of bytes in the pipe; the buffer of the caller gets exactly the oldest
  bytes, which leave the pipe. With space in the pipe and a reader, a write returns the smaller of the count and
  the space, and the pipe gets the bytes at its end. Waiting tasks are woken; of the pipe only the position and the
  number of bytes change, in memory only the buffer of the caller or the ring. Every other call
  that does not sleep changes nothing: an end that is missing, has no pipe or points the other way gives EBADF, a
  count of 0 gives 0, an empty pipe without writers 0 and with writers EAGAIN (non-blocking end, or no current task) or
  EINTR (pending signal), a pipe without readers EPIPE, and a full pipe with readers EINTR (pending signal) or EAGAIN (no
  current task).\<close>

theorem pipe_transfer_correct:
  fixes others :: "nat \<Rightarrow> pipe_mem \<Rightarrow> pipe_mem option" and sig sig' :: "nat \<Rightarrow> bool" and cur :: bool
  assumes inv: "pipe_inv p" and out: "outside p buf (unat count)" and c: "count \<noteq> 0" and e: "pe_pipe en \<noteq> NULL"
  defines "rd \<equiv> pipe_read_to_user others sig sig' cur" and "wr \<equiv> pipe_write_from_user others sig sig' cur"
  shows "(is_read en \<and> used p \<noteq> 0 \<longrightarrow>
      (\<exists>p' m' n. rd (Some en) buf count (p, m) = Some (int n, True, (p', m')) \<and> n = min (unat count) (unat (used p)) \<and>
        p' = p\<lparr>read_pos := (read_pos p + of_nat n) mod p_size p, used := used p - of_nat n\<rparr> \<and> pipe_inv p' \<and>
        bytes_at m' buf n @ contents (p', m') = contents (p, m) \<and> (\<forall>a. \<not> in_block buf n a \<longrightarrow> m' a = m a))) \<and>
    (\<not> is_read en \<and> used p \<noteq> p_size p \<and> readers p \<noteq> 0 \<longrightarrow>
      (\<exists>p' m' n. wr (Some en) buf count (p, m) = Some (int n, True, (p', m')) \<and>
        n = min (unat count) (unat (p_size p) - unat (used p)) \<and>
        p' = p\<lparr>write_pos := (write_pos p + of_nat n) mod p_size p, used := used p + of_nat n\<rparr> \<and> pipe_inv p' \<and>
        contents (p', m') = contents (p, m) @ bytes_at m buf n \<and>
        (\<forall>a. \<not> in_block (buffer p) (unat (p_size p)) a \<longrightarrow> m' a = m a))) \<and>
    (is_read en \<and> used p = 0 \<and> writers p = 0 \<longrightarrow> rd (Some en) buf count (p, m) = Some (0, False, (p, m))) \<and>
    (is_read en \<and> used p = 0 \<and> writers p \<noteq> 0 \<and> (pe_flags en AND O_NONBLOCK \<noteq> 0 \<or> \<not> cur \<or> sig 0) \<longrightarrow>
      rd (Some en) buf count (p, m) =
        Some (if pe_flags en AND O_NONBLOCK \<noteq> 0 \<or> \<not> cur then - EAGAIN else - EINTR, False, (p, m))) \<and>
    (\<not> is_read en \<and> readers p = 0 \<longrightarrow> wr (Some en) buf count (p, m) = Some (- EPIPE, False, (p, m))) \<and>
    (\<not> is_read en \<and> used p = p_size p \<and> readers p \<noteq> 0 \<and> (\<not> cur \<or> sig 0) \<longrightarrow>
      wr (Some en) buf count (p, m) = Some (if cur then - EINTR else - EAGAIN, False, (p, m))) \<and>
    rd None buf k st = Some (- EBADF, False, st) \<and> wr None buf k st = Some (- EBADF, False, st) \<and>
    (pe_pipe en' = NULL \<or> \<not> is_read en' \<longrightarrow> rd (Some en') buf k st = Some (- EBADF, False, st)) \<and>
    (pe_pipe en' = NULL \<or> is_read en' \<longrightarrow> wr (Some en') buf k st = Some (- EBADF, False, st)) \<and>
    (is_read en \<longrightarrow> rd (Some en) buf 0 st = Some (0, False, st)) \<and>
    (\<not> is_read en \<longrightarrow> wr (Some en) buf 0 st = Some (0, False, st))"
proof -
  obtain n p' m' where r: "move_out buf count (p, m) = (n, p', m')" by (metis prod.collapse)
  obtain l q m2 where w: "move_in buf count (p, m) = (l, q, m2)" by (metis prod.collapse)
  note ro = move_out_step [OF inv out r] and wo = move_in_step [OF inv out w]
  have small: "sint x = int (unat x)" if "unat x \<le> 2 ^ 62" for x :: u64
  proof -
    have "int (unat x) \<le> int (2 ^ 62)" using that by (simp only: of_nat_le_iff)
    then have lt: "uint x < 2 ^ 63" by simp
    have "- (2 ^ 63) \<le> uint x" by (rule order_trans [OF _ uint_ge_0]) simp
    then have "signed_take_bit 63 (uint x) = uint x" using lt by (rule signed_take_bit_int_eq_self)
    then show ?thesis by (simp add: sint_uint)
  qed
  have "unat n \<le> 2 ^ 62" "unat l \<le> 2 ^ 62" using ro(2) wo(2) pipe_invD(3,6) [OF inv] by linarith+
  then have "sint n = int (unat n)" "sint l = int (unat l)" by (simp_all only: small)
  moreover have "bytes_at m' buf (unat n) @ contents (p', m') = contents (p, m)" using ro(3,4) by simp
  moreover have "of_nat (unat n) = n" "of_nat (unat l) = l" by simp_all
  moreover note run = pipe_read_to_user_def pipe_write_from_user_def read_wait.simps [of _ _ _ _ _ 0] write_wait.simps [of _ _ _ _ 0]
  ultimately have R: "is_read en \<and> used p \<noteq> 0 \<longrightarrow>
      (\<exists>p' m' n. rd (Some en) buf count (p, m) = Some (int n, True, (p', m')) \<and> n = min (unat count) (unat (used p)) \<and>
        p' = p\<lparr>read_pos := (read_pos p + of_nat n) mod p_size p, used := used p - of_nat n\<rparr> \<and> pipe_inv p' \<and>
        bytes_at m' buf n @ contents (p', m') = contents (p, m) \<and> (\<forall>a. \<not> in_block buf n a \<longrightarrow> m' a = m a))"
    and W: "\<not> is_read en \<and> used p \<noteq> p_size p \<and> readers p \<noteq> 0 \<longrightarrow>
      (\<exists>p' m' n. wr (Some en) buf count (p, m) = Some (int n, True, (p', m')) \<and>
        n = min (unat count) (unat (p_size p) - unat (used p)) \<and>
        p' = p\<lparr>write_pos := (write_pos p + of_nat n) mod p_size p, used := used p + of_nat n\<rparr> \<and> pipe_inv p' \<and>
        contents (p', m') = contents (p, m) @ bytes_at m buf n \<and>
        (\<forall>a. \<not> in_block (buffer p) (unat (p_size p)) a \<longrightarrow> m' a = m a))"
    unfolding rd_def wr_def using c e r w ro wo
    by (auto simp: run intro!: exI [of _ p'] exI [of _ m'] exI [of _ "unat n"] exI [of _ q] exI [of _ m2] exI [of _ "unat l"])
  show ?thesis using R W c e unfolding rd_def wr_def by (auto simp: run)
qed

theorem pipe_transfer_correct_witness:
  "\<exists>p' m'. pipe_read_to_user (\<lambda>_. Some) (\<lambda>_. False) (\<lambda>_. False) True (Some (demo_end True)) 0x2000 3 (demo_pipe, demo_mem) =
     Some (2, True, (p', m')) \<and> bytes_at m' 0x2000 2 = [7, 8]"
proof -
  have h: "pipe_inv demo_pipe" "outside demo_pipe 0x2000 (unat (3 :: u64))" "(3 :: u64) \<noteq> 0" "pe_pipe (demo_end True) \<noteq> NULL"
    using demo_pipe_inv by (simp_all add: demo_end_def)
  have "is_read (demo_end True)" "used demo_pipe = 2" by (simp_all add: demo_end_def demo_pipe_def)
  with pipe_transfer_correct [OF h, of "\<lambda>_. Some" "\<lambda>_. False" "\<lambda>_. False" True demo_mem 0 "(demo_pipe, demo_mem)" "demo_end True"] obtain p' m' where
    r: "pipe_read_to_user (\<lambda>_. Some) (\<lambda>_. False) (\<lambda>_. False) True (Some (demo_end True)) 0x2000 3 (demo_pipe, demo_mem) =
      Some (2, True, (p', m'))" and b: "bytes_at m' 0x2000 2 @ contents (p', m') = contents (demo_pipe, demo_mem)" by auto
  have "contents (demo_pipe, demo_mem) = [7, 8]" by code_simp
  moreover have "length (bytes_at m' 0x2000 2) = 2" by (simp add: bytes_at_def)
  ultimately have "bytes_at m' 0x2000 2 = [7, 8]" using b by (metis append_eq_append_conv append_Nil2 length_Cons list.size(3) numeral_2_eq_2)
  with r show ?thesis by blast
qed

text \<open>
  The life of a pipe, seen from outside: \<open>W\<close> are the bytes written so far, \<open>R\<close> the bytes read. Transfers of any
  tasks alternate in any order; between them memory outside the ring and the counts of ends change freely.
\<close>

inductive pipe_run :: "pipe_mem \<Rightarrow> u8 list \<Rightarrow> u8 list \<Rightarrow> pipe_mem \<Rightarrow> bool" for st0 where
  start: "pipe_run st0 [] [] st0"
| transfer_in: "pipe_run st0 W R (p, m) \<Longrightarrow> outside p buf (unat count) \<Longrightarrow> move_in buf count (p, m) = (n, p', m') \<Longrightarrow>
    pipe_run st0 (W @ bytes_at m buf (unat n)) R (p', m')"
| transfer_out: "pipe_run st0 W R (p, m) \<Longrightarrow> outside p buf (unat count) \<Longrightarrow> move_out buf count (p, m) = (n, p', m') \<Longrightarrow>
    pipe_run st0 W (R @ bytes_at m' buf (unat n)) (p', m')"
| other: "pipe_run st0 W R (p, m) \<Longrightarrow> \<forall>a. in_block (buffer p) (unat (p_size p)) a \<longrightarrow> m' a = m a \<Longrightarrow>
    pipe_run st0 W R (p\<lparr>readers := r, writers := w\<rparr>, m')"

lemma contents_other:
  assumes "pipe_inv p" and "\<forall>a. in_block (buffer p) (unat (p_size p)) a \<longrightarrow> m' a = m a"
  shows "contents (p\<lparr>readers := r, writers := w\<rparr>, m') = contents (p, m)"
proof -
  note i = pipe_invD [OF assms(1)]
  have "m' (buffer p + of_nat (x mod unat (p_size p))) = m (buffer p + of_nat (x mod unat (p_size p)))" for x
  proof -
    have "in_block (buffer p) (unat (p_size p)) (buffer p + of_nat (x mod unat (p_size p)))"
      using in_block_part [OF i(1), of 0 "unat (p_size p)" "x mod unat (p_size p)"] i(2) by simp
    then show ?thesis using assms(2) by blast
  qed
  then show ?thesis by (simp add: contents_def)
qed

text \<open>C11: A pipe delivers what was written, in order. Whatever readers and writers do, starting from an empty
  pipe, the bytes written are the bytes read followed by the bytes still in the pipe: none is lost,
  duplicated, reordered or invented, and the pipe never holds more than its size.\<close>

theorem pipe_delivers:
  assumes "pipe_run st0 W R st" and "pipe_inv (fst st0)" and "used (fst st0) = 0"
  shows "W = R @ contents st \<and> length (contents st) \<le> unat (p_size (fst st)) \<and> pipe_inv (fst st)"
proof -
  have "W = R @ contents st \<and> pipe_inv (fst st)"
    using assms
  proof (induction rule: pipe_run.induct)
    case start
    then show ?case by (simp add: contents_def)
  next
    case (transfer_in W R p m buf count n p' m')
    then have inv: "pipe_inv p" by simp
    show ?case using transfer_in move_in_step(1,3) [OF inv transfer_in.hyps(2,3)] by simp
  next
    case (transfer_out W R p m buf count n p' m')
    then have inv: "pipe_inv p" by simp
    show ?case using transfer_out move_out_step(1,3,4) [OF inv transfer_out.hyps(2,3)] by simp
  next
    case (other W R p m m' r w)
    then have inv: "pipe_inv p" by simp
    then show ?case using other contents_other [OF inv other.hyps(2)] by (simp add: pipe_inv_def)
  qed
  moreover from this have "length (contents st) \<le> unat (p_size (fst st))"
    using pipe_invD(3) [of "fst st"] by (simp add: contents_def)
  ultimately show ?thesis by simp
qed

definition demo_empty :: pipe where "demo_empty = demo_pipe\<lparr>write_pos := 3, used := 0\<rparr>"

theorem pipe_delivers_witness:
  "\<exists>st. pipe_run (demo_empty, demo_mem) [1, 2] [] st \<and> contents st = [1, 2]"
proof -
  have inv: "pipe_inv (fst (demo_empty, demo_mem))" "used (fst (demo_empty, demo_mem)) = 0"
    by (simp_all add: pipe_inv_def demo_empty_def demo_pipe_def)
  have o: "outside demo_empty 0x2000 (unat (2 :: u64))"
    by (auto simp: outside_def demo_empty_def demo_pipe_def in_block_iff)
  obtain n p' m' where w: "move_in 0x2000 2 (demo_empty, demo_mem) = (n, p', m')" by (metis prod.collapse)
  have n: "unat n = 2" using move_in_step(2) [OF _ o w] inv by (simp add: demo_empty_def demo_pipe_def)
  have "bytes_at demo_mem 0x2000 2 = [1, 2]" by code_simp
  then have r: "pipe_run (demo_empty, demo_mem) [1, 2] [] (p', m')"
    using pipe_run.transfer_in [OF pipe_run.start o w] n by simp
  then show ?thesis using pipe_delivers [OF r inv] by auto
qed

text \<open>C13: A blocking read returns exactly when there is something to return. It returns if and only if it reaches
  a round of its wait, every sleep before it having ended, at which the pipe holds data, has no writer, or a
  signal is pending before the sleep or after it, whatever the other tasks do to the pipe while it sleeps. A
  reader that is woken for nothing goes on waiting, and one that is never woken does not return.\<close>

theorem pipe_read_returns:
  assumes "is_read en" and "pe_pipe en \<noteq> NULL" and "pe_flags en AND O_NONBLOCK = 0" and "count \<noteq> 0"
  shows "(\<exists>r. pipe_read_to_user others sig sig' True (Some en) buf count st = Some r) \<longleftrightarrow>
    (\<exists>k y. after others st k = Some y \<and> read_ends others sig sig' k y)"
proof -
  have "(\<exists>r. pipe_read_to_user others sig sig' True (Some en) buf count st = Some r) \<longleftrightarrow>
      (\<exists>r. read_wait others sig sig' True (pe_flags en) 0 st = Some r)"
    using assms by (auto simp: pipe_read_to_user_def split: option.splits prod.splits)
  also have "\<dots> \<longleftrightarrow> (\<exists>k y. after others st k = Some y \<and> read_ends others sig sig' k y)"
    using read_wait_ends [of others st _ _ sig sig' 0 st "pe_flags en"] read_wait_needs [of others sig sig' "pe_flags en" st] assms(3)
    by fastforce
  finally show ?thesis .
qed

theorem pipe_read_returns_witness:
  "(\<nexists>r. pipe_read_to_user (\<lambda>_. Some) (\<lambda>_. False) (\<lambda>_. False) True (Some (demo_end True)) 0x2000 3 (demo_empty, demo_mem) = Some r) \<and>
   (\<exists>r. pipe_read_to_user (\<lambda>k _. Some (if k = 2 then demo_pipe else demo_empty, demo_mem)) (\<lambda>_. False) (\<lambda>_. False) True (Some (demo_end True))
      0x2000 3 (demo_empty, demo_mem) = Some r)"
proof -
  have h: "is_read (demo_end True)" "pe_pipe (demo_end True) \<noteq> NULL" "pe_flags (demo_end True) AND O_NONBLOCK = 0" "(3 :: u64) \<noteq> 0"
    by (simp_all add: demo_end_def)
  have "after (\<lambda>_. Some) (demo_empty, demo_mem) k = Some (demo_empty, demo_mem)" for k by (induction k) simp_all
  then have "\<nexists>k y. after (\<lambda>_. Some) (demo_empty, demo_mem) k = Some y \<and> read_ends (\<lambda>_. Some) (\<lambda>_. False) (\<lambda>_. False) k y"
    by (simp add: read_ends_def demo_empty_def demo_pipe_def)
  moreover have "after (\<lambda>k _. Some (if k = 2 then demo_pipe else demo_empty, demo_mem)) (demo_empty, demo_mem) 3 = Some (demo_pipe, demo_mem)"
    by (simp add: numeral_3_eq_3)
  moreover have "read_ends (\<lambda>k _. Some (if k = 2 then demo_pipe else demo_empty, demo_mem)) (\<lambda>_. False) (\<lambda>_. False) 3 (demo_pipe, demo_mem)"
    by (simp add: read_ends_def demo_pipe_def)
  ultimately show ?thesis unfolding pipe_read_returns [OF h] by blast
qed

text \<open>C14: A pipe lives as long as its ends. Creating a pipe, opening, duplicating and closing ends keep the
  counts of readers and writers equal to the numbers of open ends. Closing an end frees it and wakes the
  tasks that wait on the pipe; the pipe and its buffer are freed exactly when it was the last end.\<close>

theorem pipe_ends_counted:
  assumes ok: "pipes_ok P E s" and fresh: "pipe_kalloc_fresh kalloc"
  shows "(pipe_create kalloc sz s = (p, s1) \<longrightarrow> (if p = NULL then s1 = s else p \<notin> P \<union> E \<and> pipes_ok (insert p P) E s1)) \<and>
    (q \<in> P \<and> pipe_create_end kalloc q rd s = (a, s2) \<longrightarrow>
      (if a = NULL then s2 = s else a \<notin> P \<union> E \<and> pipes_ok P (insert a E) s2)) \<and>
    (e \<in> E \<and> pipe_dup_end kalloc e s = (b, s3) \<longrightarrow>
      (if b = NULL then s3 = s else b \<notin> P \<union> E \<and> pipes_ok P (insert b E) s3 \<and> is_read (end_at s3 b) = is_read (end_at s e))) \<and>
    (e \<in> E \<longrightarrow> (let s4 = pipe_close_end e s; r = pe_pipe (end_at s e); more = (\<exists>d \<in> E - {e}. pe_pipe (end_at s d) = r) in
      pipes_ok (if more then P else P - {r}) (E - {e}) s4 \<and> e \<notin> alive s4 \<and> (r \<in> alive s4 \<longleftrightarrow> more) \<and> wakes s4 = r # wakes s))"
proof (intro conjI impI)
  assume "e \<in> E \<and> pipe_dup_end kalloc e s = (b, s3)"
  then have e: "e \<in> E" and run: "pipe_dup_end kalloc e s = (b, s3)" by blast+
  have "pipe_create_end kalloc (pe_pipe (end_at s e)) (is_read (end_at s e)) s = (b, s3)" "pe_pipe (end_at s e) \<in> P"
    using run pipes_okD(3) [OF ok e] by (auto simp: pipe_dup_end_def end_ok_def)
  from create_end_ok [OF ok fresh this(2,1)]
  show "if b = NULL then s3 = s else b \<notin> P \<union> E \<and> pipes_ok P (insert b E) s3 \<and> is_read (end_at s3 b) = is_read (end_at s e)"
    by (simp split: if_splits)
next
  assume "e \<in> E"
  from close_ok [OF ok this]
  show "let s4 = pipe_close_end e s; r = pe_pipe (end_at s e); more = (\<exists>d \<in> E - {e}. pe_pipe (end_at s d) = r) in
      pipes_ok (if more then P else P - {r}) (E - {e}) s4 \<and> e \<notin> alive s4 \<and> (r \<in> alive s4 \<longleftrightarrow> more) \<and> wakes s4 = r # wakes s"
    unfolding Let_def by blast
next
  assume "pipe_create kalloc sz s = (p, s1)"
  from create_ok [OF ok fresh this] show "if p = NULL then s1 = s else p \<notin> P \<union> E \<and> pipes_ok (insert p P) E s1" .
next
  assume "q \<in> P \<and> pipe_create_end kalloc q rd s = (a, s2)"
  then have "q \<in> P" "pipe_create_end kalloc q rd s = (a, s2)" by blast+
  from create_end_ok [OF ok fresh this] show "if a = NULL then s2 = s else a \<notin> P \<union> E \<and> pipes_ok P (insert a E) s2"
    by (simp split: if_splits)
qed

text \<open>No pipe yet, and an allocator of three objects, at the addresses 16, 32 and 48.\<close>

definition demo_none :: pipes where
  "demo_none = \<lparr>pipe_at = (\<lambda>_. demo_pipe), end_at = (\<lambda>_. demo_end True), alive = {}, wakes = []\<rparr>"

definition demo_kalloc :: "u64 \<Rightarrow> pipes \<Rightarrow> addr" where
  "demo_kalloc n s = (if 16 \<notin> alive s then 16 else if 32 \<notin> alive s then 32 else if 48 \<notin> alive s then 48 else NULL)"

theorem pipe_ends_counted_witness:
  "fst (pipe_create demo_kalloc 4096 demo_none) = 16 \<and> pipes_ok {16} {} (snd (pipe_create demo_kalloc 4096 demo_none))"
proof -
  have ok: "pipes_ok {} {} demo_none" by (simp add: pipes_ok_def)
  have fr: "pipe_kalloc_fresh demo_kalloc"
    by (simp add: pipe_kalloc_fresh_def demo_kalloc_def)
  have one: "fst (pipe_create demo_kalloc 4096 demo_none) = 16"
    by (simp add: pipe_create_def demo_kalloc_def demo_none_def Let_def)
  have "pipe_create demo_kalloc 4096 demo_none = (16, snd (pipe_create demo_kalloc 4096 demo_none))" using one by (metis prod.collapse)
  with pipe_ends_counted [OF ok fr, of 4096 16 "snd (pipe_create demo_kalloc 4096 demo_none)"] one show ?thesis by simp
qed

end
