(* ===== verification/Ctype.thy ===== *)
theory Ctype
  imports Prelude
begin

text \<open>
  Character classes and case mapping of \<^verbatim>\<open>userland/libc/src/ctype/ctype.c\<close>. A C \<^verbatim>\<open>int\<close>
  argument is an \<open>int\<close>; the functions that return a truth value return a \<open>bool\<close>.
\<close>

definition isalpha :: "int \<Rightarrow> bool" where
  "isalpha c \<longleftrightarrow> (c \<ge> 97 \<and> c \<le> 122) \<or> (c \<ge> 65 \<and> c \<le> 90)"

definition isdigit :: "int \<Rightarrow> bool" where
  "isdigit c \<longleftrightarrow> c \<ge> 48 \<and> c \<le> 57"

definition isalnum :: "int \<Rightarrow> bool" where
  "isalnum c \<longleftrightarrow> isalpha c \<or> isdigit c"

definition isspace :: "int \<Rightarrow> bool" where
  "isspace c \<longleftrightarrow> c = 32 \<or> c = 9 \<or> c = 10 \<or> c = 13 \<or> c = 12 \<or> c = 11"

definition isupper :: "int \<Rightarrow> bool" where
  "isupper c \<longleftrightarrow> c \<ge> 65 \<and> c \<le> 90"

definition islower :: "int \<Rightarrow> bool" where
  "islower c \<longleftrightarrow> c \<ge> 97 \<and> c \<le> 122"

definition isprint :: "int \<Rightarrow> bool" where
  "isprint c \<longleftrightarrow> c \<ge> 0x20 \<and> c \<le> 0x7E"

definition iscntrl :: "int \<Rightarrow> bool" where
  "iscntrl c \<longleftrightarrow> (c \<ge> 0 \<and> c \<le> 0x1F) \<or> c = 0x7F"

definition isxdigit :: "int \<Rightarrow> bool" where
  "isxdigit c \<longleftrightarrow> isdigit c \<or> (c \<ge> 97 \<and> c \<le> 102) \<or> (c \<ge> 65 \<and> c \<le> 70)"

definition ispunct :: "int \<Rightarrow> bool" where
  "ispunct c \<longleftrightarrow> isprint c \<and> \<not> isspace c \<and> \<not> isalnum c"

definition isgraph :: "int \<Rightarrow> bool" where
  "isgraph c \<longleftrightarrow> isprint c \<and> c \<noteq> 32"

definition isblank :: "int \<Rightarrow> bool" where
  "isblank c \<longleftrightarrow> c = 32 \<or> c = 9"

text \<open>The cast to \<^verbatim>\<open>unsigned int\<close> makes a negative argument large.\<close>

definition isascii :: "int \<Rightarrow> bool" where
  "isascii c \<longleftrightarrow> (of_int c :: u32) \<le> 127"

definition toupper :: "int \<Rightarrow> int" where
  "toupper c = (if islower c then c - (97 - 65) else c)"

definition tolower :: "int \<Rightarrow> int" where
  "tolower c = (if isupper c then c + (97 - 65) else c)"

lemmas ctype_defs = isalpha_def isdigit_def isalnum_def isspace_def isupper_def islower_def
  isprint_def iscntrl_def isxdigit_def ispunct_def isgraph_def isblank_def toupper_def tolower_def

lemma tolower_idem [simp]: "tolower (tolower c) = tolower c"
  by (auto simp: ctype_defs)

lemma tolower_eq_zero [simp]: "tolower c = 0 \<longleftrightarrow> c = 0"
  by (auto simp: ctype_defs)

text \<open>
  The classes partition and nest as the C standard asks in the C locale: each ASCII character
  is exactly one of alphanumeric, punctuation, the space and a control character, and the two
  case mappings are inverse to each other on letters and the identity elsewhere.
\<close>

lemma ctype_partition:
  assumes "0 \<le> c" and "c \<le> 127"
  shows "length (filter (\<lambda>P. P c) [isalnum, ispunct, \<lambda>c. c = 32, iscntrl]) = 1"
    and "isalpha c \<longleftrightarrow> isupper c \<noteq> islower c"
    and "isgraph c \<longleftrightarrow> isalnum c \<or> ispunct c" and "isprint c \<longleftrightarrow> \<not> iscntrl c" and "isascii c"
  using assms by (auto simp: ctype_defs isascii_def word_le_def uint_word_of_int)

lemma ctype_case:
  "islower c \<Longrightarrow> isupper (toupper c) \<and> tolower (toupper c) = c"
  "isupper c \<Longrightarrow> islower (tolower c) \<and> toupper (tolower c) = c"
  "\<not> isalpha c \<Longrightarrow> tolower c = c \<and> toupper c = c"
  by (auto simp: ctype_defs)

end
