(* ===== verification/CString.thy ===== *)
theory CString
  imports Bytes Ctype
begin

text \<open>
  The string functions of the C library, \<^verbatim>\<open>userland/libc/src/string/string.c\<close> and
  \<^verbatim>\<open>strnlen.c\<close>, on byte memory. A loop that runs to the end of a string is a partial
  function: \<open>None\<close> when memory holds no terminating zero. Functions that return their
  destination argument return only the memory here. \<^verbatim>\<open>malloc\<close> is an argument: it gives a
  pointer and the memory after its own bookkeeping.
\<close>

section \<open>Blocks\<close>

definition memcpy :: "addr \<Rightarrow> addr \<Rightarrow> u64 \<Rightarrow> bytes \<Rightarrow> bytes" where
  "memcpy dest src n m = copy_up (unat n) dest src m"

text \<open>\<open>while (n--) *--d = *--s;\<close>\<close>

fun copy_down :: "nat \<Rightarrow> addr \<Rightarrow> addr \<Rightarrow> bytes \<Rightarrow> bytes" where
  "copy_down 0 d s m = m"
| "copy_down (Suc n) d s m = copy_down n (d - 1) (s - 1) (m(d - 1 := m (s - 1)))"

definition memmove :: "addr \<Rightarrow> addr \<Rightarrow> u64 \<Rightarrow> bytes \<Rightarrow> bytes" where
  "memmove dest src n m =
     (if dest < src then copy_up (unat n) dest src m
      else copy_down (unat n) (dest + n) (src + n) m)"

definition memset :: "addr \<Rightarrow> u32 \<Rightarrow> u64 \<Rightarrow> bytes \<Rightarrow> bytes" where
  "memset s c n m = set_bytes (unat n) s (ucast c) m"

text \<open>The difference of two bytes read as \<^verbatim>\<open>unsigned char\<close>, an \<^verbatim>\<open>int\<close>.\<close>

definition byte_diff :: "u8 \<Rightarrow> u8 \<Rightarrow> int" where
  "byte_diff a b = uint a - uint b"

fun memcmp_loop :: "nat \<Rightarrow> addr \<Rightarrow> addr \<Rightarrow> bytes \<Rightarrow> int" where
  "memcmp_loop 0 p1 p2 m = 0"
| "memcmp_loop (Suc n) p1 p2 m =
     (if m p1 \<noteq> m p2 then byte_diff (m p1) (m p2) else memcmp_loop n (p1 + 1) (p2 + 1) m)"

definition memcmp :: "addr \<Rightarrow> addr \<Rightarrow> u64 \<Rightarrow> bytes \<Rightarrow> int" where
  "memcmp s1 s2 n m = memcmp_loop (unat n) s1 s2 m"

fun memchr_loop :: "nat \<Rightarrow> addr \<Rightarrow> u8 \<Rightarrow> bytes \<Rightarrow> addr" where
  "memchr_loop 0 p ch m = NULL"
| "memchr_loop (Suc n) p ch m = (if m p = ch then p else memchr_loop n (p + 1) ch m)"

definition memchr :: "addr \<Rightarrow> u32 \<Rightarrow> u64 \<Rightarrow> bytes \<Rightarrow> addr" where
  "memchr s c n m = memchr_loop (unat n) s (ucast c) m"

fun memrchr_loop :: "nat \<Rightarrow> addr \<Rightarrow> u8 \<Rightarrow> bytes \<Rightarrow> addr" where
  "memrchr_loop 0 p ch m = NULL"
| "memrchr_loop (Suc n) p ch m = (if m (p - 1) = ch then p - 1 else memrchr_loop n (p - 1) ch m)"

definition memrchr :: "addr \<Rightarrow> u32 \<Rightarrow> u64 \<Rightarrow> bytes \<Rightarrow> addr" where
  "memrchr s c n m = memrchr_loop (unat n) (s + n) (ucast c) m"

section \<open>Length and copying\<close>

partial_function (option) strlen_loop :: "bytes \<Rightarrow> addr \<Rightarrow> u64 \<Rightarrow> u64 option" where
  "strlen_loop m s len = (if m s \<noteq> 0 then strlen_loop m (s + 1) (len + 1) else Some len)"

declare strlen_loop.simps [code]

definition strlen :: "addr \<Rightarrow> bytes \<Rightarrow> u64 option" where
  "strlen s m = strlen_loop m s 0"

text \<open>\<open>while ((*d++ = *src++));\<close>\<close>

partial_function (option) copy_string :: "addr \<Rightarrow> addr \<Rightarrow> bytes \<Rightarrow> bytes option" where
  "copy_string d s m =
     (let c = m s; m1 = m(d := c) in
      if c \<noteq> 0 then copy_string (d + 1) (s + 1) m1 else Some m1)"

declare copy_string.simps [code]

definition strcpy :: "addr \<Rightarrow> addr \<Rightarrow> bytes \<Rightarrow> bytes option" where
  "strcpy dest src m = copy_string dest src m"

text \<open>
  \<open>while (n && (*d++ = *src++)) n--;\<close>, leaving \<open>d\<close> and \<open>n\<close>: when the zero byte is copied, \<open>d\<close> has
  advanced past it and \<open>n\<close> is not decremented.
\<close>

fun copy_bounded :: "nat \<Rightarrow> addr \<Rightarrow> addr \<Rightarrow> bytes \<Rightarrow> addr \<times> nat \<times> bytes" where
  "copy_bounded 0 d s m = (d, 0, m)"
| "copy_bounded (Suc n) d s m =
     (let c = m s; m1 = m(d := c) in
      if c \<noteq> 0 then copy_bounded n (d + 1) (s + 1) m1 else (d + 1, Suc n, m1))"

definition strncpy :: "addr \<Rightarrow> addr \<Rightarrow> u64 \<Rightarrow> bytes \<Rightarrow> bytes" where
  "strncpy dest src n m =
     (let (d, n1, m1) = copy_bounded (unat n) dest src m in set_bytes n1 d 0 m1)"

text \<open>\<open>while (*d) d++;\<close>\<close>

partial_function (option) string_end :: "bytes \<Rightarrow> addr \<Rightarrow> addr option" where
  "string_end m d = (if m d \<noteq> 0 then string_end m (d + 1) else Some d)"

declare string_end.simps [code]

definition strcat :: "addr \<Rightarrow> addr \<Rightarrow> bytes \<Rightarrow> bytes option" where
  "strcat dest src m = Option.bind (string_end m dest) (\<lambda>d. copy_string d src m)"

definition strncat :: "addr \<Rightarrow> addr \<Rightarrow> u64 \<Rightarrow> bytes \<Rightarrow> bytes option" where
  "strncat dest src n m =
     Option.bind (string_end m dest)
       (\<lambda>d. let (d1, n1, m1) = copy_bounded (unat n) d src m in Some (m1(d1 := 0)))"

text \<open>The loop of \<^verbatim>\<open>strlcpy\<close>, entered with \<open>n \<noteq> 0\<close>.\<close>

fun strlcpy_loop :: "nat \<Rightarrow> addr \<Rightarrow> addr \<Rightarrow> bytes \<Rightarrow> nat \<times> addr \<times> addr \<times> bytes" where
  "strlcpy_loop 0 d s m = (0, d, s, m)"
| "strlcpy_loop (Suc n) d s m =
     (if n \<noteq> 0
      then let c = m s; m1 = m(d := c) in
           if c = 0 then (n, d + 1, s + 1, m1) else strlcpy_loop n (d + 1) (s + 1) m1
      else (0, d, s, m))"

definition strlcpy :: "addr \<Rightarrow> addr \<Rightarrow> u64 \<Rightarrow> bytes \<Rightarrow> (u64 \<times> bytes) option" where
  "strlcpy dst src siz m =
     (let (n, d, s, m1) = strlcpy_loop (unat siz) dst src m in
      if n = 0
      then let m2 = (if siz \<noteq> 0 then m1(d := 0) else m1) in
           map_option (\<lambda>e. (e + 1 - src - 1, m2)) (string_end m2 s)
      else Some (s - src - 1, m1))"

fun bounded_end :: "nat \<Rightarrow> addr \<Rightarrow> bytes \<Rightarrow> addr" where
  "bounded_end 0 d m = d"
| "bounded_end (Suc n) d m = (if m d \<noteq> 0 then bounded_end n (d + 1) m else d)"

partial_function (option) strlcat_loop ::
    "u64 \<Rightarrow> addr \<Rightarrow> addr \<Rightarrow> bytes \<Rightarrow> (addr \<times> addr \<times> bytes) option" where
  "strlcat_loop n d s m =
     (if m s \<noteq> 0
      then if n \<noteq> 1 then strlcat_loop (n - 1) (d + 1) (s + 1) (m(d := m s))
           else strlcat_loop n d (s + 1) m
      else Some (d, s, m))"

declare strlcat_loop.simps [code]

definition strlcat :: "addr \<Rightarrow> addr \<Rightarrow> u64 \<Rightarrow> bytes \<Rightarrow> (u64 \<times> bytes) option" where
  "strlcat dst src siz m =
     (let d = bounded_end (unat siz) dst m;
          dlen = d - dst;
          n = siz - dlen
      in if n = 0 then map_option (\<lambda>e. (dlen + (e - src), m)) (string_end m src)
         else map_option (\<lambda>(d1, s1, m1). (dlen + (s1 - src), m1(d1 := 0))) (strlcat_loop n d src m))"

partial_function (option) stpcpy :: "addr \<Rightarrow> addr \<Rightarrow> bytes \<Rightarrow> (addr \<times> bytes) option" where
  "stpcpy dest src m =
     (let c = m src; m1 = m(dest := c) in
      if c \<noteq> 0 then stpcpy (dest + 1) (src + 1) m1 else Some (dest, m1))"

declare stpcpy.simps [code]

text \<open>The first loop of \<^verbatim>\<open>stpncpy\<close>: the index it stops at, with \<open>k = n - i\<close> rounds left.\<close>

fun stpncpy_loop :: "nat \<Rightarrow> u64 \<Rightarrow> addr \<Rightarrow> addr \<Rightarrow> bytes \<Rightarrow> u64 \<times> nat \<times> bytes" where
  "stpncpy_loop 0 i dest src m = (i, 0, m)"
| "stpncpy_loop (Suc k) i dest src m =
     (if m (src + i) \<noteq> 0
      then stpncpy_loop k (i + 1) dest src (m(dest + i := m (src + i)))
      else (i, Suc k, m))"

definition stpncpy :: "addr \<Rightarrow> addr \<Rightarrow> u64 \<Rightarrow> bytes \<Rightarrow> addr \<times> bytes" where
  "stpncpy dest src n m =
     (let (i, k, m1) = stpncpy_loop (unat n) 0 dest src m in (dest + i, set_bytes k (dest + i) 0 m1))"

fun strnlen_loop :: "nat \<Rightarrow> u64 \<Rightarrow> addr \<Rightarrow> bytes \<Rightarrow> u64" where
  "strnlen_loop 0 len s m = len"
| "strnlen_loop (Suc k) len s m = (if m (s + len) \<noteq> 0 then strnlen_loop k (len + 1) s m else len)"

definition strnlen :: "addr \<Rightarrow> u64 \<Rightarrow> bytes \<Rightarrow> u64" where
  "strnlen s maxlen m = strnlen_loop (unat maxlen) 0 s m"

definition strdup :: "(u64 \<Rightarrow> bytes \<Rightarrow> addr \<times> bytes) \<Rightarrow> addr \<Rightarrow> bytes \<Rightarrow> (addr \<times> bytes) option" where
  "strdup malloc s m =
     Option.bind (strlen s m)
       (\<lambda>l. let len = l + 1; (new, m1) = malloc len m in
            Some (new, if new \<noteq> NULL then memcpy new s len m1 else m1))"

definition strndup :: "(u64 \<Rightarrow> bytes \<Rightarrow> addr \<times> bytes) \<Rightarrow> addr \<Rightarrow> u64 \<Rightarrow> bytes \<Rightarrow> addr \<times> bytes" where
  "strndup malloc s n m =
     (let len = strnlen s n m;
          (dup, m1) = malloc (len + 1) m
      in (dup, if dup \<noteq> NULL then (memcpy dup s len m1)(dup + len := 0) else m1))"

section \<open>Comparing\<close>

partial_function (option) strcmp :: "addr \<Rightarrow> addr \<Rightarrow> bytes \<Rightarrow> int option" where
  "strcmp s1 s2 m =
     (if m s1 \<noteq> 0 \<and> m s1 = m s2 then strcmp (s1 + 1) (s2 + 1) m
      else Some (byte_diff (m s1) (m s2)))"

declare strcmp.simps [code]

fun strncmp_loop :: "nat \<Rightarrow> addr \<Rightarrow> addr \<Rightarrow> bytes \<Rightarrow> int" where
  "strncmp_loop 0 s1 s2 m = 0"
| "strncmp_loop (Suc n) s1 s2 m =
     (if m s1 \<noteq> 0 \<and> m s1 = m s2 then strncmp_loop n (s1 + 1) (s2 + 1) m
      else byte_diff (m s1) (m s2))"

definition strncmp :: "addr \<Rightarrow> addr \<Rightarrow> u64 \<Rightarrow> bytes \<Rightarrow> int" where
  "strncmp s1 s2 n m = strncmp_loop (unat n) s1 s2 m"

definition lower_diff :: "u8 \<Rightarrow> u8 \<Rightarrow> int" where
  "lower_diff a b = tolower (uint a) - tolower (uint b)"

partial_function (option) strcasecmp :: "addr \<Rightarrow> addr \<Rightarrow> bytes \<Rightarrow> int option" where
  "strcasecmp s1 s2 m =
     (if m s1 \<noteq> 0 \<and> m s2 \<noteq> 0
      then let d = lower_diff (m s1) (m s2) in
           if d \<noteq> 0 then Some d else strcasecmp (s1 + 1) (s2 + 1) m
      else Some (lower_diff (m s1) (m s2)))"

declare strcasecmp.simps [code]

fun strncasecmp_loop :: "nat \<Rightarrow> addr \<Rightarrow> addr \<Rightarrow> bytes \<Rightarrow> int" where
  "strncasecmp_loop 0 s1 s2 m = 0"
| "strncasecmp_loop (Suc n) s1 s2 m =
     (if m s1 \<noteq> 0 \<and> m s2 \<noteq> 0
      then let d = lower_diff (m s1) (m s2) in
           if d \<noteq> 0 then d else strncasecmp_loop n (s1 + 1) (s2 + 1) m
      else lower_diff (m s1) (m s2))"

definition strncasecmp :: "addr \<Rightarrow> addr \<Rightarrow> u64 \<Rightarrow> bytes \<Rightarrow> int" where
  "strncasecmp s1 s2 n m = strncasecmp_loop (unat n) s1 s2 m"

section \<open>Searching\<close>

partial_function (option) strchr :: "addr \<Rightarrow> u32 \<Rightarrow> bytes \<Rightarrow> addr option" where
  "strchr s c m =
     (if m s \<noteq> 0 then if m s = ucast c then Some s else strchr (s + 1) c m
      else Some (if c = 0 then s else NULL))"

declare strchr.simps [code]

partial_function (option) strrchr_loop :: "addr \<Rightarrow> u32 \<Rightarrow> addr \<Rightarrow> bytes \<Rightarrow> addr option" where
  "strrchr_loop s c lst m =
     (if m s \<noteq> 0 then strrchr_loop (s + 1) c (if m s = ucast c then s else lst) m
      else Some (if c = 0 then s else lst))"

declare strrchr_loop.simps [code]

definition strrchr :: "addr \<Rightarrow> u32 \<Rightarrow> bytes \<Rightarrow> addr option" where
  "strrchr s c m = strrchr_loop s c NULL m"

text \<open>The inner loop of \<^verbatim>\<open>strstr\<close> and the test after it.\<close>

partial_function (option) needle_here :: "addr \<Rightarrow> addr \<Rightarrow> bytes \<Rightarrow> bool option" where
  "needle_here h n m =
     (if m h \<noteq> 0 \<and> m n \<noteq> 0 \<and> m h = m n then needle_here (h + 1) (n + 1) m else Some (m n = 0))"

declare needle_here.simps [code]

partial_function (option) strstr_loop :: "addr \<Rightarrow> addr \<Rightarrow> bytes \<Rightarrow> addr option" where
  "strstr_loop haystack needle m =
     (if m haystack \<noteq> 0
      then Option.bind (needle_here haystack needle m)
             (\<lambda>found. if found then Some haystack else strstr_loop (haystack + 1) needle m)
      else Some NULL)"

declare strstr_loop.simps [code]

definition strstr :: "addr \<Rightarrow> addr \<Rightarrow> bytes \<Rightarrow> addr option" where
  "strstr haystack needle m = (if m needle = 0 then Some haystack else strstr_loop haystack needle m)"

fun casematch :: "nat \<Rightarrow> addr \<Rightarrow> addr \<Rightarrow> bytes \<Rightarrow> bool" where
  "casematch 0 h n m = True"
| "casematch (Suc k) h n m =
     (if tolower (uint (m h)) \<noteq> tolower (uint (m n)) then False else casematch k (h + 1) (n + 1) m)"

partial_function (option) strcasestr_loop :: "addr \<Rightarrow> addr \<Rightarrow> nat \<Rightarrow> bytes \<Rightarrow> addr option" where
  "strcasestr_loop haystack needle nlen m =
     (if m haystack \<noteq> 0
      then if casematch nlen haystack needle m then Some haystack
           else strcasestr_loop (haystack + 1) needle nlen m
      else Some NULL)"

declare strcasestr_loop.simps [code]

definition strcasestr :: "addr \<Rightarrow> addr \<Rightarrow> bytes \<Rightarrow> addr option" where
  "strcasestr haystack needle m =
     (if m needle = 0 then Some haystack
      else Option.bind (strlen needle m) (\<lambda>nlen. strcasestr_loop haystack needle (unat nlen) m))"

text \<open>\<open>for (a = accept; *a; a++) if (*s == *a) break;\<close> and whether it stopped early.\<close>

partial_function (option) byte_in :: "u8 \<Rightarrow> addr \<Rightarrow> bytes \<Rightarrow> bool option" where
  "byte_in c a m =
     (if m a \<noteq> 0 then if c = m a then Some True else byte_in c (a + 1) m else Some False)"

declare byte_in.simps [code]

partial_function (option) strspn_loop :: "addr \<Rightarrow> addr \<Rightarrow> u64 \<Rightarrow> bytes \<Rightarrow> u64 option" where
  "strspn_loop s accept count m =
     (if m s \<noteq> 0
      then Option.bind (byte_in (m s) accept m)
             (\<lambda>b. if \<not> b then Some count else strspn_loop (s + 1) accept (count + 1) m)
      else Some count)"

declare strspn_loop.simps [code]

definition strspn :: "addr \<Rightarrow> addr \<Rightarrow> bytes \<Rightarrow> u64 option" where
  "strspn s accept m = strspn_loop s accept 0 m"

partial_function (option) strcspn_loop :: "addr \<Rightarrow> addr \<Rightarrow> u64 \<Rightarrow> bytes \<Rightarrow> u64 option" where
  "strcspn_loop s reject count m =
     (if m s \<noteq> 0
      then Option.bind (byte_in (m s) reject m)
             (\<lambda>b. if b then Some count else strcspn_loop (s + 1) reject (count + 1) m)
      else Some count)"

declare strcspn_loop.simps [code]

definition strcspn :: "addr \<Rightarrow> addr \<Rightarrow> bytes \<Rightarrow> u64 option" where
  "strcspn s reject m = strcspn_loop s reject 0 m"

partial_function (option) strpbrk :: "addr \<Rightarrow> addr \<Rightarrow> bytes \<Rightarrow> addr option" where
  "strpbrk s accept m =
     (if m s \<noteq> 0
      then Option.bind (byte_in (m s) accept m)
             (\<lambda>b. if b then Some s else strpbrk (s + 1) accept m)
      else Some NULL)"

declare strpbrk.simps [code]

section \<open>Tokens\<close>

text \<open>
  The two loops of \<^verbatim>\<open>strtok\<close>: \<open>tok_scan True\<close> skips delimiters, \<open>tok_scan False\<close> runs to the
  next one. The character is sign-extended to the \<^verbatim>\<open>int\<close> argument of \<^verbatim>\<open>strchr\<close>.
\<close>

partial_function (option) tok_scan :: "bool \<Rightarrow> addr \<Rightarrow> addr \<Rightarrow> bytes \<Rightarrow> addr option" where
  "tok_scan skip saved delim m =
     (if m saved \<noteq> 0
      then Option.bind (strchr delim (scast (m saved)) m)
             (\<lambda>r. if (r \<noteq> NULL) = skip then tok_scan skip (saved + 1) delim m else Some saved)
      else Some saved)"

declare tok_scan.simps [code]

text \<open>The result: the token, the static variable \<open>saved\<close> and the memory.\<close>

definition strtok :: "addr \<Rightarrow> addr \<Rightarrow> addr \<Rightarrow> bytes \<Rightarrow> (addr \<times> addr \<times> bytes) option" where
  "strtok str delim saved m =
     (let s0 = (if str \<noteq> NULL then str else saved) in
      if s0 = NULL then Some (NULL, s0, m)
      else Option.bind (tok_scan True s0 delim m)
        (\<lambda>token. if m token = 0 then Some (NULL, token, m)
          else Option.bind (tok_scan False token delim m)
            (\<lambda>e. if m e \<noteq> 0 then Some (token, e + 1, m(e := 0)) else Some (token, NULL, m))))"

text \<open>\<open>do { if ((sc = *sp++) == c) ...; } while (sc != 0);\<close> finds the terminating zero too.\<close>

partial_function (option) sep_in :: "u8 \<Rightarrow> addr \<Rightarrow> bytes \<Rightarrow> bool option" where
  "sep_in c sp m =
     (if m sp = c then Some True else if m sp \<noteq> 0 then sep_in c (sp + 1) m else Some False)"

declare sep_in.simps [code]

partial_function (option) strsep_loop :: "addr \<Rightarrow> addr \<Rightarrow> addr \<Rightarrow> bytes \<Rightarrow> (addr \<times> addr \<times> bytes) option" where
  "strsep_loop tok s delim m =
     Option.bind (sep_in (m s) delim m)
       (\<lambda>b. if b then if m s = 0 then Some (tok, NULL, m) else Some (tok, s + 1, m(s := 0))
            else strsep_loop tok (s + 1) delim m)"

declare strsep_loop.simps [code]

text \<open>The result: the token, the pointer left in \<^verbatim>\<open>*stringp\<close> and the memory.\<close>

definition strsep :: "addr \<Rightarrow> addr \<Rightarrow> bytes \<Rightarrow> (addr \<times> addr \<times> bytes) option" where
  "strsep s delim m = (if s = NULL then Some (NULL, s, m) else strsep_loop s s delim m)"

section \<open>Strings in memory\<close>

text \<open>The C string at \<open>p\<close>: its bytes, none of them zero, then a zero.\<close>

fun cstr_at :: "bytes \<Rightarrow> addr \<Rightarrow> cstr \<Rightarrow> bool" where
  "cstr_at m p [] \<longleftrightarrow> m p = 0"
| "cstr_at m p (c # cs) \<longleftrightarrow> m p = c \<and> c \<noteq> 0 \<and> cstr_at m (p + 1) cs"

lemma cstr_at_nth: "cstr_at m p s \<Longrightarrow> i < length s \<Longrightarrow> m (p + of_nat i) = s ! i \<and> s ! i \<noteq> 0"
proof (induction s arbitrary: p i)
  case (Cons c s)
  then show ?case by (cases i) (force simp: add.assoc [symmetric])+
qed simp

lemma cstr_at_end: "cstr_at m p s \<Longrightarrow> m (p + of_nat (length s)) = 0"
  by (induction s arbitrary: p) (force simp: add.assoc [symmetric])+

lemma cstr_at_nonzero: "cstr_at m p s \<Longrightarrow> 0 \<notin> set s"
  by (induction s arbitrary: p) auto

lemma cstr_at_unique: "cstr_at m p s \<Longrightarrow> cstr_at m p t \<Longrightarrow> s = t"
proof (induction s arbitrary: p t)
  case Nil
  then show ?case by (cases t) auto
next
  case (Cons c s)
  then show ?case by (cases t) auto
qed

lemma cstr_at_length: "cstr_at m p s \<Longrightarrow> length s < 2 ^ 64"
proof (rule ccontr)
  assume s: "cstr_at m p s" and "\<not> length s < 2 ^ 64"
  then obtain k where k: "length s = 2 ^ 64 + k" by (metis le_Suc_ex not_le)
  then have "of_nat (length s) = (of_nat k :: addr)"
    by simp
  with cstr_at_end [OF s] cstr_at_nth [OF s, of k] k show False by (metis less_add_same_cancel2 zero_less_numeral zero_less_power)
qed

lemma cstr_at_append:
  "cstr_at m p (s @ t) \<longleftrightarrow> (\<forall>i < length s. m (p + of_nat i) = s ! i \<and> s ! i \<noteq> 0) \<and>
     cstr_at m (p + of_nat (length s)) t"
proof (induction s arbitrary: p)
  case (Cons c s)
  have "(\<forall>i < length (c # s). m (p + of_nat i) = (c # s) ! i \<and> (c # s) ! i \<noteq> 0) \<longleftrightarrow>
      m p = c \<and> c \<noteq> 0 \<and> (\<forall>i < length s. m (p + 1 + of_nat i) = s ! i \<and> s ! i \<noteq> 0)"
    by (simp add: All_less_Suc2 add.assoc)
  with Cons show ?case by (auto simp: add.assoc)
qed simp

lemma cstr_at_suffix: "cstr_at m p (s @ t) \<Longrightarrow> cstr_at m (p + of_nat (length s)) t"
  by (simp add: cstr_at_append)

lemma cstr_at_prefix:
  "cstr_at m p (s @ t) \<Longrightarrow> m (p + of_nat (length s)) = 0 \<Longrightarrow> cstr_at m p s"
  using cstr_at_append [of m p s "[]"] by (simp add: cstr_at_append)

lemma cstr_at_cong:
  assumes "cstr_at m p s" and "\<And>i. i \<le> length s \<Longrightarrow> m' (p + of_nat i) = m (p + of_nat i)"
  shows "cstr_at m' p s"
  using assms
proof (induction s arbitrary: p)
  case (Cons c s)
  have "cstr_at m' (p + 1) s"
  proof (rule Cons.IH)
    show "cstr_at m (p + 1) s" using Cons.prems(1) by simp
    show "m' (p + 1 + of_nat i) = m (p + 1 + of_nat i)" if "i \<le> length s" for i
      using Cons.prems(2) [of "Suc i"] that by (simp add: add.assoc)
  qed
  then show ?case using Cons.prems(1) Cons.prems(2) [of 0] by simp
qed (use assms in simp)

text \<open>Writing a list of bytes at an address.\<close>

fun put_bytes :: "addr \<Rightarrow> u8 list \<Rightarrow> bytes \<Rightarrow> bytes" where
  "put_bytes d [] m = m"
| "put_bytes d (c # cs) m = put_bytes (d + 1) cs (m(d := c))"

lemma put_bytes_append:
  "put_bytes d (xs @ ys) m = put_bytes (d + of_nat (length xs)) ys (put_bytes d xs m)"
  by (induction xs arbitrary: d m) (simp_all add: add.assoc)

lemma put_bytes_eq:
  "length xs \<le> 2 ^ 64 \<Longrightarrow>
   put_bytes d xs m = (\<lambda>a. if in_block d (length xs) a then xs ! unat (a - d) else m a)"
proof (induction xs arbitrary: d m)
  case (Cons c cs)
  have e: "unat (a - d) = Suc (unat (a - (d + 1)))" if "a \<noteq> d" for a
  proof -
    have "a - d \<noteq> 0" using that by simp
    then show ?thesis using unat_minus_one [of "a - d"] by (metis diff_diff_eq2 diff_diff_add Suc_pred' unat_gt_0)
  qed
  have nd: "\<not> in_block (d + 1) (length cs) d"
    using Cons.prems by (simp add: in_block_def unsigned_minus_1_eq_mask mask_eq_exp_minus_1)
  show ?case
  proof
    fix a
    show "put_bytes d (c # cs) m a =
        (if in_block d (length (c # cs)) a then (c # cs) ! unat (a - d) else m a)"
      using Cons e [of a] nd by (cases "a = d") (auto simp: in_block_Suc)
  qed
qed simp

lemma set_bytes_put: "set_bytes n p v m = put_bytes p (replicate n v) m"
  by (induction n arbitrary: p m) simp_all

text \<open>The \<open>n\<close> bytes at \<open>d\<close> and the \<open>k\<close> bytes at \<open>p\<close> do not overlap.\<close>

definition apart :: "addr \<Rightarrow> nat \<Rightarrow> addr \<Rightarrow> nat \<Rightarrow> bool" where
  "apart d n p k \<longleftrightarrow> (\<forall>i < n. \<forall>j < k. d + of_nat i \<noteq> p + of_nat j)"

lemma apart_above:
  assumes "unat p + k \<le> unat d" and "unat d + n \<le> 2 ^ 64"
  shows "apart d n p k"
  unfolding apart_def
proof (intro allI impI notI)
  fix i j assume "i < n" "j < k" and eq: "d + of_nat i = p + of_nat j"
  have "unat (d + of_nat i) = unat d + i"
    using \<open>i < n\<close> assms by (subst unat_plus_no_wrap) (simp_all add: unat_of_nat_small)
  moreover have "unat (p + of_nat j) = unat p + j"
    using \<open>j < k\<close> assms unat_lt_2p [of d] by (subst unat_plus_no_wrap) (simp_all add: unat_of_nat_small)
  ultimately show False using assms \<open>j < k\<close> eq by simp
qed

lemma apart_mono: "apart d n p k \<Longrightarrow> n' \<le> n \<Longrightarrow> k' \<le> k \<Longrightarrow> apart d n' p k'"
  by (auto simp: apart_def)

lemma apart_Suc:
  "apart d (Suc n) p (Suc k) \<Longrightarrow> apart (d + 1) n (p + 1) k \<and> (\<forall>j \<le> k. d \<noteq> p + of_nat j)"
proof
  assume d: "apart d (Suc n) p (Suc k)"
  show "\<forall>j \<le> k. d \<noteq> p + of_nat j" using d [unfolded apart_def, rule_format, of 0]
    by (simp add: less_Suc_eq_le)
  show "apart (d + 1) n (p + 1) k" unfolding apart_def
  proof (intro allI impI)
    fix i j assume "i < n" "j < k"
    then have "d + of_nat (Suc i) \<noteq> p + of_nat (Suc j)" using d unfolding apart_def by blast
    then show "d + 1 + of_nat i \<noteq> p + 1 + of_nat j" by (simp add: add.assoc)
  qed
qed

lemma apart_shift:
  assumes "apart d n p k" and "i \<le> n"
  shows "apart (d + of_nat i) (n - i) p k"
  unfolding apart_def
proof (intro allI impI)
  fix i' j assume "i' < n - i" "j < k"
  then have "i + i' < n" by simp
  then have "d + of_nat (i + i') \<noteq> p + of_nat j"
    using assms(1) \<open>j < k\<close> unfolding apart_def by blast
  then show "d + of_nat i + of_nat i' \<noteq> p + of_nat j" by (simp add: add.assoc)
qed

lemma apart_sym: "apart d n p k \<longleftrightarrow> apart p k d n"
  by (metis apart_def)

lemma apart_shift_right:
  "apart d n p k \<Longrightarrow> i \<le> k \<Longrightarrow> apart d n (p + of_nat i) (k - i)"
  by (metis apart_shift apart_sym)

lemma cstr_at_put:
  assumes "cstr_at m p s" and "apart d (length xs) p (length s + 1)"
  shows "cstr_at (put_bytes d xs m) p s"
  using assms
proof (induction xs arbitrary: d m)
  case (Cons c cs)
  have "cstr_at (m(d := c)) p s"
    by (rule cstr_at_cong [OF Cons.prems(1)])
      (use Cons.prems(2) in \<open>fastforce simp: apart_def All_less_Suc2 less_Suc_eq_le\<close>)
  moreover have "apart (d + 1) (length cs) p (length s + 1)"
    using apart_shift [OF Cons.prems(2), of 1] by simp
  ultimately show ?case using Cons.IH by simp
qed simp

lemma cstr_at_put_self:
  assumes "0 \<notin> set s" and "length s < 2 ^ 64"
  shows "cstr_at (put_bytes d (s @ [0]) m) d s"
proof -
  have "put_bytes d (s @ [0]) m (d + of_nat i) = (s @ [0]) ! i" if "i \<le> length s" for i
    using that assms(2) by (simp add: put_bytes_eq in_block_def unat_of_nat_small)
  then have "cstr_at (put_bytes d (s @ [0]) m) d (s @ [])"
    using assms by (subst cstr_at_append) (fastforce simp: nth_append in_set_conv_nth)
  then show ?thesis by simp
qed
end
