(* ===== verification/StringCopy.thy ===== *)
theory StringCopy
  imports CString
begin

text \<open>
  What the copying functions of theory \<^verbatim>\<open>CString\<close> write: exact statements of the bytes each of
  them stores, for a source string that does not overlap the destination, and \<^verbatim>\<open>memmove\<close>
  for any overlap.
\<close>

section \<open>Length\<close>

lemma strlen_loop_eq: "cstr_at m p s \<Longrightarrow> strlen_loop m p n = Some (n + of_nat (length s))"
proof (induction s arbitrary: p n)
  case Nil
  then show ?case by (subst strlen_loop.simps) simp
next
  case (Cons c s)
  then show ?case by (subst strlen_loop.simps) (auto simp: add_ac)
qed

lemma strlen_eq: "cstr_at m p s \<Longrightarrow> strlen p m = Some (of_nat (length s))"
  by (simp add: strlen_def strlen_loop_eq)

lemma string_end_eq: "cstr_at m p s \<Longrightarrow> string_end m p = Some (p + of_nat (length s))"
proof (induction s arbitrary: p)
  case Nil
  then show ?case by (subst string_end.simps) simp
next
  case (Cons c s)
  then show ?case by (subst string_end.simps) (auto simp: add_ac)
qed

lemma bounded_end_eq:
  "cstr_at m p s \<Longrightarrow> bounded_end n p m = p + of_nat (min n (length s))"
proof (induction n arbitrary: p s)
  case (Suc n)
  show ?case
  proof (cases s)
    case (Cons c t)
    with Suc.prems have "bounded_end n (p + 1) m = p + 1 + of_nat (min n (length t))"
      by (intro Suc.IH) simp
    with Cons Suc.prems show ?thesis by (simp add: add_ac)
  qed (use Suc.prems in simp)
qed simp

lemma strnlen_loop_eq:
  "cstr_at m (p + len) s \<Longrightarrow> strnlen_loop n len p m = len + of_nat (min n (length s))"
proof (induction n arbitrary: len s)
  case (Suc n)
  show ?case
  proof (cases s)
    case (Cons c t)
    with Suc.prems have "strnlen_loop n (len + 1) p m = len + 1 + of_nat (min n (length t))"
      by (intro Suc.IH) (simp add: add.assoc)
    with Cons Suc.prems show ?thesis by (auto simp: add_ac)
  qed (use Suc.prems in simp)
qed simp

section \<open>Copying\<close>

lemma cstr_at_upd:
  assumes "cstr_at m p s" and "\<forall>j \<le> length s. d \<noteq> p + of_nat j"
  shows "cstr_at (m(d := c)) p s"
  by (rule cstr_at_cong [OF assms(1)]) (use assms(2) in force)

lemma copy_step:
  assumes "cstr_at m p (c # s)" and "apart d (Suc n) p (length s + 2)"
  shows "cstr_at (m(d := x)) (p + 1) s" and "apart (d + 1) n (p + 1) (length s + 1)"
proof -
  have d: "\<forall>j \<le> Suc (length s). d \<noteq> p + of_nat j"
    and ap: "apart (d + 1) n (p + 1) (length s + 1)"
    using apart_Suc [of d n p "Suc (length s)"] assms(2) by simp_all
  have "\<forall>j \<le> length s. d \<noteq> p + 1 + of_nat j"
  proof (intro allI impI)
    fix j assume "j \<le> length s"
    then have "d \<noteq> p + of_nat (Suc j)" using d by blast
    then show "d \<noteq> p + 1 + of_nat j" by (simp add: add.assoc)
  qed
  then show "cstr_at (m(d := x)) (p + 1) s" using assms(1) by (intro cstr_at_upd) simp_all
  show "apart (d + 1) n (p + 1) (length s + 1)" by (rule ap)
qed

lemma copy_string_eq:
  "cstr_at m p s \<Longrightarrow> apart d (length s + 1) p (length s + 1) \<Longrightarrow>
   copy_string d p m = Some (put_bytes d (s @ [0]) m)"
proof (induction s arbitrary: d p m)
  case Nil
  then show ?case by (subst copy_string.simps) (simp add: Let_def)
next
  case (Cons c s)
  note step = copy_step [OF Cons.prems(1), where d = d and n = "length s + 1"]
  have "copy_string (d + 1) (p + 1) (m(d := c)) = Some (put_bytes (d + 1) (s @ [0]) (m(d := c)))"
    by (rule Cons.IH) (use step Cons.prems(2) in \<open>simp_all add: fun_upd_def\<close>)
  then show ?case using Cons.prems(1) by (subst copy_string.simps) (auto simp: Let_def)
qed

lemma stpcpy_eq:
  "cstr_at m p s \<Longrightarrow> apart d (length s + 1) p (length s + 1) \<Longrightarrow>
   stpcpy d p m = Some (d + of_nat (length s), put_bytes d (s @ [0]) m)"
proof (induction s arbitrary: d p m)
  case Nil
  then show ?case by (subst stpcpy.simps) (simp add: Let_def)
next
  case (Cons c s)
  note step = copy_step [OF Cons.prems(1), where d = d and n = "length s + 1"]
  have "stpcpy (d + 1) (p + 1) (m(d := c)) =
      Some (d + 1 + of_nat (length s), put_bytes (d + 1) (s @ [0]) (m(d := c)))"
    by (rule Cons.IH) (use step Cons.prems(2) in \<open>simp_all add: fun_upd_def\<close>)
  then show ?case using Cons.prems(1) by (subst stpcpy.simps) (auto simp: Let_def add.assoc)
qed

text \<open>
  The bounded copy stores at most \<open>n\<close> bytes; when the string is shorter than \<open>n\<close> it stores the
  terminating zero as well and leaves the count as it was before that byte.
\<close>

lemma copy_bounded_eq:
  "cstr_at m p s \<Longrightarrow> apart d (min n (length s + 1)) p (length s + 1) \<Longrightarrow>
   copy_bounded n d p m =
     (if n \<le> length s then (d + of_nat n, 0, put_bytes d (take n s) m)
      else (d + of_nat (length s + 1), n - length s, put_bytes d (s @ [0]) m))"
proof (induction n arbitrary: d p m s)
  case (Suc n)
  show ?case
  proof (cases s)
    case Nil
    then show ?thesis using Suc.prems by (simp add: Let_def)
  next
    case (Cons c t)
    note step = copy_step [OF Suc.prems(1) [unfolded Cons], where d = d and n = "min n (length t + 1)"]
    have "copy_bounded n (d + 1) (p + 1) (m(d := c)) =
      (if n \<le> length t then (d + 1 + of_nat n, 0, put_bytes (d + 1) (take n t) (m(d := c)))
       else (d + 1 + of_nat (length t + 1), n - length t, put_bytes (d + 1) (t @ [0]) (m(d := c))))"
      by (rule Suc.IH) (use step Suc.prems(2) Cons in \<open>simp_all add: fun_upd_def\<close>)
    then show ?thesis using Suc.prems(1) Cons by (auto simp: Let_def add_ac)
  qed
qed simp

lemma strncpy_eq:
  assumes "cstr_at m p s" and "apart d (min (unat n) (length s + 1)) p (length s + 1)"
  shows "strncpy d p n m = put_bytes d
    (if unat n \<le> length s then take (unat n) s else s @ replicate (unat n - length s + 1) 0) m"
  by (simp add: strncpy_def copy_bounded_eq [OF assms] set_bytes_put put_bytes_append add_ac)

lemma strcat_eq:
  assumes "cstr_at m d t" and "cstr_at m p s"
    and "apart (d + of_nat (length t)) (length s + 1) p (length s + 1)"
  shows "strcat d p m = Some (put_bytes (d + of_nat (length t)) (s @ [0]) m)"
  by (simp add: strcat_def string_end_eq [OF assms(1)] copy_string_eq [OF assms(2,3)])

lemma strncat_eq:
  assumes "cstr_at m d t" and "cstr_at m p s"
    and "apart (d + of_nat (length t)) (min (unat n) (length s + 1)) p (length s + 1)"
  shows "strncat d p n m = Some (put_bytes (d + of_nat (length t))
    (if unat n \<le> length s then take (unat n) s @ [0] else s @ [0, 0]) m)"
  by (simp add: strncat_def string_end_eq [OF assms(1)] copy_bounded_eq [OF assms(2,3)]
      put_bytes_append Let_def add_ac)

lemma strlcpy_loop_eq:
  "cstr_at m p s \<Longrightarrow> apart d (min n (length s + 1)) p (length s + 1) \<Longrightarrow>
   strlcpy_loop (Suc n) d p m =
     (if n \<le> length s then (0, d + of_nat n, p + of_nat n, put_bytes d (take n s) m)
      else (n - length s, d + of_nat (length s + 1), p + of_nat (length s + 1), put_bytes d (s @ [0]) m))"
proof (induction n arbitrary: d p m s)
  case (Suc n)
  show ?case
  proof (cases s)
    case Nil
    then show ?thesis using Suc.prems by (simp add: Let_def)
  next
    case (Cons c t)
    note step = copy_step [OF Suc.prems(1) [unfolded Cons], where d = d and n = "min n (length t + 1)"]
    have "strlcpy_loop (Suc n) (d + 1) (p + 1) (m(d := c)) =
      (if n \<le> length t then (0, d + 1 + of_nat n, p + 1 + of_nat n, put_bytes (d + 1) (take n t) (m(d := c)))
       else (n - length t, d + 1 + of_nat (length t + 1), p + 1 + of_nat (length t + 1),
             put_bytes (d + 1) (t @ [0]) (m(d := c))))"
      by (rule Suc.IH) (use step Suc.prems(2) Cons in \<open>simp_all add: fun_upd_def\<close>)
    then show ?thesis using Suc.prems(1) Cons
      by (subst strlcpy_loop.simps(2)) (auto simp: Let_def add_ac simp del: strlcpy_loop.simps)
  qed
qed simp

lemma strlcpy_eq:
  assumes s: "cstr_at m p s" and ap: "apart d (unat siz) p (length s + 1)"
  shows "strlcpy d p siz m =
    Some (of_nat (length s), if siz = 0 then m else put_bytes d (take (unat siz - 1) s @ [0]) m)"
proof (cases "unat siz")
  case 0
  then have "siz = 0" by (simp add: unat_eq_zero)
  then show ?thesis using string_end_eq [OF s] by (simp add: strlcpy_def)
next
  case (Suc n)
  then have nz: "siz \<noteq> 0" by auto
  have loop: "strlcpy_loop (Suc n) d p m =
     (if n \<le> length s then (0, d + of_nat n, p + of_nat n, put_bytes d (take n s) m)
      else (n - length s, d + of_nat (length s + 1), p + of_nat (length s + 1), put_bytes d (s @ [0]) m))"
    by (rule strlcpy_loop_eq [OF s]) (rule apart_mono [OF ap], use Suc in auto)
  show ?thesis
  proof (cases "n \<le> length s")
    case True
    let ?m = "put_bytes d (take n s @ [0]) m"
    have "cstr_at ?m p s"
      by (rule cstr_at_put [OF s]) (rule apart_mono [OF ap], use Suc True in auto)
    then have "cstr_at ?m (p + of_nat n) (drop n s)"
      using cstr_at_suffix [of ?m p "take n s" "drop n s"] True by simp
    from string_end_eq [OF this] have "string_end ?m (p + of_nat n) = Some (p + of_nat (length s))"
      using True by (simp add: add.assoc of_nat_diff)
    then show ?thesis using True Suc nz
      by (simp add: strlcpy_def loop put_bytes_append del: strlcpy_loop.simps)
  next
    case False
    then show ?thesis using Suc nz by (simp add: strlcpy_def loop del: strlcpy_loop.simps)
  qed
qed

lemma unat_ne_1: "n \<noteq> 0 \<Longrightarrow> n \<noteq> 1 \<Longrightarrow> 2 \<le> unat (n :: u64)"
proof -
  assume n: "n \<noteq> 0" "n \<noteq> 1"
  then have "unat n \<noteq> unat (0 :: u64)" "unat n \<noteq> unat (1 :: u64)"
    by (simp_all only: word_eq_iff_unsigned [symmetric] not_False_eq_True)
  then show "2 \<le> unat n" by simp
qed

lemma strlcat_loop_eq:
  "cstr_at m p s \<Longrightarrow> n \<noteq> 0 \<Longrightarrow> apart d (unat n) p (length s + 1) \<Longrightarrow>
   strlcat_loop n d p m =
     Some (d + of_nat (min (unat n - 1) (length s)), p + of_nat (length s), put_bytes d (take (unat n - 1) s) m)"
proof (induction s arbitrary: n d p m)
  case Nil
  then show ?case by (subst strlcat_loop.simps) simp
next
  case (Cons c s)
  show ?case
  proof (cases "n = 1")
    case True
    have "strlcat_loop 1 d (p + 1) m = Some (d, p + 1 + of_nat (length s), m)"
      using Cons.IH [of m "p + 1" 1 d] Cons.prems True apart_shift_right [OF Cons.prems(3), of 1]
      by simp
    then show ?thesis using Cons.prems(1) True
      by (subst strlcat_loop.simps) (auto simp: add.assoc)
  next
    case False
    define k where "k = unat n - 2"
    have un: "unat n = Suc (Suc k)" and un1: "unat (n - 1) = Suc k"
      using False Cons.prems(2) unat_ne_1 [of n] by (auto simp: k_def unat_minus_one)
    note step = copy_step [OF Cons.prems(1), where d = d and n = "Suc k"]
    have "strlcat_loop (n - 1) (d + 1) (p + 1) (m(d := c)) =
      Some (d + 1 + of_nat (min (unat (n - 1) - 1) (length s)), p + 1 + of_nat (length s),
        put_bytes (d + 1) (take (unat (n - 1) - 1) s) (m(d := c)))"
      by (rule Cons.IH) (use step Cons.prems(3) False un un1 in \<open>simp_all add: fun_upd_def\<close>)
    then show ?thesis using Cons.prems(1) False un un1
      by (subst strlcat_loop.simps) (auto simp: add_ac)
  qed
qed

lemma strlcat_eq:
  assumes t: "cstr_at m d t" and s: "cstr_at m p s" and ap: "apart d (unat siz) p (length s + 1)"
  shows "strlcat d p siz m =
    (if unat siz \<le> length t then Some (siz + of_nat (length s), m)
     else Some (of_nat (length t + length s),
            put_bytes (d + of_nat (length t)) (take (unat siz - length t - 1) s @ [0]) m))"
proof (cases "unat siz \<le> length t")
  case True
  then show ?thesis
    using string_end_eq [OF s] by (simp add: strlcat_def bounded_end_eq [OF t] min_def)
next
  case False
  define n where "n = siz - of_nat (length t)"
  have un: "unat n = unat siz - length t"
    unfolding n_def using False cstr_at_length [OF t]
    by (subst unat_minus_no_wrap) (simp_all add: unat_of_nat_small)
  have nz: "n \<noteq> 0" using un False by auto
  then have ne: "siz \<noteq> of_nat (length t)" by (simp add: n_def)
  have "apart (d + of_nat (length t)) (unat n) p (length s + 1)"
    using apart_shift [OF ap, of "length t"] False un by simp
  from strlcat_loop_eq [OF s nz this] ne False un show ?thesis
    by (simp add: strlcat_def bounded_end_eq [OF t] min_def n_def [symmetric] put_bytes_append Let_def)
qed

lemma stpncpy_loop_eq:
  "cstr_at m (p + i) s \<Longrightarrow> apart (d + i) (min n (length s + 1)) (p + i) (length s + 1) \<Longrightarrow>
   stpncpy_loop n i d p m =
     (i + of_nat (min n (length s)), n - length s, put_bytes (d + i) (take n s) m)"
proof (induction n arbitrary: i m s)
  case (Suc n)
  show ?case
  proof (cases s)
    case Nil
    then show ?thesis using Suc.prems by simp
  next
    case (Cons c t)
    note step = copy_step [OF Suc.prems(1) [unfolded Cons], where d = "d + i" and n = "min n (length t + 1)"]
    have "stpncpy_loop n (i + 1) d p (m(d + i := c)) =
      (i + 1 + of_nat (min n (length t)), n - length t, put_bytes (d + (i + 1)) (take n t) (m(d + i := c)))"
      by (rule Suc.IH) (use step Suc.prems(2) Cons in \<open>simp_all add: fun_upd_def add.assoc\<close>)
    then show ?thesis using Suc.prems(1) Cons by (auto simp: add_ac)
  qed
qed simp

text \<open>\<^verbatim>\<open>stpncpy\<close> writes exactly \<open>n\<close> bytes, which \<^verbatim>\<open>strncpy\<close> does not.\<close>

lemma stpncpy_eq:
  assumes "cstr_at m p s" and "apart d (min (unat n) (length s + 1)) p (length s + 1)"
  shows "stpncpy d p n m = (d + of_nat (min (unat n) (length s)),
    put_bytes d (take (unat n) s @ replicate (unat n - length s) 0) m)"
proof -
  have "stpncpy_loop (unat n) 0 d p m =
      (of_nat (min (unat n) (length s)), unat n - length s, put_bytes d (take (unat n) s) m)"
    using stpncpy_loop_eq [of m p 0 s d "unat n"] assms by simp
  then show ?thesis
    by (simp add: stpncpy_def put_bytes_append set_bytes_put min.commute)
qed

text \<open>Writing after a string, seen as writing the string again in front.\<close>

lemma put_bytes_same: "cstr_at m d t \<Longrightarrow> put_bytes d t m = m"
proof (induction t arbitrary: d)
  case (Cons c t)
  then have "m(d := c) = m" by auto
  with Cons show ?case by simp
qed simp

lemma put_after: "cstr_at m d t \<Longrightarrow> put_bytes (d + of_nat (length t)) xs m = put_bytes d (t @ xs) m"
  by (simp add: put_bytes_append put_bytes_same)

lemma put_bytes_other:
  "\<not> in_block d n a \<Longrightarrow> length xs \<le> n \<Longrightarrow> n \<le> 2 ^ 64 \<Longrightarrow> put_bytes d xs m a = m a"
  by (simp add: put_bytes_eq in_block_def)

section \<open>Overlapping blocks\<close>

lemma copy_down_eq:
  assumes "n \<le> 2 ^ 64" and "\<And>i j. i < j \<Longrightarrow> j < n \<Longrightarrow> s + of_nat i \<noteq> d + of_nat j"
  shows "copy_down n (d + of_nat n) (s + of_nat n) m =
    (\<lambda>a. if in_block d n a then m (s + (a - d)) else m a)"
  using assms
proof (induction n arbitrary: m)
  case (Suc n)
  let ?m = "m(d + of_nat n := m (s + of_nat n))"
  have IH: "copy_down n (d + of_nat n) (s + of_nat n) ?m = (\<lambda>a. if in_block d n a then ?m (s + (a - d)) else ?m a)"
    by (rule Suc.IH) (use Suc.prems in auto)
  have un: "unat (of_nat n :: addr) = n" using Suc.prems(1) by (simp add: unat_of_nat_small)
  have blk: "in_block d (Suc n) a \<longleftrightarrow> in_block d n a \<or> a = d + of_nat n" for a
  proof -
    have "unat (a - d) = n \<longleftrightarrow> a - d = of_nat n" using un by (metis word_eq_iff_unsigned)
    then show ?thesis by (auto simp: in_block_def less_Suc_eq un)
  qed
  have src: "s + (a - d) \<noteq> d + of_nat n" if "in_block d n a" for a
    using that Suc.prems(2) [of "unat (a - d)" n] by (simp add: in_block_def)
  have "copy_down (Suc n) (d + of_nat (Suc n)) (s + of_nat (Suc n)) m =
      copy_down n (d + of_nat n) (s + of_nat n) ?m"
    by (simp add: add.assoc [symmetric])
  then show ?case
    using IH blk src by (auto simp: fun_eq_iff in_block_def un)
qed simp

text \<open>
  C33: \<^verbatim>\<open>memmove\<close> copies the block whatever the overlap: each destination byte gets the
  source byte as it was before the call and no other byte changes, for blocks that
  do not wrap around the address space.
\<close>

theorem memmove_correct:
  assumes "unat dest + unat n \<le> 2 ^ 64" and "unat src + unat n \<le> 2 ^ 64"
  shows "memmove dest src n m =
    (\<lambda>a. if in_block dest (unat n) a then m (src + (a - dest)) else m a)"
proof -
  have off: "unat (p + of_nat i) = unat p + i" if "unat p + unat n \<le> 2 ^ 64" "i < unat n" for p :: addr and i
    using that by (subst unat_plus_no_wrap) (simp_all add: unat_of_nat_small)
  have le: "unat n \<le> 2 ^ 64" using unat_lt_2p [of n] by simp
  show ?thesis
  proof (cases "dest < src")
    case True
    then have lt: "unat dest < unat src" by (simp add: word_less_nat_alt)
    have "\<not> in_block dest i (src + of_nat i)" if "i < unat n" for i
      using that lt assms off [OF assms(2), of i] in_block_bounds [of dest i "src + of_nat i"] by auto
    then show ?thesis using True le by (simp add: memmove_def copy_up_eq)
  next
    case False
    then have ge: "unat src \<le> unat dest" by (simp add: word_less_nat_alt)
    have "src + of_nat i \<noteq> dest + of_nat j" if "i < j" "j < unat n" for i j
    proof
      assume "src + of_nat i = dest + of_nat j"
      from arg_cong [OF this, of unat] show False
        using that ge off [OF assms(1), of j] off [OF assms(2), of i] by simp
    qed
    from copy_down_eq [OF le this] show ?thesis using False by (simp add: memmove_def)
  qed
qed

theorem memmove_correct_witness:
  "memmove 0x1002 0x1000 4 (\<lambda>a. ucast a) 0x1005 = 3 \<and> memmove 0x1000 0x1002 4 (\<lambda>a. ucast a) 0x1000 = 2"
  using memmove_correct [of "0x1002" 4 "0x1000"] memmove_correct [of "0x1000" 4 "0x1002"]
  by (simp add: in_block_def)

section \<open>The contracts of the copying functions\<close>

text \<open>
  C34: The bounded copies of the OpenBSD interface. \<^verbatim>\<open>strlcpy\<close> stores the first \<open>siz - 1\<close> bytes of
  the source and a zero, and writes nothing when \<open>siz\<close> is 0; it returns the length of the source, so the
  result is at least \<open>siz\<close> exactly when the copy is truncated. \<^verbatim>\<open>strlcat\<close> appends as much as fits into \<open>siz\<close> bytes with the zero, and returns the
  length of the string it tried to create; a destination with no zero in its
  first \<open>siz\<close> bytes is left as it is. Neither writes outside the \<open>siz\<close> bytes. The source and the
  destination are C strings in memory and do not overlap.
\<close>

theorem strlcpy_strlcat_correct:
  assumes s: "cstr_at m p s" and t: "cstr_at m d t" and ap: "apart d (unat siz) p (length s + 1)"
  shows "(\<exists>m'. strlcpy d p siz m = Some (of_nat (length s), m') \<and> (siz \<noteq> 0 \<longrightarrow> cstr_at m' d (take (unat siz - 1) s)) \<and>
      (\<forall>a. \<not> in_block d (unat siz) a \<longrightarrow> m' a = m a)) \<and>
    (unat siz \<le> length t \<longrightarrow> strlcat d p siz m = Some (siz + of_nat (length s), m)) \<and>
    (length t < unat siz \<longrightarrow> (\<exists>m'. strlcat d p siz m = Some (of_nat (length t + length s), m') \<and>
      cstr_at m' d (take (unat siz - 1) (t @ s)) \<and> (\<forall>a. \<not> in_block d (unat siz) a \<longrightarrow> m' a = m a)))"
proof (intro conjI impI)
  have len: "length s < 2 ^ 64" and nz: "0 \<notin> set s" and "0 \<notin> set t"
    using cstr_at_length [OF s] cstr_at_nonzero [OF s] cstr_at_nonzero [OF t] by simp_all
  have u: "siz \<noteq> 0 \<Longrightarrow> 0 < unat siz" and lt: "unat siz < 2 ^ 64" using unat_lt_2p [of siz] by (simp_all add: unat_gt_0)
  let ?s = "take (unat siz - 1) s"
  have "0 \<notin> set ?s" using nz by (meson in_set_takeD)
  then have "cstr_at (put_bytes d (?s @ [0]) m) d ?s" using len by (intro cstr_at_put_self) auto
  moreover have "put_bytes d (?s @ [0]) m a = m a" if "siz \<noteq> 0" "\<not> in_block d (unat siz) a" for a
    by (rule put_bytes_other [OF that(2)]) (use u [OF that(1)] lt in auto)
  ultimately show "\<exists>m'. strlcpy d p siz m = Some (of_nat (length s), m') \<and> (siz \<noteq> 0 \<longrightarrow> cstr_at m' d ?s) \<and>
      (\<forall>a. \<not> in_block d (unat siz) a \<longrightarrow> m' a = m a)"
    using strlcpy_eq [OF s ap] by (cases "siz = 0") auto
next
  assume "unat siz \<le> length t"
  then show "strlcat d p siz m = Some (siz + of_nat (length s), m)"
    using strlcat_eq [OF t s ap] by simp
next
  assume lt: "length t < unat siz"
  let ?k = "unat siz - length t - 1"
  let ?m = "put_bytes d ((t @ take ?k s) @ [0]) m"
  have take: "take (unat siz - 1) (t @ s) = t @ take ?k s" using lt by simp
  have sz: "unat siz < 2 ^ 64" using unat_lt_2p [of siz] by simp
  have "cstr_at ?m d (t @ take ?k s)"
    using cstr_at_nonzero [OF s] cstr_at_nonzero [OF t] lt sz
    by (intro cstr_at_put_self) (auto dest: in_set_takeD)
  moreover have "?m a = m a" if "\<not> in_block d (unat siz) a" for a
    by (rule put_bytes_other [OF that]) (use lt sz in auto)
  ultimately show "\<exists>m'. strlcat d p siz m = Some (of_nat (length t + length s), m') \<and>
      cstr_at m' d (take (unat siz - 1) (t @ s)) \<and> (\<forall>a. \<not> in_block d (unat siz) a \<longrightarrow> m' a = m a)"
    using strlcat_eq [OF t s ap] lt unfolding take put_after [OF t] by auto
qed

text \<open>A memory with a short string at 0x1000 and a longer one at 0x2000, 0xFF elsewhere.\<close>

definition demo_strings :: bytes where
  "demo_strings = put_bytes 0x2000 [97, 98, 99, 0] (put_bytes 0x1000 [104, 105, 0] (\<lambda>_. 0xFF))"

lemma demo_strings_at: "cstr_at demo_strings 0x1000 [104, 105]" "cstr_at demo_strings 0x2000 [97, 98, 99]"
  by (simp_all add: demo_strings_def)

lemma demo_apart: "apart 0x2000 8 0x1000 3" "apart 0x2000 3 0x1000 3" "apart 0x2003 3 0x1000 3"
  by (rule apart_above; simp)+

theorem strlcpy_strlcat_correct_witness:
  "(\<exists>m'. strlcpy 0x2000 0x1000 8 demo_strings = Some (2, m') \<and> cstr_at m' 0x2000 [104, 105]) \<and>
   (\<exists>m'. strlcat 0x2000 0x1000 8 demo_strings = Some (5, m') \<and> cstr_at m' 0x2000 [97, 98, 99, 104, 105])"
  using strlcpy_strlcat_correct [OF demo_strings_at, of 8] demo_apart(1) [unfolded numeral_3_eq_3] by auto

text \<open>
  \<^verbatim>\<open>strncpy\<close> and \<^verbatim>\<open>strncat\<close> write one byte too many. For a source shorter than \<open>n\<close>,
  \<^verbatim>\<open>strncpy\<close> stores \<open>n + 1\<close> bytes, the last of them a zero just after the \<open>n\<close> bytes the caller
  provides; \<^verbatim>\<open>strncat\<close> stores a second zero after the terminator of the result.
\<close>

theorem strncpy_overruns:
  assumes s: "cstr_at m p s" and short: "length s < unat n"
    and ap: "apart d (length s + 1) p (length s + 1)"
    and t: "cstr_at m e t" and ap': "apart (e + of_nat (length t)) (length s + 1) p (length s + 1)"
    and room: "length t + length s + 2 \<le> 2 ^ 64"
  shows "strncpy d p n m = put_bytes d (s @ replicate (unat n - length s) 0 @ [0]) m \<and>
    strncpy d p n m (d + n) = 0 \<and> \<not> in_block d (unat n) (d + n) \<and>
    strncat e p n m = Some (put_bytes e (t @ s @ [0, 0]) m) \<and>
    put_bytes e (t @ s @ [0, 0]) m (e + of_nat (length t + length s + 1)) = 0"
proof (intro conjI)
  have mn: "min (unat n) (length s + 1) = length s + 1" using short by simp
  show eq: "strncpy d p n m = put_bytes d (s @ replicate (unat n - length s) 0 @ [0]) m"
    using strncpy_eq [OF s, of d n] ap short by (simp add: mn replicate_append_same)
  have lt: "unat n < 2 ^ 64" using unat_lt_2p [of n] by simp
  then show "strncpy d p n m (d + n) = 0"
    unfolding eq using short by (subst put_bytes_eq) (simp_all add: in_block_def nth_append)
  show "\<not> in_block d (unat n) (d + n)" by (simp add: in_block_def)
  show "strncat e p n m = Some (put_bytes e (t @ s @ [0, 0]) m)"
    using strncat_eq [OF t s, of n] ap' short put_after [OF t, of "s @ [0, 0]"] by (simp add: mn)
  have "unat (of_nat (length t + length s + 1) :: addr) = length t + length s + 1"
    using room by (intro unat_of_nat_small) simp
  then show "put_bytes e (t @ s @ [0, 0]) m (e + of_nat (length t + length s + 1)) = 0"
    using room by (subst put_bytes_eq) (simp_all add: in_block_def nth_append)
qed

end
