(* ===== verification/StringSearch.thy ===== *)
theory StringSearch
  imports StringCopy "HOL-Library.Sublist"
begin

text \<open>
  The comparing, searching and tokenising functions of theory \<^verbatim>\<open>CString\<close> against list
  specifications: lexicographic order, first and last positions, first occurrence of a
  substring, and the delimiter-free pieces of a string.
\<close>

section \<open>Comparing\<close>

text \<open>An integer that compares two lists the way \<^verbatim>\<open>strcmp\<close> promises.\<close>

definition compares :: "int \<Rightarrow> 'a :: linorder list \<Rightarrow> 'a list \<Rightarrow> bool" where
  "compares r s t \<longleftrightarrow> (r < 0 \<longleftrightarrow> ord_class.lexordp s t) \<and> (r = 0 \<longleftrightarrow> s = t) \<and> (0 < r \<longleftrightarrow> ord_class.lexordp t s)"

lemma compares_Nil: "compares r [] [] \<longleftrightarrow> r = 0"
  by (auto simp: compares_def)

lemma compares_first:
  "x \<noteq> y \<Longrightarrow> compares r (x # s) (y # t) \<longleftrightarrow> (r < 0 \<longleftrightarrow> x < y) \<and> r \<noteq> 0"
  by (auto simp: compares_def)

lemma compares_same [simp]: "compares r (x # s) (x # t) \<longleftrightarrow> compares r s t"
  by (simp add: compares_def)

lemma compares_Nil_Cons [simp]:
  "compares r [] (y # t) \<longleftrightarrow> r < 0" "compares r (x # s) [] \<longleftrightarrow> 0 < r"
  by (auto simp: compares_def)

lemma uint_inj_eq: "uint (a :: u8) = uint b \<Longrightarrow> a = b"
  by (metis word_of_int_uint)

lemma byte_diff_simps [simp]:
  "byte_diff a b < 0 \<longleftrightarrow> a < b" "byte_diff a b = 0 \<longleftrightarrow> a = b" "0 < byte_diff a b \<longleftrightarrow> b < a"
  by (auto simp: byte_diff_def word_less_def dest: uint_inj_eq)

lemma strcmp_eq:
  "cstr_at m p s \<Longrightarrow> cstr_at m q t \<Longrightarrow> \<exists>r. strcmp p q m = Some r \<and> compares r s t"
proof (induction s arbitrary: p q t)
  case Nil
  then show ?case by (cases t) (auto simp: strcmp.simps [of p] compares_Nil word_gt_0)
next
  case (Cons c s)
  show ?case
  proof (cases t)
    case Nil
    then show ?thesis using Cons.prems by (auto simp: strcmp.simps [of p] word_gt_0)
  next
    case t: (Cons e u)
    show ?thesis
    proof (cases "c = e")
      case True
      with Cons.prems t Cons.IH [of "p + 1" "q + 1" u] show ?thesis
        by (auto simp: strcmp.simps [of p])
    next
      case False
      with Cons.prems t show ?thesis by (auto simp: strcmp.simps [of p] compares_first)
    qed
  qed
qed

lemma strncmp_loop_eq:
  "cstr_at m p s \<Longrightarrow> cstr_at m q t \<Longrightarrow> compares (strncmp_loop n p q m) (take n s) (take n t)"
proof (induction n arbitrary: p q s t)
  case (Suc n)
  show ?case
  proof (cases s)
    case Nil
    then show ?thesis using Suc.prems by (cases t) (auto simp: compares_Nil word_gt_0)
  next
    case s: (Cons c u)
    show ?thesis
    proof (cases t)
      case Nil
      then show ?thesis using Suc.prems s by (auto simp: word_gt_0)
    next
      case (Cons e v)
      then show ?thesis using Suc.prems s Suc.IH [of "p + 1" u "q + 1" v]
        by (cases "c = e") (auto simp: compares_first)
    qed
  qed
qed (simp add: compares_Nil)

lemma memcmp_loop_eq:
  "compares (memcmp_loop n p q m) (map (\<lambda>i. m (p + of_nat i)) [0..<n]) (map (\<lambda>i. m (q + of_nat i)) [0..<n])"
proof (induction n arbitrary: p q)
  case (Suc n)
  have sh: "map (\<lambda>i. m (p + of_nat i)) [0..<Suc n] = m p # map (\<lambda>i. m (p + 1 + of_nat i)) [0..<n]" for p :: addr
    by (simp only: upt_conv_Cons map_Suc_upt [symmetric] list.map zero_less_Suc)
      (simp add: add.assoc)
  show ?case unfolding sh using Suc.IH [of "p + 1" "q + 1"]
    by (cases "m p = m q") (auto simp: compares_first)
qed (simp add: compares_Nil)

definition lower :: "cstr \<Rightarrow> int list" where
  "lower s = map (\<lambda>c. tolower (uint c)) s"

lemma lower_simps [simp]: "lower [] = []" "lower (c # s) = tolower (uint c) # lower s"
  by (simp_all add: lower_def)

lemma tolower_pos: "c \<noteq> 0 \<Longrightarrow> 0 < tolower (uint (c :: u8))"
  using uint_nonnegative [of c] by (auto simp: tolower_def isupper_def less_le unsigned_eq_0_iff)

lemma tolower_0 [simp]: "tolower 0 = 0"
  by simp

lemma strcasecmp_eq:
  "cstr_at m p s \<Longrightarrow> cstr_at m q t \<Longrightarrow> \<exists>r. strcasecmp p q m = Some r \<and> compares r (lower s) (lower t)"
proof (induction s arbitrary: p q t)
  case Nil
  then show ?case
    by (cases t) (auto simp: strcasecmp.simps [of p] compares_Nil lower_diff_def tolower_pos)
next
  case (Cons c s)
  show ?case
  proof (cases t)
    case Nil
    then show ?thesis using Cons.prems by (auto simp: strcasecmp.simps [of p] lower_diff_def tolower_pos)
  next
    case t: (Cons e u)
    show ?thesis
    proof (cases "tolower (uint c) = tolower (uint e)")
      case True
      with Cons.prems t Cons.IH [of "p + 1" "q + 1" u] show ?thesis
        by (auto simp: strcasecmp.simps [of p] lower_diff_def Let_def)
    next
      case False
      with Cons.prems t show ?thesis
        by (auto simp: strcasecmp.simps [of p] lower_diff_def Let_def compares_first)
    qed
  qed
qed

lemma strncasecmp_loop_eq:
  "cstr_at m p s \<Longrightarrow> cstr_at m q t \<Longrightarrow>
   compares (strncasecmp_loop n p q m) (lower (take n s)) (lower (take n t))"
proof (induction n arbitrary: p q s t)
  case (Suc n)
  show ?case
  proof (cases s)
    case Nil
    then show ?thesis using Suc.prems by (cases t) (auto simp: compares_Nil lower_diff_def tolower_pos)
  next
    case s: (Cons c u)
    show ?thesis
    proof (cases t)
      case Nil
      then show ?thesis using Suc.prems s by (auto simp: lower_diff_def tolower_pos)
    next
      case (Cons e v)
      then show ?thesis using Suc.prems s Suc.IH [of "p + 1" u "q + 1" v]
        by (cases "tolower (uint c) = tolower (uint e)") (auto simp: compares_first lower_diff_def Let_def)
    qed
  qed
qed (simp add: compares_Nil)

text \<open>
  The comparing functions order strings lexicographically by unsigned byte value: the
  result is negative, zero or positive as the first string is before, equal to or after
  the second; \<^verbatim>\<open>strncmp\<close> and \<^verbatim>\<open>strncasecmp\<close> do so for the first \<open>n\<close> bytes, the case-insensitive
  ones after mapping both strings to lower case, and \<^verbatim>\<open>memcmp\<close> for any two blocks.
\<close>

theorem string_compare_correct:
  assumes "cstr_at m p s" and "cstr_at m q t"
  shows "(\<exists>r. strcmp p q m = Some r \<and> compares r s t) \<and>
    compares (strncmp p q n m) (take (unat n) s) (take (unat n) t) \<and>
    (\<exists>r. strcasecmp p q m = Some r \<and> compares r (lower s) (lower t)) \<and>
    compares (strncasecmp p q n m) (lower (take (unat n) s)) (lower (take (unat n) t)) \<and>
    compares (memcmp p q n m) (map (\<lambda>i. m (p + of_nat i)) [0..<unat n]) (map (\<lambda>i. m (q + of_nat i)) [0..<unat n])"
  using strcmp_eq [OF assms] strncmp_loop_eq [OF assms] strcasecmp_eq [OF assms]
    strncasecmp_loop_eq [OF assms] memcmp_loop_eq
  by (simp add: strncmp_def strncasecmp_def memcmp_def)

section \<open>Searching\<close>

text \<open>
  The result \<open>r\<close> of a search from \<open>p\<close> over the positions \<open>0..k\<close>: the address of the first
  one with \<open>P\<close>, null if there is none.
\<close>

definition finds :: "(nat \<Rightarrow> bool) \<Rightarrow> nat \<Rightarrow> addr \<Rightarrow> addr \<Rightarrow> bool" where
  "finds P k p r \<longleftrightarrow>
     (\<exists>i \<le> k. P i \<and> (\<forall>j < i. \<not> P j) \<and> r = p + of_nat i) \<or> (\<forall>i \<le> k. \<not> P i) \<and> r = NULL"

definition finds_last :: "(nat \<Rightarrow> bool) \<Rightarrow> nat \<Rightarrow> addr \<Rightarrow> addr \<Rightarrow> addr \<Rightarrow> bool" where
  "finds_last P k p lst r \<longleftrightarrow>
     (\<exists>i \<le> k. P i \<and> (\<forall>j \<le> k. i < j \<longrightarrow> \<not> P j) \<and> r = p + of_nat i) \<or> (\<forall>i \<le> k. \<not> P i) \<and> r = lst"

lemma finds_0 [simp]: "finds P 0 p r \<longleftrightarrow> (if P 0 then r = p else r = NULL)"
  by (auto simp: finds_def)

lemma ex_le_Suc: "(\<exists>i \<le> Suc k. Q i) \<longleftrightarrow> Q 0 \<or> (\<exists>i \<le> k. Q (Suc i))"
  by (metis Suc_le_mono le0 not0_implies_Suc)

lemma all_le_Suc: "(\<forall>i \<le> Suc k. Q i) \<longleftrightarrow> Q 0 \<and> (\<forall>i \<le> k. Q (Suc i))"
  by (metis Suc_le_mono le0 not0_implies_Suc)

lemma finds_Suc:
  "finds P (Suc k) p r \<longleftrightarrow> (if P 0 then r = p else finds (\<lambda>i. P (Suc i)) k (p + 1) r)"
proof (cases "P 0")
  case True
  then show ?thesis by (auto simp: finds_def ex_le_Suc All_less_Suc2)
next
  case False
  then show ?thesis
    by (simp add: finds_def ex_le_Suc all_le_Suc All_less_Suc2 add.assoc)
qed

lemma finds_last_0 [simp]: "finds_last P 0 p l r \<longleftrightarrow> (if P 0 then r = p else r = l)"
  by (auto simp: finds_last_def)

lemma finds_last_Suc:
  "finds_last P (Suc k) p l r \<longleftrightarrow> finds_last (\<lambda>i. P (Suc i)) k (p + 1) (if P 0 then p else l) r"
  by (auto simp: finds_last_def ex_le_Suc all_le_Suc add.assoc)

lemma strchr_eq:
  assumes "c = 0 \<longleftrightarrow> ucast c = (0 :: u8)" and "cstr_at m p s"
  shows "\<exists>r. strchr p c m = Some r \<and> finds (\<lambda>i. (s @ [0]) ! i = ucast c) (length s) p r"
  using assms(2)
proof (induction s arbitrary: p)
  case Nil
  then show ?case using assms(1) by (auto simp: strchr.simps [of p])
next
  case (Cons x s)
  then show ?case using Cons.IH [of "p + 1"] by (auto simp: strchr.simps [of p] finds_Suc)
qed

lemma strrchr_loop_eq:
  assumes "c = 0 \<longleftrightarrow> ucast c = (0 :: u8)" and "cstr_at m p s"
  shows "\<exists>r. strrchr_loop p c l m = Some r \<and> finds_last (\<lambda>i. (s @ [0]) ! i = ucast c) (length s) p l r"
  using assms(2)
proof (induction s arbitrary: p l)
  case Nil
  then show ?case using assms(1) by (auto simp: strrchr_loop.simps [of p])
next
  case (Cons x s)
  then show ?case using Cons.IH [of "p + 1"]
    by (cases "x = ucast c") (auto simp: strrchr_loop.simps [of p] finds_last_Suc)
qed

lemma needle_here_eq:
  "cstr_at m h s \<Longrightarrow> cstr_at m n t \<Longrightarrow> needle_here h n m = Some (prefix t s)"
proof (induction s arbitrary: h n t)
  case Nil
  then show ?case by (cases t) (auto simp: needle_here.simps [of h])
next
  case (Cons x s)
  then show ?case
    by (cases t) (auto simp: needle_here.simps [of h])
qed

lemma strstr_loop_eq:
  assumes "cstr_at m n t" and "t \<noteq> []" and "cstr_at m h s"
  shows "\<exists>r. strstr_loop h n m = Some r \<and> finds (\<lambda>i. prefix t (drop i s)) (length s) h r"
  using assms(3)
proof (induction s arbitrary: h)
  case Nil
  then show ?case using assms(2) by (auto simp: strstr_loop.simps [of h])
next
  case (Cons x s)
  then show ?case using Cons.IH [of "h + 1"] needle_here_eq [OF Cons.prems assms(1)]
    by (auto simp: strstr_loop.simps [of h] finds_Suc)
qed

lemma casematch_eq:
  "cstr_at m h s \<Longrightarrow> cstr_at m n t \<Longrightarrow> casematch (length t) h n m \<longleftrightarrow> prefix (lower t) (lower s)"
proof (induction t arbitrary: h n s)
  case (Cons x t)
  then show ?case by (cases s) (auto simp: tolower_pos [THEN less_imp_neq])
qed simp

lemma strcasestr_loop_eq:
  assumes "cstr_at m n t" and "t \<noteq> []" and "cstr_at m h s"
  shows "\<exists>r. strcasestr_loop h n (length t) m = Some r \<and>
    finds (\<lambda>i. prefix (lower t) (lower (drop i s))) (length s) h r"
  using assms(3)
proof (induction s arbitrary: h)
  case Nil
  then show ?case using assms(2) by (auto simp: strcasestr_loop.simps [of h] lower_def)
next
  case (Cons x s)
  then show ?case using Cons.IH [of "h + 1"] casematch_eq [OF Cons.prems assms(1)]
    by (auto simp: strcasestr_loop.simps [of h] finds_Suc)
qed

lemma byte_in_eq: "cstr_at m a A \<Longrightarrow> c \<noteq> 0 \<Longrightarrow> byte_in c a m = Some (c \<in> set A)"
  by (induction A arbitrary: a) (auto simp: byte_in.simps [of c])

lemma strspn_loop_eq:
  "cstr_at m a A \<Longrightarrow> cstr_at m p s \<Longrightarrow>
   strspn_loop p a n m = Some (n + of_nat (length (takeWhile (\<lambda>c. c \<in> set A) s)))"
  by (induction s arbitrary: p n) (auto simp: strspn_loop.simps [of p for p] byte_in_eq add_ac)

lemma strcspn_loop_eq:
  "cstr_at m a A \<Longrightarrow> cstr_at m p s \<Longrightarrow>
   strcspn_loop p a n m = Some (n + of_nat (length (takeWhile (\<lambda>c. c \<notin> set A) s)))"
  by (induction s arbitrary: p n) (auto simp: strcspn_loop.simps [of p for p] byte_in_eq add_ac)

lemma strpbrk_eq:
  "cstr_at m a A \<Longrightarrow> cstr_at m p s \<Longrightarrow>
   \<exists>r. strpbrk p a m = Some r \<and> finds (\<lambda>i. (s @ [0]) ! i \<in> set A) (length s) p r"
proof (induction s arbitrary: p)
  case Nil
  then show ?case using cstr_at_nonzero [of m a A] by (auto simp: strpbrk.simps [of p])
next
  case (Cons x s)
  then show ?case by (auto simp: strpbrk.simps [of p] byte_in_eq finds_Suc)
qed

text \<open>
  C35: The searching functions find the first position of a byte (\<^verbatim>\<open>strchr\<close>, the
  terminating zero included), the last one (\<^verbatim>\<open>strrchr\<close>), the first byte out of a set
  (\<^verbatim>\<open>strpbrk\<close>), the first occurrence of a substring (\<^verbatim>\<open>strstr\<close>) also up to case
  (\<^verbatim>\<open>strcasestr\<close>), and the length of the longest prefix inside or outside a set
  (\<^verbatim>\<open>strspn\<close>, \<^verbatim>\<open>strcspn\<close>); null when there is none. The byte is given as an \<^verbatim>\<open>int\<close>
  that is zero when its low byte is.
\<close>

theorem string_search_correct:
  assumes s: "cstr_at m p s" and t: "cstr_at m q t" and c: "c = 0 \<longleftrightarrow> ucast c = (0 :: u8)"
  shows "(\<exists>r. strchr p c m = Some r \<and> finds (\<lambda>i. (s @ [0]) ! i = ucast c) (length s) p r) \<and>
    (\<exists>r. strrchr p c m = Some r \<and> finds_last (\<lambda>i. (s @ [0]) ! i = ucast c) (length s) p NULL r) \<and>
    (\<exists>r. strpbrk p q m = Some r \<and> finds (\<lambda>i. (s @ [0]) ! i \<in> set t) (length s) p r) \<and>
    (\<exists>r. strstr p q m = Some r \<and> finds (\<lambda>i. prefix t (drop i s)) (length s) p r) \<and>
    (\<exists>r. strcasestr p q m = Some r \<and> finds (\<lambda>i. prefix (lower t) (lower (drop i s))) (length s) p r) \<and>
    strspn p q m = Some (of_nat (length (takeWhile (\<lambda>x. x \<in> set t) s))) \<and>
    strcspn p q m = Some (of_nat (length (takeWhile (\<lambda>x. x \<notin> set t) s)))"
proof (intro conjI)
  show "\<exists>r. strstr p q m = Some r \<and> finds (\<lambda>i. prefix t (drop i s)) (length s) p r"
    using strstr_loop_eq [OF t _ s] t
    by (cases t) (auto simp: strstr_def finds_def)
  show "\<exists>r. strcasestr p q m = Some r \<and> finds (\<lambda>i. prefix (lower t) (lower (drop i s))) (length s) p r"
  proof (cases "t = []")
    case True
    then show ?thesis using t by (auto simp: strcasestr_def finds_def)
  next
    case False
    then have "m q \<noteq> 0" using t by (cases t) auto
    then show ?thesis
      using strcasestr_loop_eq [OF t False s] strlen_eq [OF t] cstr_at_length [OF t]
      by (simp add: strcasestr_def unat_of_nat_small)
  qed
qed (use strchr_eq [OF c s] strrchr_loop_eq [OF c s] strpbrk_eq [OF t s] strspn_loop_eq [OF t s]
    strcspn_loop_eq [OF t s] in \<open>simp_all add: strrchr_def strspn_def strcspn_def\<close>)

theorem string_search_correct_witness:
  "strchr 0x2000 98 demo_strings = Some 0x2001 \<and> strrchr 0x2000 99 demo_strings = Some 0x2002"
proof -
  have "finds (\<lambda>i. [97, 98, 99, 0 :: u8] ! i = 98) 3 0x2000 r \<Longrightarrow> r = 0x2001" for r
    by (simp add: finds_Suc numeral_3_eq_3)
  moreover have "finds_last (\<lambda>i. [97, 98, 99, 0 :: u8] ! i = 99) 3 0x2000 NULL r \<Longrightarrow> r = 0x2002" for r
    by (simp add: finds_last_Suc numeral_3_eq_3)
  ultimately show ?thesis
    using string_search_correct [OF demo_strings_at(2,1), of 98] string_search_correct [OF demo_strings_at(2,1), of 99]
    by (auto simp: numeral_3_eq_3)
qed

section \<open>Tokens\<close>

text \<open>The maximal non-empty pieces of \<open>s\<close> without a byte of \<open>D\<close>, from left to right.\<close>

function tokens :: "u8 set \<Rightarrow> cstr \<Rightarrow> cstr list" where
  "tokens D s =
     (let u = dropWhile (\<lambda>x. x \<in> D) s in
      if u = [] then []
      else takeWhile (\<lambda>x. x \<notin> D) u # tokens D (tl (dropWhile (\<lambda>x. x \<notin> D) u)))"
  by pat_completeness auto
termination
proof (relation "measure (\<lambda>(D, s). length s)", goal_cases)
  case (2 D s u)
  have "length (tl (dropWhile (\<lambda>x. x \<notin> D) u)) < length u"
    using 2(2) length_dropWhile_le [of "\<lambda>x. x \<notin> D" u] by (cases u) (auto split: if_splits)
  then show ?case using 2(1) length_dropWhile_le [of "\<lambda>x. x \<in> D" s] by simp
qed simp

declare tokens.simps [simp del]

text \<open>A pointer to a string that does not wrap around the address space.\<close>

definition str_ok :: "bytes \<Rightarrow> addr \<Rightarrow> cstr \<Rightarrow> bool" where
  "str_ok m p s \<longleftrightarrow> cstr_at m p s \<and> p \<noteq> NULL \<and> unat p + length s < 2 ^ 64"

lemma str_ok_unat: "str_ok m p s \<Longrightarrow> i \<le> length s \<Longrightarrow> unat (p + of_nat i) = unat p + i"
  unfolding str_ok_def by (subst unat_plus_no_wrap) (simp_all add: unat_of_nat_small)

lemma str_ok_inj:
  assumes "str_ok m p s" and "i \<le> length s" and "j \<le> length s"
  shows "p + of_nat i = p + of_nat j \<longleftrightarrow> i = j"
  using str_ok_unat [OF assms(1,2)] str_ok_unat [OF assms(1,3)] by (metis add_left_cancel)

lemma str_ok_not_null: "str_ok m p s \<Longrightarrow> i \<le> length s \<Longrightarrow> p + of_nat i \<noteq> NULL"
  using str_ok_unat [of m p s i] by (auto simp: str_ok_def unat_eq_zero)

lemma str_ok_suffix: "str_ok m p (s @ t) \<Longrightarrow> str_ok m (p + of_nat (length s)) t"
  using str_ok_not_null [of m p "s @ t" "length s"] str_ok_unat [of m p "s @ t" "length s"]
  by (simp add: str_ok_def cstr_at_append)

lemma char_arg: "(scast (x :: u8) :: u32) = 0 \<longleftrightarrow> ucast (scast x :: u32) = (0 :: u8)"
  "ucast (scast (x :: u8) :: u32) = x"
proof -
  show "ucast (scast (x :: u8) :: u32) = x"
    by (rule bit_word_eqI) (simp add: bit_ucast_iff bit_signed_iff)
  then show "(scast (x :: u8) :: u32) = 0 \<longleftrightarrow> ucast (scast x :: u32) = (0 :: u8)"
    by (metis signed_0 unsigned_0)
qed

lemma strchr_mem:
  assumes d: "str_ok m d D" and "x \<noteq> 0"
  obtains r where "strchr d (scast x) m = Some r" and "r \<noteq> NULL \<longleftrightarrow> x \<in> set D"
proof -
  obtain r where r: "strchr d (scast x) m = Some r" "finds (\<lambda>i. (D @ [0]) ! i = x) (length D) d r"
    using strchr_eq [OF char_arg(1) [of x], of m d D] d by (auto simp: char_arg(2) str_ok_def)
  have "x \<in> set D \<longleftrightarrow> (\<exists>i \<le> length D. (D @ [0]) ! i = x)"
    using assms(2) by (auto simp: in_set_conv_nth nth_append le_less)
  then have "r \<noteq> NULL \<longleftrightarrow> x \<in> set D"
    using r(2) str_ok_not_null [OF d] unfolding finds_def by metis
  with r(1) show ?thesis by (rule that)
qed

lemma tok_scan_eq:
  assumes d: "str_ok m d D"
  shows "cstr_at m p s \<Longrightarrow>
    tok_scan skip p d m = Some (p + of_nat (length (takeWhile (\<lambda>x. (x \<in> set D) = skip) s)))"
proof (induction s arbitrary: p)
  case Nil
  then show ?case by (subst tok_scan.simps) simp
next
  case (Cons x s)
  then have x: "m p = x" "x \<noteq> 0" by auto
  obtain r where "strchr d (scast x) m = Some r" "r \<noteq> NULL \<longleftrightarrow> x \<in> set D"
    using strchr_mem [OF d x(2)] by blast
  then show ?case using Cons x by (subst tok_scan.simps) (auto simp: add.assoc)
qed

lemma strtok_step:
  assumes p: "str_ok m p s" and d: "str_ok m d D" and str: "str = p \<or> str = NULL \<and> saved = p"
    and s: "s = u @ t @ v" and u: "u = takeWhile (\<lambda>x. x \<in> set D) s"
    and t: "t = takeWhile (\<lambda>x. x \<notin> set D) (t @ v)"
  shows "strtok str d saved m =
    (if t = [] then Some (NULL, p + of_nat (length s), m)
     else if v = [] then Some (p + of_nat (length u), NULL, m)
     else Some (p + of_nat (length u), p + of_nat (length u + length t + 1),
            m(p + of_nat (length u + length t) := 0)))"
proof -
  have pn: "p \<noteq> NULL" and cs: "cstr_at m p s" using p by (auto simp: str_ok_def)
  have s0: "(if str \<noteq> NULL then str else saved) = p" using str pn by auto
  have skip: "tok_scan True p d m = Some (p + of_nat (length u))"
    using tok_scan_eq [OF d cs, of True] u by simp
  have tv: "cstr_at m (p + of_nat (length u)) (t @ v)" using cs s by (simp add: cstr_at_append)
  have run: "tok_scan False (p + of_nat (length u)) d m = Some (p + of_nat (length u) + of_nat (length t))"
    using tok_scan_eq [OF d tv, of False] t by simp
  have v: "m (p + of_nat (length u) + of_nat (length t)) = 0 \<longleftrightarrow> v = []"
    using cstr_at_suffix [OF tv] by (cases v) auto
  show ?thesis
  proof (cases "t = []")
    case True
    have "v = []"
    proof (rule ccontr)
      assume "v \<noteq> []"
      then obtain x r where vx: "v = x # r" by (cases v) auto
      then have "x \<in> set D" using t True by (auto split: if_splits)
      moreover have "y \<in> set D" if "y \<in> set u" for y
        using that set_takeWhileD [of y "\<lambda>x. x \<in> set D" s] u by simp
      ultimately have "takeWhile (\<lambda>x. x \<in> set D) (u @ x # r) = u @ x # takeWhile (\<lambda>x. x \<in> set D) r"
        by simp
      moreover have "s = u @ x # r" by (simp only: s True vx append_Nil)
      ultimately have "length u = length (u @ x # takeWhile (\<lambda>x. x \<in> set D) r)" using u by metis
      then show False by simp
    qed
    then show ?thesis using True s v pn
      by (simp add: strtok_def s0 skip)
  next
    case False
    then have "m (p + of_nat (length u)) \<noteq> 0" using tv by (cases t) auto
    then show ?thesis using False v pn
      by (simp add: strtok_def s0 skip run add.assoc)
  qed
qed

text \<open>
  The loop of a caller of \<^verbatim>\<open>strtok\<close>: a first call with the string, then calls with a null pointer
  until one returns null. The number bounds the rounds.
\<close>

fun strtok_all :: "nat \<Rightarrow> addr \<Rightarrow> addr \<Rightarrow> addr \<Rightarrow> bytes \<Rightarrow> (addr list \<times> bytes) option" where
  "strtok_all 0 str delim saved m = None"
| "strtok_all (Suc k) str delim saved m =
     (case strtok str delim saved m of None \<Rightarrow> None
      | Some (token, saved1, m1) \<Rightarrow>
          if token = NULL then Some ([], m1)
          else map_option (\<lambda>(ts, m2). (token # ts, m2)) (strtok_all k NULL delim saved1 m1))"

text \<open>The bytes of a string in memory, its terminator included, are the only ones that change.\<close>

definition only_in :: "addr \<Rightarrow> cstr \<Rightarrow> bytes \<Rightarrow> bytes \<Rightarrow> bool" where
  "only_in p s m m' \<longleftrightarrow> (\<forall>a. unat a < unat p \<or> unat p + length s \<le> unat a \<longrightarrow> m' a = m a)"

lemma strtok_cut:
  assumes p: "str_ok m p s" and d: "str_ok m d D" and ap: "apart p (length s + 1) d (length D + 1)"
    and s: "s = u @ t @ x # r"
  defines "m1 \<equiv> m(p + of_nat (length u + length t) := 0)" and "q \<equiv> p + of_nat (length u + length t + 1)"
  shows "str_ok m1 q r" and "str_ok m1 d D" and "apart q (length r + 1) d (length D + 1)"
proof -
  let ?k = "length u + length t"
  have k: "?k + 1 + length r = length s" using s by simp
  have "str_ok m q r" using str_ok_suffix [of m p "u @ t @ [x]" r] p s by (simp add: q_def add.assoc)
  moreover have "q + of_nat j \<noteq> p + of_nat ?k" if "j \<le> length r" for j
  proof
    have "p + of_nat (?k + 1 + j) = q + of_nat j" by (simp add: q_def add.assoc)
    also assume "\<dots> = p + of_nat ?k"
    finally show False using str_ok_inj [OF p, of "?k + 1 + j" ?k] k that by simp
  qed
  ultimately show "str_ok m1 q r"
    unfolding str_ok_def m1_def by (blast intro: cstr_at_upd dest: sym)
  have "p + of_nat ?k \<noteq> d + of_nat j" if "j \<le> length D" for j
    using ap [unfolded apart_def, rule_format, of ?k j] that k by simp
  then show "str_ok m1 d D" using d unfolding str_ok_def m1_def by (blast intro: cstr_at_upd)
  show "apart q (length r + 1) d (length D + 1)"
    unfolding q_def by (rule apart_mono [OF apart_shift [OF ap, of "?k + 1"]]) (use k in simp_all)
qed

lemma strtok_cut_later:
  assumes p: "str_ok m p s" and s: "s = u @ t @ x # r"
    and only: "only_in (p + of_nat (length u + length t + 1)) r (m(p + of_nat (length u + length t) := 0)) m'"
  shows "cstr_at m' (p + of_nat (length u)) t" and "only_in p s m m'"
proof -
  let ?k = "length u + length t"
  let ?m = "m(p + of_nat ?k := 0)"
  have k: "?k + 1 + length r = length s" using s by simp
  note un = str_ok_unat [OF p]
  have m': "m' a = ?m a" if "unat a \<le> unat p + ?k \<or> unat p + length s \<le> unat a" for a
  proof -
    have "unat a < unat (p + of_nat (?k + 1)) \<or> unat (p + of_nat (?k + 1)) + length r \<le> unat a"
      using that un [of "?k + 1"] k by auto
    then show ?thesis using only unfolding only_in_def by blast
  qed
  have at: "cstr_at m (p + of_nat (length u)) (t @ x # r)" using p s by (simp add: str_ok_def cstr_at_append)
  have "?m (p + of_nat (length u) + of_nat i) = t ! i \<and> t ! i \<noteq> 0" if "i < length t" for i
  proof -
    have "p + of_nat (length u + i) \<noteq> p + of_nat ?k"
      by (subst str_ok_inj [OF p]) (use k that in simp_all)
    then show ?thesis using at [unfolded cstr_at_append] that by (simp add: add.assoc)
  qed
  then have "cstr_at ?m (p + of_nat (length u)) (t @ [])"
    by (subst cstr_at_append) (simp add: add.assoc)
  then have "cstr_at ?m (p + of_nat (length u)) t" by simp
  then show "cstr_at m' (p + of_nat (length u)) t"
  proof (rule cstr_at_cong)
    fix i assume "i \<le> length t"
    then show "m' (p + of_nat (length u) + of_nat i) = ?m (p + of_nat (length u) + of_nat i)"
      using m' un [of "length u + i"] k by (simp add: add.assoc)
  qed
  have "m' a = m a" if "unat a < unat p \<or> unat p + length s \<le> unat a" for a
  proof -
    have "a \<noteq> p + of_nat ?k" using that un [of ?k] k by auto
    then show ?thesis using m' [of a] that by auto
  qed
  then show "only_in p s m m'" unfolding only_in_def by blast
qed

lemma strtok_all_eq:
  assumes "str_ok m p s" and "str_ok m d D" and "str = p \<or> str = NULL \<and> saved = p"
    and "apart p (length s + 1) d (length D + 1)" and "length s < k"
  shows "\<exists>ts m'. strtok_all k str d saved m = Some (ts, m') \<and>
    list_all2 (cstr_at m') ts (tokens (set D) s) \<and> only_in p s m m'"
  using assms
proof (induction "length s" arbitrary: s p m k str saved rule: less_induct)
  case less
  let ?P = "\<lambda>x. x \<in> set D"
  define u where "u = takeWhile ?P s"
  define t where "t = takeWhile (\<lambda>x. x \<notin> set D) (dropWhile ?P s)"
  define v where "v = dropWhile (\<lambda>x. x \<notin> set D) (dropWhile ?P s)"
  have tv: "t @ v = dropWhile ?P s" by (simp add: t_def v_def)
  have s: "s = u @ t @ v" by (simp add: tv u_def)
  have tk: "t = takeWhile (\<lambda>x. x \<notin> set D) (t @ v)" by (simp add: tv) (simp add: t_def)
  note step = strtok_step [OF less.prems(1-3) s u_def tk]
  obtain k' where k: "k = Suc k'" using less.prems(5) by (cases k) auto
  have toks: "tokens (set D) s = (if t @ v = [] then [] else t # tokens (set D) (tl v))"
    by (subst tokens.simps) (simp add: tv Let_def t_def v_def)
  show ?case
  proof (cases "t = []")
    case True
    then have "dropWhile ?P s = []"
      using hd_dropWhile [of ?P s] by (cases "dropWhile ?P s") (auto simp: t_def split: if_splits)
    then show ?thesis using True step toks tv by (auto simp: k only_in_def)
  next
    case False
    let ?tok = "p + of_nat (length u)"
    have tok: "?tok \<noteq> NULL" by (rule str_ok_not_null [OF less.prems(1)]) (simp add: s)
    show ?thesis
    proof (cases v)
      case Nil
      then have "cstr_at m ?tok t" using str_ok_suffix [of m p u t] less.prems(1) s by (simp add: str_ok_def)
      moreover obtain k'' where "k' = Suc k''" using less.prems(5) k s False by (cases k') auto
      moreover have "strtok NULL d NULL m = Some (NULL, NULL, m)" by (simp add: strtok_def)
      ultimately show ?thesis using False step toks tok Nil by (simp add: k tokens.simps only_in_def)
    next
      case (Cons x r)
      let ?e = "p + of_nat (length u + length t)"
      let ?m = "m(?e := 0)" and ?q = "p + of_nat (length u + length t + 1)"
      note cut = strtok_cut [OF less.prems(1,2,4), of u t x r] 
      obtain ts m' where IH: "strtok_all k' NULL d ?q ?m = Some (ts, m')"
        "list_all2 (cstr_at m') ts (tokens (set D) r)" "only_in ?q r ?m m'"
        using less.hyps [of r ?m ?q NULL ?q k'] cut less.prems(5) s Cons k by auto
      have "cstr_at m' ?tok t" "only_in p s m m'"
        using strtok_cut_later [OF less.prems(1), of u t x r m'] IH(3) s Cons by simp_all
      then show ?thesis using False step toks tok Cons IH by (simp add: k)
    qed
  qed
qed

lemma sep_in_eq: "cstr_at m d D \<Longrightarrow> sep_in c d m = Some (c \<in> set D \<or> c = 0)"
  by (induction D arbitrary: d) (auto simp: sep_in.simps [of c])

lemma strsep_loop_eq:
  assumes d: "cstr_at m d D"
  shows "cstr_at m p s \<Longrightarrow> strsep_loop tok p d m =
    (let n = length (takeWhile (\<lambda>x. x \<notin> set D) s) in
     if n = length s then Some (tok, NULL, m)
     else Some (tok, p + of_nat n + 1, m(p + of_nat n := 0)))"
proof (induction s arbitrary: p)
  case Nil
  then show ?case by (subst strsep_loop.simps) (simp add: sep_in_eq [OF d])
next
  case (Cons x s)
  then show ?case by (subst strsep_loop.simps) (auto simp: sep_in_eq [OF d] Let_def add_ac)
qed

text \<open>
  C36: Calling \<^verbatim>\<open>strtok\<close> until it returns null gives pointers to exactly the tokens of the string, in
  order: the maximal non-empty pieces without delimiters, each terminated in place; nothing
  outside the string changes. One call of \<^verbatim>\<open>strsep\<close> cuts the string at its first
  delimiter, so that it gives empty pieces as well.
\<close>

theorem strtok_tokens:
  assumes p: "str_ok m p s" and d: "str_ok m d D" and ap: "apart p (length s + 1) d (length D + 1)"
  shows "(\<exists>ts m'. strtok_all (length s + 1) p d saved m = Some (ts, m') \<and>
      list_all2 (cstr_at m') ts (tokens (set D) s) \<and> only_in p s m m') \<and>
    strsep p d m =
      (let n = length (takeWhile (\<lambda>x. x \<notin> set D) s) in
       if n = length s then Some (p, NULL, m) else Some (p, p + of_nat n + 1, m(p + of_nat n := 0)))"
proof
  show "\<exists>ts m'. strtok_all (length s + 1) p d saved m = Some (ts, m') \<and>
      list_all2 (cstr_at m') ts (tokens (set D) s) \<and> only_in p s m m'"
    by (rule strtok_all_eq [OF p d _ ap]) simp_all
  show "strsep p d m =
      (let n = length (takeWhile (\<lambda>x. x \<notin> set D) s) in
       if n = length s then Some (p, NULL, m) else Some (p, p + of_nat n + 1, m(p + of_nat n := 0)))"
    using strsep_loop_eq [of m d D p s p] p d by (simp add: strsep_def str_ok_def)
qed

definition demo_path :: bytes where
  "demo_path = put_bytes 0x2000 [47, 97, 47, 47, 98, 99, 0] (put_bytes 0x1000 [47, 0] (\<lambda>_. 0xFF))"

theorem strtok_tokens_witness:
  "(\<exists>t u m'. strtok_all 7 0x2000 0x1000 0 demo_path = Some ([t, u], m') \<and> cstr_at m' t [97] \<and> cstr_at m' u [98, 99]) \<and>
   strsep 0x2000 0x1000 demo_path = Some (0x2000, 0x2001, demo_path(0x2000 := 0))"
proof -
  have toks: "tokens (set [47]) [47, 97, 47, 47, 98, 99] = [[97], [98, 99]]"
    by (simp add: tokens.simps)
  have ok: "str_ok demo_path 0x2000 [47, 97, 47, 47, 98, 99]" "str_ok demo_path 0x1000 [47]"
    by (simp_all add: demo_path_def str_ok_def)
  have "apart 0x2000 (length [47, 97, 47, 47, 98, 99 :: u8] + 1) 0x1000 (length [47 :: u8] + 1)"
    by (rule apart_above) simp_all
  note tt = strtok_tokens [OF ok this, of 0, unfolded toks]
  have len: "length [47, 97, 47, 47, 98, 99 :: u8] + 1 = 7" by simp
  show ?thesis using tt unfolding len by (auto simp: list_all2_Cons2 simp del: strtok_all.simps)
qed

end
