(* ===== verification/Strerror.thy ===== *)
theory Strerror
  imports Prelude
begin

text \<open>
  The message tables of \<^verbatim>\<open>strerror\<close> and \<^verbatim>\<open>strsignal\<close> in \<^verbatim>\<open>userland/libc/src/string/string.c\<close>, and the
  text they compose for other numbers. The argument is a C \<^verbatim>\<open>int\<close> other than the least one, whose
  negation overflows.
\<close>

definition strerror_table :: "(int \<times> string) list" where
  "strerror_table =
  [(0, ''Success''),
   (1, ''Operation not permitted''),
   (2, ''No such file or directory''),
   (3, ''No such process''),
   (4, ''Interrupted system call''),
   (5, ''Input/output error''),
   (6, ''No such device or address''),
   (7, ''Argument list too long''),
   (8, ''Exec format error''),
   (9, ''Bad file descriptor''),
   (10, ''No child processes''),
   (11, ''Resource temporarily unavailable''),
   (12, ''Cannot allocate memory''),
   (13, ''Permission denied''),
   (14, ''Bad address''),
   (15, ''Block device required''),
   (16, ''Device or resource busy''),
   (17, ''File exists''),
   (18, ''Invalid cross-device link''),
   (19, ''No such device''),
   (20, ''Not a directory''),
   (21, ''Is a directory''),
   (22, ''Invalid argument''),
   (23, ''Too many open files in system''),
   (24, ''Too many open files''),
   (25, ''Inappropriate ioctl for device''),
   (26, ''Text file busy''),
   (27, ''File too large''),
   (28, ''No space left on device''),
   (29, ''Illegal seek''),
   (30, ''Read-only file system''),
   (31, ''Too many links''),
   (32, ''Broken pipe''),
   (33, ''Numerical argument out of domain''),
   (34, ''Numerical result out of range''),
   (35, ''Resource deadlock avoided''),
   (36, ''File name too long''),
   (37, ''No locks available''),
   (38, ''Function not implemented''),
   (39, ''Directory not empty''),
   (40, ''Too many levels of symbolic links''),
   (42, ''No message of desired type''),
   (43, ''Identifier removed''),
   (60, ''Device not a stream''),
   (61, ''No data available''),
   (62, ''Timer expired''),
   (63, ''Out of streams resources''),
   (67, ''Link has been severed''),
   (71, ''Protocol error''),
   (74, ''Not a data message''),
   (75, ''Value too large for defined data type''),
   (84, ''Illegal byte sequence''),
   (88, ''Socket operation on non-socket''),
   (89, ''Destination address required''),
   (90, ''Message too long''),
   (91, ''Protocol wrong type for socket''),
   (92, ''Protocol not available''),
   (93, ''Protocol not supported''),
   (94, ''Socket type not supported''),
   (95, ''Operation not supported''),
   (97, ''Address family not supported by protocol''),
   (98, ''Address already in use''),
   (99, ''Cannot assign requested address''),
   (100, ''Network is down''),
   (101, ''Network is unreachable''),
   (103, ''Software caused connection abort''),
   (104, ''Connection reset by peer''),
   (105, ''No buffer space available''),
   (106, ''Transport endpoint is already connected''),
   (107, ''Transport endpoint is not connected''),
   (110, ''Connection timed out''),
   (111, ''Connection refused''),
   (113, ''No route to host''),
   (114, ''Operation already in progress''),
   (115, ''Operation now in progress''),
   (116, ''Stale file handle''),
   (130, ''Owner died''),
   (131, ''State not recoverable'')]"

definition strsignal_table :: "(int \<times> string) list" where
  "strsignal_table =
  [(1, ''Hangup''),
   (2, ''Interrupt''),
   (3, ''Quit''),
   (4, ''Illegal instruction''),
   (5, ''Trace/breakpoint trap''),
   (6, ''Aborted''),
   (7, ''Bus error''),
   (8, ''Floating point exception''),
   (9, ''Killed''),
   (10, ''User defined signal 1''),
   (11, ''Segmentation fault''),
   (12, ''User defined signal 2''),
   (13, ''Broken pipe''),
   (14, ''Alarm clock''),
   (15, ''Terminated''),
   (17, ''Child exited''),
   (18, ''Continued''),
   (19, ''Stopped (signal)''),
   (20, ''Stopped''),
   (21, ''Stopped (tty input)''),
   (22, ''Stopped (tty output)''),
   (23, ''Urgent I/O condition''),
   (24, ''CPU time limit exceeded''),
   (25, ''File size limit exceeded''),
   (26, ''Virtual timer expired''),
   (27, ''Profiling timer expired''),
   (28, ''Window changed''),
   (29, ''I/O possible''),
   (30, ''Power failure''),
   (31, ''Bad system call'')]"

text \<open>The character \<open>'0' + k\<close>, and the digits both functions append for \<open>n \<ge> 0\<close>.\<close>

definition digit_char :: "int \<Rightarrow> char" where
  "digit_char k = char_of (nat (48 + k))"

definition append_number :: "int \<Rightarrow> string" where
  "append_number n =
     (if n \<ge> 100
      then let n1 = n mod 100; n2 = n1 mod 10 in
           [digit_char (n div 100), digit_char (n1 div 10), digit_char n2]
      else if n \<ge> 10 then [digit_char (n div 10), digit_char (n mod 10)]
      else [digit_char n])"

definition message :: "(int \<times> string) list \<Rightarrow> string \<Rightarrow> int \<Rightarrow> string" where
  "message table pre n =
     (case map_of table n of Some m \<Rightarrow> m
      | None \<Rightarrow> pre @ (if n < 0 then ''-'' @ append_number (- n) else append_number n))"

definition strerror :: "int \<Rightarrow> string" where
  "strerror errnum = message strerror_table ''Error '' errnum"

definition strsignal :: "int \<Rightarrow> string" where
  "strsignal sig = message strsignal_table ''Unknown signal '' sig"

text \<open>The decimal notation of a number.\<close>

fun decimal :: "nat \<Rightarrow> string" where
  "decimal n = (if n < 10 then [char_of (48 + n)] else decimal (n div 10) @ [char_of (48 + n mod 10)])"

declare decimal.simps [simp del]

lemma append_number_decimal:
  assumes "n < 1000"
  shows "append_number (int n) = decimal n"
proof -
  have d: "digit_char (int k) = char_of (48 + k)" for k by (simp add: digit_char_def nat_add_distrib)
  have e: "decimal k = [char_of (48 + k)]" if "k < 10" for k using that by (simp add: decimal.simps)
  consider "n < 10" | "10 \<le> n" "n < 100" | "100 \<le> n" by linarith
  then show ?thesis
  proof cases
    case 1
    then show ?thesis by (simp add: append_number_def d e)
  next
    case 2
    then have "decimal n = decimal (n div 10) @ [char_of (48 + n mod 10)]" by (subst decimal.simps) simp
    moreover have "decimal (n div 10) = [char_of (48 + n div 10)]" using 2 by (intro e) simp
    ultimately show ?thesis using 2 d [of "n div 10"] d [of "n mod 10"]
      by (simp add: append_number_def zdiv_int zmod_int)
  next
    case 3
    then have "decimal n = decimal (n div 10) @ [char_of (48 + n mod 10)]" by (subst decimal.simps) simp
    moreover have "decimal (n div 10) = decimal (n div 10 div 10) @ [char_of (48 + n div 10 mod 10)]"
    proof -
      have "10 \<le> n div 10" using 3 by arith
      then show ?thesis by (subst decimal.simps) simp
    qed
    moreover have "decimal (n div 10 div 10) = [char_of (48 + n div 10 div 10)]" using assms by (intro e) simp
    moreover have "n mod 100 div 10 = n div 10 mod 10" "n mod 100 mod 10 = n mod 10"
      using mod_mult2_eq [of n 10 10] by simp_all
    then have "digit_char (int n mod 100 div 10) = char_of (48 + n div 10 mod 10)"
      "digit_char (int n mod 100 mod 10) = char_of (48 + n mod 10)"
      using d [of "n mod 100 div 10"] d [of "n mod 100 mod 10"]
      by (metis of_nat_numeral zdiv_int zmod_int)+
    ultimately show ?thesis using 3 d [of "n div 100"]
      by (simp add: append_number_def Let_def zdiv_int div_mult2_eq [symmetric])
  qed
qed

text \<open>An unlisted number below 1000 is named in decimal; from 1000 on the first character is not a digit.\<close>

lemma strerror_unlisted:
  "n < 1000 \<Longrightarrow> map_of strerror_table (int n) = None \<Longrightarrow> strerror (int n) = ''Error '' @ decimal n"
  "strerror 1000 = ''Error :00''"
  by (simp add: strerror_def message_def append_number_decimal) code_simp

lemma strsignal_unlisted:
  "n < 1000 \<Longrightarrow> map_of strsignal_table (int n) = None \<Longrightarrow> strsignal (int n) = ''Unknown signal '' @ decimal n"
  "strsignal 16 = ''Unknown signal 16''"
  by (simp add: strsignal_def message_def append_number_decimal) code_simp

end
