(* ===== verification/Strtol.thy ===== *)
theory Strtol
  imports StringCopy
begin

text \<open>
  The conversions of strings to integers in \<^verbatim>\<open>userland/libc/src/stdlib/stdlib.c\<close>. A \<^verbatim>\<open>long\<close> is a
  64-bit word read as a signed number; signed arithmetic that leaves its range is undefined in C and has no
  result here (\<open>None\<close>), like a walk that never ends. A \<^verbatim>\<open>char\<close> is signed. The result is the value together
  with the pointer that the functions store through \<^verbatim>\<open>endptr\<close> when it is not null.
\<close>

definition is_space :: "int \<Rightarrow> bool" where
  "is_space c \<longleftrightarrow> c = 32 \<or> c = 9 \<or> c = 10 \<or> c = 13 \<or> c = 12 \<or> c = 11"

definition is_digit :: "int \<Rightarrow> bool" where
  "is_digit c \<longleftrightarrow> c \<ge> 48 \<and> c \<le> 57"

partial_function (option) skip_space :: "addr \<Rightarrow> bytes \<Rightarrow> addr option" where
  "skip_space s m = (if is_space (sint (m s)) then skip_space (s + 1) m else Some s)"

declare skip_space.simps [code]

text \<open>The value of a digit or letter, \<open>None\<close> where the loop breaks.\<close>

definition digit_value :: "int \<Rightarrow> int option" where
  "digit_value c =
     (if is_digit c then Some (c - 48)
      else if c \<ge> 97 \<and> c \<le> 122 then Some (c - 97 + 10)
      else if c \<ge> 65 \<and> c \<le> 90 then Some (c - 65 + 10)
      else None)"

definition long_ok :: "int \<Rightarrow> bool" where
  "long_ok x \<longleftrightarrow> - (2 ^ 63) \<le> x \<and> x < 2 ^ 63"

partial_function (option) strtol_digits :: "int \<Rightarrow> u64 \<Rightarrow> addr \<Rightarrow> bytes \<Rightarrow> (u64 \<times> addr) option" where
  "strtol_digits base acc s m =
     (if m s \<noteq> 0
      then case digit_value (sint (m s)) of
          None \<Rightarrow> Some (acc, s)
        | Some digit \<Rightarrow>
            if digit \<ge> base then Some (acc, s)
            else if \<not> long_ok (sint acc * base) \<or> \<not> long_ok (sint acc * base + digit) then None
            else strtol_digits base (of_int (sint acc * base + digit)) (s + 1) m
      else Some (acc, s))"

declare strtol_digits.simps [code]

definition is_x :: "u8 \<Rightarrow> bool" where
  "is_x c \<longleftrightarrow> c = 120 \<or> c = 88"

text \<open>Detecting the base and skipping a \<open>0x\<close> prefix.\<close>

definition detect_base :: "int \<Rightarrow> addr \<Rightarrow> bytes \<Rightarrow> int \<times> addr" where
  "detect_base base s m =
     (if base = 0
      then if m s = 48
           then if is_x (m (s + 1)) then (16, s + 2) else (8, s)
           else (10, s)
      else if base = 16 \<and> m s = 48 \<and> is_x (m (s + 1)) then (base, s + 2)
      else (base, s))"

definition strtol :: "addr \<Rightarrow> int \<Rightarrow> bytes \<Rightarrow> (u64 \<times> addr) option" where
  "strtol nptr base0 m =
     Option.bind (skip_space nptr m)
       (\<lambda>s0. let neg = (m s0 = 45);
                 s1 = (if m s0 = 45 then s0 + 1 else if m s0 = 43 then s0 + 1 else s0);
                 (base, s2) = detect_base base0 s1 m
             in map_option (\<lambda>(acc, s). (if neg then - acc else acc, s)) (strtol_digits base 0 s2 m))"

definition atol :: "addr \<Rightarrow> bytes \<Rightarrow> u64 option" where
  "atol nptr m = map_option fst (strtol nptr 10 m)"

definition atoi :: "addr \<Rightarrow> bytes \<Rightarrow> u32 option" where
  "atoi nptr m = map_option ucast (atol nptr m)"

definition strtoul :: "addr \<Rightarrow> int \<Rightarrow> bytes \<Rightarrow> (u64 \<times> addr) option" where
  "strtoul nptr base m = strtol nptr base m"

definition strtoll :: "addr \<Rightarrow> int \<Rightarrow> bytes \<Rightarrow> (u64 \<times> addr) option" where
  "strtoll nptr base m = strtol nptr base m"

definition strtoull :: "addr \<Rightarrow> int \<Rightarrow> bytes \<Rightarrow> (u64 \<times> addr) option" where
  "strtoull nptr base m = strtoll nptr base m"

definition atoll :: "addr \<Rightarrow> bytes \<Rightarrow> u64 option" where
  "atoll nptr m = map_option fst (strtoll nptr 10 m)"

text \<open>\<open>n < 0 ? -n : n\<close> at the two widths: the negation of the least value is undefined.\<close>

definition abs_int :: "u32 \<Rightarrow> u32 option" where
  "abs_int n = (if sint n < 0 then if sint n = - (2 ^ 31) then None else Some (- n) else Some n)"

definition labs :: "u64 \<Rightarrow> u64 option" where
  "labs n = (if sint n < 0 then if long_ok (- sint n) then Some (- n) else None else Some n)"

section \<open>What they compute\<close>

text \<open>The number a list of digits denotes.\<close>

definition numval :: "int \<Rightarrow> cstr \<Rightarrow> int" where
  "numval base ds = foldl (\<lambda>acc c. acc * base + the (digit_value (sint c))) 0 ds"

definition digit_in :: "int \<Rightarrow> u8 \<Rightarrow> bool" where
  "digit_in base c \<longleftrightarrow> (case digit_value (sint c) of Some d \<Rightarrow> d < base | None \<Rightarrow> False)"

lemma skip_space_eq:
  assumes "cstr_at m p s"
  shows "skip_space p m = Some (p + of_nat (length (takeWhile (\<lambda>c. is_space (sint c)) s)))"
  using assms
proof (induction s arbitrary: p)
  case Nil
  then have "\<not> is_space (sint (m p))" by (auto simp: is_space_def)
  then show ?case by (subst skip_space.simps) simp
next
  case (Cons c s)
  then show ?case by (subst skip_space.simps) (auto simp: add.assoc)
qed

lemma sint_of_int: "long_ok a \<Longrightarrow> sint (of_int a :: u64) = a"
  by (simp add: long_ok_def signed_take_bit_int_eq_self signed_of_int)

text \<open>Digits have values below the base, so the number grows with every digit read.\<close>

lemma digit_inD: "digit_in b c \<Longrightarrow> \<exists>d. digit_value (sint c) = Some d \<and> 0 \<le> d \<and> d < b"
  by (auto simp: digit_in_def digit_value_def is_digit_def split: option.splits if_splits)

abbreviation add_digit :: "int \<Rightarrow> int \<Rightarrow> u8 \<Rightarrow> int" where
  "add_digit b acc c \<equiv> acc * b + the (digit_value (sint c))"

lemma foldl_digits_mono: "0 \<le> acc \<Longrightarrow> \<forall>c \<in> set ds. digit_in b c \<Longrightarrow> acc \<le> foldl (add_digit b) acc ds"
proof (induction ds arbitrary: acc)
  case (Cons c ds)
  obtain d where d: "digit_value (sint c) = Some d" "0 \<le> d" "d < b" using digit_inD [of b c] Cons.prems(2) by auto
  then have "acc \<le> acc * b + d" using Cons.prems(1) mult_left_mono [of 1 b acc] by simp
  then show ?case using Cons.IH [of "acc * b + d"] Cons.prems d by simp
qed simp

lemma strtol_digits_eq:
  assumes "cstr_at m p s" and "0 \<le> acc" and "acc < 2 ^ 63"
  shows "strtol_digits b (of_int acc) p m =
    (let ds = takeWhile (digit_in b) s; v = foldl (add_digit b) acc ds in
     if v < 2 ^ 63 then Some (of_int v, p + of_nat (length ds)) else None)"
  using assms
proof (induction s arbitrary: p acc)
  case Nil
  then show ?case by (subst strtol_digits.simps) simp
next
  case (Cons c s)
  have mc: "m p = c" "c \<noteq> 0" and at: "cstr_at m (p + 1) s" using Cons.prems(1) by auto
  have si: "sint (of_int acc :: u64) = acc" using Cons.prems by (intro sint_of_int) (simp add: long_ok_def)
  show ?case
  proof (cases "digit_in b c")
    case False
    then show ?thesis using mc Cons.prems(3)
      by (subst strtol_digits.simps) (auto simp: digit_in_def split: option.splits)
  next
    case True
    then obtain d where d: "digit_value (sint c) = Some d" "0 \<le> d" "d < b" using digit_inD by blast
    have nn: "0 \<le> acc * b" using Cons.prems(2) d by simp
    define v where "v = foldl (add_digit b) (acc * b + d) (takeWhile (digit_in b) s)"
    have le: "acc * b + d \<le> v" unfolding v_def
      by (rule foldl_digits_mono) (use nn d in \<open>auto dest: set_takeWhileD\<close>)
    have ok: "long_ok (acc * b) \<and> long_ok (acc * b + d) \<longleftrightarrow> acc * b + d < 2 ^ 63" using nn d(2) by (auto simp: long_ok_def)
    have "strtol_digits b (of_int acc) p m =
        (if acc * b + d < 2 ^ 63 then strtol_digits b (of_int (acc * b + d)) (p + 1) m else None)"
      using mc d ok by (subst strtol_digits.simps) (auto simp: si)
    also have "\<dots> = (if v < 2 ^ 63 then Some (of_int v, p + 1 + of_nat (length (takeWhile (digit_in b) s))) else None)"
      using Cons.IH [OF at, of "acc * b + d"] nn d(2) le by (simp add: v_def Let_def)
    finally show ?thesis using True d by (simp add: v_def Let_def add.assoc)
  qed
qed

text \<open>The parts of the text, in the order they are read: the sign, the prefix \<open>0x\<close> and the base.\<close>

definition has_0x :: "cstr \<Rightarrow> bool" where
  "has_0x s \<longleftrightarrow> (case s of x # y # _ \<Rightarrow> x = 48 \<and> is_x y | _ \<Rightarrow> False)"

definition sign_of :: "cstr \<Rightarrow> cstr" where
  "sign_of s = (case s of c # _ \<Rightarrow> if c = 45 \<or> c = 43 then [c] else [] | [] \<Rightarrow> [])"

definition prefix_of :: "int \<Rightarrow> cstr \<Rightarrow> cstr" where
  "prefix_of base0 s = (if (base0 = 0 \<or> base0 = 16) \<and> has_0x s then take 2 s else [])"

definition base_of :: "int \<Rightarrow> cstr \<Rightarrow> int" where
  "base_of base0 s = (if base0 \<noteq> 0 then base0 else if has_0x s then 16 else if s \<noteq> [] \<and> hd s = 48 then 8 else 10)"

lemma detect_base_eq:
  assumes "cstr_at m p s"
  shows "detect_base base0 p m = (base_of base0 s, p + of_nat (length (prefix_of base0 s)))"
proof -
  have x: "has_0x s \<longleftrightarrow> m p = 48 \<and> is_x (m (p + 1))"
    using assms by (cases s; cases "tl s") (auto simp: has_0x_def is_x_def)
  have h: "s \<noteq> [] \<and> hd s = 48 \<longleftrightarrow> m p = 48" using assms by (cases s) auto
  have "has_0x s \<Longrightarrow> length (take 2 s) = 2" by (auto simp: has_0x_def split: list.splits)
  then show ?thesis by (auto simp: detect_base_def base_of_def prefix_of_def x h [symmetric] simp del: length_take)
qed

lemma cstr_at_drop: "cstr_at m p (u @ v) \<Longrightarrow> cstr_at m (p + of_nat (length u)) v"
  by (simp add: cstr_at_append)

text \<open>
  C37: What \<^verbatim>\<open>strtol\<close> computes, for every string and every base: it skips white space, then reads a sign, a
  prefix \<open>0x\<close> where the base allows it, and the longest run of digits of the base. When the number these
  digits denote is below \<open>2^63\<close>, the result is this number with its sign and the end pointer is after the last
  digit; a larger number overflows the accumulator and has no defined result. With no digit at all the result
  is 0 and the end pointer is after the white space, the sign and the prefix. \<^verbatim>\<open>strtoul\<close>, \<^verbatim>\<open>strtoll\<close> and
  \<^verbatim>\<open>strtoull\<close> are the same function, and \<^verbatim>\<open>atol\<close>, \<^verbatim>\<open>atoll\<close> give the value in base 10.
\<close>

theorem strtol_correct:
  fixes base0 :: int
  assumes at: "cstr_at m p s"
  defines "w \<equiv> takeWhile (\<lambda>c. is_space (sint c)) s" and "s1 \<equiv> dropWhile (\<lambda>c. is_space (sint c)) s"
  defines "sg \<equiv> sign_of s1" and "s2 \<equiv> drop (length (sign_of s1)) s1"
  defines "pre \<equiv> prefix_of base0 s2" and "b \<equiv> base_of base0 s2"
  defines "ds \<equiv> takeWhile (digit_in b) (drop (length pre) s2)"
  defines "r \<equiv> (if numval b ds < 2 ^ 63
      then Some (of_int ((if sg = [45] then - 1 else 1) * numval b ds), p + of_nat (length w + length sg + length pre + length ds))
      else None)"
  shows "strtol p base0 m = r \<and> strtoul p base0 m = r \<and> strtoll p base0 m = r \<and> strtoull p base0 m = r \<and>
    (base0 = 10 \<longrightarrow> atol p m = map_option fst r \<and> atoll p m = map_option fst r)"
proof -
  let ?p = "p + of_nat (length w)"
  have at1: "cstr_at m ?p s1" using cstr_at_drop [of m p w s1] at by (simp add: w_def s1_def)
  have s1: "s1 = sg @ s2" by (auto simp: sg_def s2_def sign_of_def split: list.splits)
  have at2: "cstr_at m (?p + of_nat (length sg)) s2" using cstr_at_drop [of m ?p sg s2] at1 s1 by simp
  have s2: "s2 = pre @ drop (length pre) s2" by (auto simp: pre_def prefix_of_def has_0x_def split: list.splits)
  have at3: "cstr_at m (?p + of_nat (length sg) + of_nat (length pre)) (drop (length pre) s2)"
    using cstr_at_drop [of m "?p + of_nat (length sg)" pre "drop (length pre) s2"] at2 s2 by simp
  have sign: "m ?p = 45 \<longleftrightarrow> sg = [45]" "m ?p = 43 \<longleftrightarrow> sg = [43]" "sg \<in> {[], [43], [45]}"
    using at1 by (cases s1; auto simp: sg_def sign_of_def)+
  have base: "detect_base base0 (?p + of_nat (length sg)) m = (b, ?p + of_nat (length sg) + of_nat (length pre))"
    using detect_base_eq [OF at2] by (simp add: b_def pre_def)
  have "strtol p base0 m = r"
    using strtol_digits_eq [OF at3, of 0 b] sign(3) base
    by (auto simp: strtol_def skip_space_eq [OF at] w_def [symmetric] sign Let_def ds_def [symmetric] r_def numval_def add.assoc)
  then show ?thesis
    by (auto simp: strtoul_def strtoll_def strtoull_def atol_def atoll_def)
qed

definition demo_number :: bytes where
  "demo_number = put_bytes 0x1000 [32, 45, 48, 120, 49, 70, 46, 0] (\<lambda>_. 0)"

theorem strtol_correct_witness: "strtol 0x1000 16 demo_number = Some (- 31, 0x1006)"
proof -
  have "cstr_at demo_number 0x1000 [32, 45, 48, 120, 49, 70, 46]" by (simp add: demo_number_def)
  from strtol_correct [OF this, of 16] show ?thesis
    by (simp add: is_space_def sign_of_def prefix_of_def base_of_def has_0x_def is_x_def digit_in_def digit_value_def
        is_digit_def numval_def)
qed

end
