(* ===== verification/Qsort.thy ===== *)
theory Qsort
  imports CString "HOL-Library.Multiset"
begin

text \<open>
  \<^verbatim>\<open>qsort\<close> and \<^verbatim>\<open>bsearch\<close> of \<^verbatim>\<open>userland/libc/src/stdlib/stdlib.c\<close> on byte memory. The comparison
  function of the caller is an argument; it gets the two pointers and the memory.
\<close>

type_synonym compar = "addr \<Rightarrow> addr \<Rightarrow> bytes \<Rightarrow> int"

text \<open>The loop that swaps two elements byte by byte, from byte \<open>k\<close> on with \<open>n\<close> left.\<close>

fun swap_loop :: "nat \<Rightarrow> u64 \<Rightarrow> addr \<Rightarrow> addr \<Rightarrow> bytes \<Rightarrow> bytes" where
  "swap_loop 0 k p1 p2 m = m"
| "swap_loop (Suc n) k p1 p2 m =
     (let tmp = m (p1 + k);
          m1 = m(p1 + k := m (p2 + k));
          m2 = m1(p2 + k := tmp)
      in swap_loop n (k + 1) p1 p2 m2)"

text \<open>The body of the inner loop, and the inner and the outer loop with the rounds that are left.\<close>

definition qsort_step :: "compar \<Rightarrow> addr \<Rightarrow> u64 \<Rightarrow> u64 \<Rightarrow> bytes \<Rightarrow> bytes" where
  "qsort_step cmp b sz j m =
     (let p1 = b + j * sz; p2 = b + (j + 1) * sz in
      if cmp p1 p2 m > 0 then swap_loop (unat sz) 0 p1 p2 m else m)"

fun qsort_inner :: "compar \<Rightarrow> addr \<Rightarrow> u64 \<Rightarrow> nat \<Rightarrow> u64 \<Rightarrow> bytes \<Rightarrow> bytes" where
  "qsort_inner cmp b sz 0 j m = m"
| "qsort_inner cmp b sz (Suc k) j m = qsort_inner cmp b sz k (j + 1) (qsort_step cmp b sz j m)"

fun qsort_outer :: "compar \<Rightarrow> addr \<Rightarrow> u64 \<Rightarrow> u64 \<Rightarrow> nat \<Rightarrow> u64 \<Rightarrow> bytes \<Rightarrow> bytes" where
  "qsort_outer cmp b nmemb sz 0 i m = m"
| "qsort_outer cmp b nmemb sz (Suc k) i m =
     qsort_outer cmp b nmemb sz k (i + 1)
       (qsort_inner cmp b sz (unat (nmemb - i - 1)) 0 m)"

definition qsort :: "addr \<Rightarrow> u64 \<Rightarrow> u64 \<Rightarrow> compar \<Rightarrow> bytes \<Rightarrow> bytes" where
  "qsort base nmemb sz cmp m =
     (if nmemb \<le> 1 then m else qsort_outer cmp base nmemb sz (unat (nmemb - 1)) 0 m)"

function bsearch_loop :: "(addr \<Rightarrow> int) \<Rightarrow> addr \<Rightarrow> u64 \<Rightarrow> u64 \<Rightarrow> u64 \<Rightarrow> addr" where
  "bsearch_loop cmp b sz left right =
     (if left < right
      then let mid = left + (right - left) div 2;
               p = b + mid * sz;
               c = cmp p
           in if c = 0 then p
              else if c < 0 then bsearch_loop cmp b sz left mid
              else bsearch_loop cmp b sz (mid + 1) right
      else NULL)"
  by pat_completeness auto

lemma bsearch_mid:
  fixes left right :: u64
  assumes "left < right"
  shows "unat (left + (right - left) div 2) = unat left + (unat right - unat left) div 2"
    and "unat left \<le> unat (left + (right - left) div 2)" and "unat (left + (right - left) div 2) < unat right"
    and "unat (left + (right - left) div 2 + 1) = unat (left + (right - left) div 2) + 1"
proof -
  have lt: "unat left < unat right" using assms by (simp add: word_less_nat_alt)
  have half: "unat ((right - left) div 2) = (unat right - unat left) div 2"
    using lt by (simp add: unat_div_distrib unat_minus_no_wrap)
  have r: "unat right < 2 ^ 64" using unat_lt_2p [of right] by simp
  have mid: "unat (left + (right - left) div 2) = unat left + (unat right - unat left) div 2"
    using lt r half by (subst unat_plus_no_wrap) simp_all
  then show "unat (left + (right - left) div 2) = unat left + (unat right - unat left) div 2"
    and "unat left \<le> unat (left + (right - left) div 2)" by simp_all
  show less: "unat (left + (right - left) div 2) < unat right" using lt mid by simp
  show "unat (left + (right - left) div 2 + 1) = unat (left + (right - left) div 2) + 1"
    using less r by (subst unat_plus_no_wrap) simp_all
qed

termination bsearch_loop
proof (relation "measure (\<lambda>(cmp, b, sz, left, right). unat right - unat left)", goal_cases)
  case (2 cmp b sz left right)
  then show ?case using bsearch_mid [OF 2(1)] by (auto simp: word_less_nat_alt)
next
  case (3 cmp b sz left right)
  then show ?case using bsearch_mid [OF 3(1)] by (auto simp: word_less_nat_alt intro!: diff_less_mono2)
qed simp

declare bsearch_loop.simps [simp del]

definition bsearch :: "addr \<Rightarrow> addr \<Rightarrow> u64 \<Rightarrow> u64 \<Rightarrow> compar \<Rightarrow> bytes \<Rightarrow> addr" where
  "bsearch key base nmemb sz cmp m = bsearch_loop (\<lambda>p. cmp key p m) base sz 0 nmemb"

section \<open>Bubble sort on lists\<close>

text \<open>The three loops on the list of elements, for a comparison \<open>c\<close> of elements.\<close>

definition bubble_step :: "('a \<Rightarrow> 'a \<Rightarrow> int) \<Rightarrow> nat \<Rightarrow> 'a list \<Rightarrow> 'a list" where
  "bubble_step c j xs = (if c (xs ! j) (xs ! (j + 1)) > 0 then xs[j := xs ! (j + 1), j + 1 := xs ! j] else xs)"

fun bubble_inner :: "('a \<Rightarrow> 'a \<Rightarrow> int) \<Rightarrow> nat \<Rightarrow> nat \<Rightarrow> 'a list \<Rightarrow> 'a list" where
  "bubble_inner c 0 j xs = xs"
| "bubble_inner c (Suc k) j xs = bubble_inner c k (j + 1) (bubble_step c j xs)"

fun bubble_outer :: "('a \<Rightarrow> 'a \<Rightarrow> int) \<Rightarrow> nat \<Rightarrow> nat \<Rightarrow> 'a list \<Rightarrow> 'a list" where
  "bubble_outer c 0 i xs = xs"
| "bubble_outer c (Suc k) i xs = bubble_outer c k (i + 1) (bubble_inner c (length xs - i - 1) 0 xs)"

text \<open>What a comparison function promises.\<close>

definition comparison :: "('a \<Rightarrow> 'a \<Rightarrow> int) \<Rightarrow> bool" where
  "comparison c \<longleftrightarrow> (\<forall>x y. 0 < c x y \<longrightarrow> c y x \<le> 0) \<and> (\<forall>x y z. c x y \<le> 0 \<longrightarrow> c y z \<le> 0 \<longrightarrow> c x z \<le> 0)"

lemma bubble_step_facts:
  assumes "j + 1 < length xs"
  shows "length (bubble_step c j xs) = length xs"
    and "j + 1 < k \<Longrightarrow> mset (take k (bubble_step c j xs)) = mset (take k xs)"
    and "j + 1 < a \<Longrightarrow> bubble_step c j xs ! a = xs ! a"
proof -
  show "length (bubble_step c j xs) = length xs" by (simp add: bubble_step_def)
  show "mset (take k (bubble_step c j xs)) = mset (take k xs)" if "j + 1 < k"
  proof -
    have "mset ((take k xs)[j := take k xs ! (j + 1), j + 1 := take k xs ! j]) = mset (take k xs)"
      using assms that by (intro mset_swap) simp_all
    then show ?thesis using that by (simp add: bubble_step_def take_update_swap)
  qed
  show "bubble_step c j xs ! a = xs ! a" if "j + 1 < a" using that by (simp add: bubble_step_def)
qed

lemma bubble_inner_facts:
  assumes c: "comparison c" and "j + k < length xs" and "\<forall>a < j. c (xs ! a) (xs ! j) \<le> 0"
  shows "length (bubble_inner c k j xs) = length xs \<and>
    mset (take (Suc (j + k)) (bubble_inner c k j xs)) = mset (take (Suc (j + k)) xs) \<and>
    (\<forall>a < j + k. c (bubble_inner c k j xs ! a) (bubble_inner c k j xs ! (j + k)) \<le> 0) \<and>
    (\<forall>a. j + k < a \<longrightarrow> bubble_inner c k j xs ! a = xs ! a)"
  using assms(2,3)
proof (induction k arbitrary: j xs)
  case (Suc k)
  let ?ys = "bubble_step c j xs"
  have len: "j + 1 < length xs" using Suc.prems(1) by simp
  note step = bubble_step_facts [OF len]
  have "\<forall>a < j + 1. c (?ys ! a) (?ys ! (j + 1)) \<le> 0"
  proof (intro allI impI)
    fix a assume a: "a < j + 1"
    show "c (?ys ! a) (?ys ! (j + 1)) \<le> 0"
    proof (cases "c (xs ! j) (xs ! (j + 1)) > 0")
      case True
      then show ?thesis using c a len Suc.prems(2)
        by (cases "a = j") (auto simp: bubble_step_def comparison_def)
    next
      case False
      then have "c (xs ! j) (xs ! (j + 1)) \<le> 0" by simp
      moreover have "a \<noteq> j \<Longrightarrow> c (xs ! a) (xs ! j) \<le> 0" using a Suc.prems(2) by simp
      ultimately have "c (xs ! a) (xs ! (j + 1)) \<le> 0" using c unfolding comparison_def by metis
      then show ?thesis using False by (simp add: bubble_step_def)
    qed
  qed
  then have IH: "length (bubble_inner c k (j + 1) ?ys) = length ?ys \<and>
    mset (take (Suc (j + 1 + k)) (bubble_inner c k (j + 1) ?ys)) = mset (take (Suc (j + 1 + k)) ?ys) \<and>
    (\<forall>a < j + 1 + k. c (bubble_inner c k (j + 1) ?ys ! a) (bubble_inner c k (j + 1) ?ys ! (j + 1 + k)) \<le> 0) \<and>
    (\<forall>a. j + 1 + k < a \<longrightarrow> bubble_inner c k (j + 1) ?ys ! a = ?ys ! a)"
    using Suc.prems(1) step(1) by (intro Suc.IH) simp_all
  have "mset (take (Suc (j + 1 + k)) ?ys) = mset (take (Suc (j + 1 + k)) xs)" by (rule step(2)) simp
  with IH step(1,3) show ?case by simp
qed simp

lemma mset_take_suffix:
  assumes "length ys = length xs" and "mset (take k ys) = mset (take k xs)"
    and "\<forall>a. k \<le> a \<longrightarrow> ys ! a = xs ! a"
  shows "mset ys = mset xs"
proof -
  have "drop k ys = drop k xs" by (rule nth_equalityI) (use assms(1,3) in simp_all)
  then show ?thesis using assms(2) by (metis append_take_drop_id mset_append)
qed

text \<open>From position \<open>k\<close> on, every element is at least as large as all before it.\<close>

definition sorted_from :: "('a \<Rightarrow> 'a \<Rightarrow> int) \<Rightarrow> nat \<Rightarrow> 'a list \<Rightarrow> bool" where
  "sorted_from c k xs \<longleftrightarrow> (\<forall>a b. a < b \<longrightarrow> k \<le> b \<longrightarrow> b < length xs \<longrightarrow> c (xs ! a) (xs ! b) \<le> 0)"

lemma bubble_pass:
  assumes c: "comparison c" and i: "i < length xs" and so: "sorted_from c (length xs - i) xs"
  defines "ys \<equiv> bubble_inner c (length xs - i - 1) 0 xs"
  shows "length ys = length xs" and "mset ys = mset xs" and "sorted_from c (length xs - Suc i) ys"
proof -
  let ?n = "length xs - i"
  have n: "Suc (length xs - i - 1) = ?n" using i by simp
  have f: "length ys = length xs" "mset (take ?n ys) = mset (take ?n xs)"
    "\<And>a. a < ?n - 1 \<Longrightarrow> c (ys ! a) (ys ! (?n - 1)) \<le> 0" "\<And>a. ?n \<le> a \<Longrightarrow> ys ! a = xs ! a"
    using bubble_inner_facts [OF c, of 0 "length xs - i - 1" xs] i n unfolding ys_def by auto
  show "length ys = length xs" by (rule f(1))
  show "mset ys = mset xs" by (rule mset_take_suffix [OF f(1,2)]) (use f(4) in blast)
  show "sorted_from c (length xs - Suc i) ys"
    unfolding sorted_from_def
  proof (intro allI impI)
    fix a b assume ab: "a < b" "length xs - Suc i \<le> b" "b < length ys"
    show "c (ys ! a) (ys ! b) \<le> 0"
    proof (cases "b = ?n - 1")
      case True
      then show ?thesis using f(3) ab by simp
    next
      case False
      then have b: "?n \<le> b" using ab by simp
      have "\<exists>a' < b. ys ! a = xs ! a'"
      proof (cases "a < ?n")
        case True
        then have "ys ! a \<in> set (take ?n ys)" using f(1) i by (auto simp: in_set_conv_nth)
        then have "ys ! a \<in> set (take ?n xs)" using f(2) by (metis set_mset_mset)
        then show ?thesis using b by (auto simp: in_set_conv_nth) (metis order_less_le_trans)
      next
        case False
        then show ?thesis using f(4) ab by auto
      qed
      then show ?thesis using so b f(1,4) ab unfolding sorted_from_def by metis
    qed
  qed
qed

lemma bubble_outer_facts:
  assumes c: "comparison c" and "i + k < length xs" and "sorted_from c (length xs - i) xs"
  shows "mset (bubble_outer c k i xs) = mset xs \<and>
    sorted_from c (length xs - (i + k)) (bubble_outer c k i xs) \<and> length (bubble_outer c k i xs) = length xs"
  using assms(2,3)
proof (induction k arbitrary: i xs)
  case (Suc k)
  let ?ys = "bubble_inner c (length xs - i - 1) 0 xs"
  have i: "i < length xs" using Suc.prems(1) by simp
  note pass = bubble_pass [OF c i Suc.prems(2)]
  have "mset (bubble_outer c k (i + 1) ?ys) = mset ?ys \<and>
      sorted_from c (length ?ys - (i + 1 + k)) (bubble_outer c k (i + 1) ?ys) \<and>
      length (bubble_outer c k (i + 1) ?ys) = length ?ys"
    by (rule Suc.IH) (use pass Suc.prems(1) in simp_all)
  then show ?case using pass by simp
qed simp

text \<open>
  Stability: a swap exchanges neighbours of which the first is larger, so the elements that compare equal to
  any \<open>x\<close> keep their order.
\<close>

definition like :: "('a \<Rightarrow> 'a \<Rightarrow> int) \<Rightarrow> 'a \<Rightarrow> 'a \<Rightarrow> bool" where
  "like c x y \<longleftrightarrow> c x y \<le> 0 \<and> c y x \<le> 0"

lemma bubble_step_stable:
  assumes c: "comparison c" and j: "j + 1 < length xs"
  shows "filter (like c x) (bubble_step c j xs) = filter (like c x) xs"
proof (cases "c (xs ! j) (xs ! (j + 1)) > 0")
  case True
  then have "\<not> (like c x (xs ! j) \<and> like c x (xs ! (j + 1)))" using c unfolding comparison_def like_def by (meson not_less)
  moreover have "xs = take j xs @ xs ! j # xs ! (j + 1) # drop (j + 2) xs"
    using j by (simp add: Cons_nth_drop_Suc)
  then have "filter (like c x) xs = filter (like c x) (take j xs @ xs ! j # xs ! (j + 1) # drop (j + 2) xs)" by (rule arg_cong)
  moreover have "xs[j := xs ! (j + 1), j + 1 := xs ! j] = take j xs @ xs ! (j + 1) # xs ! j # drop (j + 2) xs"
    using j by (intro nth_equalityI) (auto simp: nth_list_update nth_append nth_Cons' less_diff_conv intro!: arg_cong [where f = "(!) xs"])
  ultimately show ?thesis using True unfolding bubble_step_def by auto
qed (simp add: bubble_step_def)

lemma bubble_inner_stable:
  "comparison c \<Longrightarrow> j + k < length xs \<Longrightarrow> filter (like c x) (bubble_inner c k j xs) = filter (like c x) xs"
  by (induction k arbitrary: j xs) (simp_all add: bubble_step_stable bubble_step_facts)

lemma bubble_inner_length [simp]: "length (bubble_inner c k j xs) = length xs"
  by (induction k arbitrary: j xs) (simp_all add: bubble_step_def)

lemma bubble_outer_stable:
  "comparison c \<Longrightarrow> i + k < length xs \<Longrightarrow> filter (like c x) (bubble_outer c k i xs) = filter (like c x) xs"
  by (induction k arbitrary: i xs) (simp_all add: bubble_inner_stable)

section \<open>The elements in memory\<close>

definition block :: "bytes \<Rightarrow> addr \<Rightarrow> nat \<Rightarrow> u8 list" where
  "block m p n = map (\<lambda>i. m (p + of_nat i)) [0..<n]"

definition elems :: "bytes \<Rightarrow> addr \<Rightarrow> u64 \<Rightarrow> nat \<Rightarrow> u8 list list" where
  "elems m b sz n = map (\<lambda>i. block m (b + of_nat i * sz) (unat sz)) [0..<n]"

lemma length_elems [simp]: "length (elems m b sz n) = n"
  by (simp add: elems_def)

lemma swap_loop_eq:
  assumes "n < 2 ^ 64" and "\<And>a. in_block (p1 + k) n a \<Longrightarrow> \<not> in_block (p2 + k) n a"
  shows "swap_loop n k p1 p2 m = (\<lambda>a. if in_block (p1 + k) n a then m (p2 + (a - p1))
    else if in_block (p2 + k) n a then m (p1 + (a - p2)) else m a)"
  using assms
proof (induction n arbitrary: k m)
  case (Suc n)
  let ?m = "m(p1 + k := m (p2 + k), p2 + k := m (p1 + k))"
  have sub: "in_block (p + k) (Suc n) a \<longleftrightarrow> a = p + k \<or> in_block (p + (k + 1)) n a" for p a
    using Suc.prems(1) by (simp add: in_block_Suc add.assoc)
  have out: "\<not> in_block (p + (k + 1)) n (p + k)" for p
    using Suc.prems(1) by (simp add: in_block_def unsigned_minus_1_eq_mask mask_eq_exp_minus_1)
  have ne: "p1 + k \<noteq> p2 + k" using Suc.prems(2) [of "p1 + k"] sub by metis
  have move: "in_block (q + (k + 1)) n (q + (a - p))" if "in_block (p + (k + 1)) n a" for p q a
    using that by (simp add: in_block_def diff_diff_eq)
  have IH: "swap_loop n (k + 1) p1 p2 ?m = (\<lambda>a. if in_block (p1 + (k + 1)) n a then ?m (p2 + (a - p1))
      else if in_block (p2 + (k + 1)) n a then ?m (p1 + (a - p2)) else ?m a)"
    by (rule Suc.IH) (use Suc.prems sub in auto)
  have *: "?m (q + (a - p)) = m (q + (a - p))"
    if "in_block (p + (k + 1)) n a" "p = p1 \<and> q = p2 \<or> p = p2 \<and> q = p1" for p q a
  proof -
    have "in_block (q + (k + 1)) n (q + (a - p))" using move that(1) .
    then have "q + (a - p) \<noteq> p1 + k" "q + (a - p) \<noteq> p2 + k" using out sub that(2) Suc.prems(2) by metis+
    then show ?thesis by simp
  qed
  have "swap_loop (Suc n) k p1 p2 m = swap_loop n (k + 1) p1 p2 ?m" by (simp add: Let_def)
  also have "\<dots> = (\<lambda>a. if in_block (p1 + k) (Suc n) a then m (p2 + (a - p1))
    else if in_block (p2 + k) (Suc n) a then m (p1 + (a - p2)) else m a)"
  proof
    fix a
    show "swap_loop n (k + 1) p1 p2 ?m a = (if in_block (p1 + k) (Suc n) a then m (p2 + (a - p1))
      else if in_block (p2 + k) (Suc n) a then m (p1 + (a - p2)) else m a)"
    proof -
      have x: "\<not> in_block (p2 + (k + 1)) n (p1 + k)" "\<not> in_block (p1 + (k + 1)) n (p2 + k)"
        using Suc.prems(2) sub by metis+
      consider "a = p1 + k" | "a = p2 + k" | "a \<noteq> p1 + k" "a \<noteq> p2 + k" "in_block (p1 + (k + 1)) n a"
        | "a \<noteq> p1 + k" "a \<noteq> p2 + k" "\<not> in_block (p1 + (k + 1)) n a" "in_block (p2 + (k + 1)) n a"
        | "a \<noteq> p1 + k" "a \<noteq> p2 + k" "\<not> in_block (p1 + (k + 1)) n a" "\<not> in_block (p2 + (k + 1)) n a"
        by blast
      then show ?thesis
      proof cases
        case 1
        then show ?thesis unfolding IH sub using ne out x by simp
      next
        case 2
        then show ?thesis unfolding IH sub using ne out x by simp
      next
        case 3
        have "?m (p2 + (a - p1)) = m (p2 + (a - p1))" using * [OF 3(3), of p2] by blast
        then show ?thesis unfolding IH sub by (simp only: 3 simp_thms if_True if_False)
      next
        case 4
        have "?m (p1 + (a - p2)) = m (p1 + (a - p2))" using * [OF 4(4), of p1] by blast
        then show ?thesis unfolding IH sub by (simp only: 4 simp_thms if_True if_False)
      next
        case 5
        then show ?thesis unfolding IH sub by simp
      qed
    qed
  qed
  finally show ?case .
qed simp

text \<open>An array of \<open>n\<close> elements that does not wrap around the address space.\<close>

definition array_ok :: "addr \<Rightarrow> u64 \<Rightarrow> nat \<Rightarrow> bool" where
  "array_ok b sz n \<longleftrightarrow> n < 2 ^ 64 \<and> unat b + n * unat sz \<le> 2 ^ 64"

lemma elem_unat:
  assumes "array_ok b sz n" and "i < n" and "t < unat sz"
  shows "unat (b + of_nat i * sz + of_nat t) = unat b + i * unat sz + t"
proof -
  have "i * unat sz + t < Suc i * unat sz" using assms(3) by simp
  also have "\<dots> \<le> n * unat sz" using assms(2) by (intro mult_le_mono1) simp
  finally have lt: "unat b + (i * unat sz + t) < 2 ^ 64" using assms(1) by (simp add: array_ok_def)
  have i: "unat (of_nat i :: u64) = i" using assms by (simp add: array_ok_def unat_of_nat_small)
  have "unat (of_nat i * sz) = i * unat sz" using lt i by (subst unat_times_no_wrap) simp_all
  then have "unat (b + of_nat i * sz) = unat b + i * unat sz" using lt by (subst unat_plus_no_wrap) simp_all
  then show ?thesis using lt assms(3) unat_lt_2p [of sz]
    by (subst unat_plus_no_wrap) (simp_all add: unat_of_nat_small)
qed

lemma row_unique:
  assumes "t < (S :: nat)"
  shows "i * S \<le> i' * S + t \<and> i' * S + t < Suc i * S \<longleftrightarrow> i = i'"
proof
  assume *: "i * S \<le> i' * S + t \<and> i' * S + t < Suc i * S"
  show "i = i'"
  proof (rule ccontr)
    assume "i \<noteq> i'"
    then have "Suc i \<le> i' \<or> Suc i' \<le> i" by auto
    then have "Suc i * S \<le> i' * S \<or> Suc i' * S \<le> i * S" using mult_le_mono1 by blast
    with * assms show False by auto
  qed
qed (use assms in simp)

lemma elem_block:
  assumes "array_ok b sz n" and "i < n" and "i' < n" and "t < unat sz"
  shows "in_block (b + of_nat i * sz) (unat sz) (b + of_nat i' * sz + of_nat t) \<longleftrightarrow> i = i'"
proof -
  have p: "unat (b + of_nat i * sz) = unat b + i * unat sz"
    using elem_unat [OF assms(1,2), of 0] assms(4) by simp
  have "Suc i * unat sz \<le> n * unat sz" using assms(2) by (intro mult_le_mono1) simp
  then have "unat (b + of_nat i * sz) + unat sz \<le> 2 ^ 64" using assms(1) p by (simp add: array_ok_def)
  then have "in_block (b + of_nat i * sz) (unat sz) (b + of_nat i' * sz + of_nat t) \<longleftrightarrow>
      i * unat sz \<le> i' * unat sz + t \<and> i' * unat sz + t < Suc i * unat sz"
    by (auto simp: in_block_iff p elem_unat [OF assms(1,3,4)])
  also have "\<dots> \<longleftrightarrow> i = i'" by (rule row_unique [OF assms(4)])
  finally show ?thesis .
qed

lemma elems_nth: "i < n \<Longrightarrow> elems m b sz n ! i = block m (b + of_nat i * sz) (unat sz)"
  by (simp add: elems_def)

lemma block_eqI: "(\<And>t. t < n \<Longrightarrow> m (p + of_nat t) = m' (q + of_nat t)) \<Longrightarrow> block m p n = block m' q n"
  by (simp add: block_def)

text \<open>The bytes outside the array.\<close>

definition same_outside :: "addr \<Rightarrow> u64 \<Rightarrow> nat \<Rightarrow> bytes \<Rightarrow> bytes \<Rightarrow> bool" where
  "same_outside b sz n m m' \<longleftrightarrow>
     (\<forall>a. (\<forall>i < n. \<not> in_block (b + of_nat i * sz) (unat sz) a) \<longrightarrow> m' a = m a)"

lemma swap_elems:
  fixes m :: bytes
  assumes ok: "array_ok b sz n" and j: "Suc j < n"
  defines "p1 \<equiv> b + of_nat j * sz" and "p2 \<equiv> b + of_nat (Suc j) * sz"
  defines "m' \<equiv> swap_loop (unat sz) 0 p1 p2 m"
  shows "elems m' b sz n = (elems m b sz n)[j := elems m b sz n ! Suc j, Suc j := elems m b sz n ! j]"
    and "same_outside b sz n m m'"
proof -
  have lt: "unat sz < 2 ^ 64" using unat_lt_2p [of sz] by simp
  have blk: "in_block (b + of_nat i * sz) (unat sz) (b + of_nat i' * sz + of_nat t) \<longleftrightarrow> i = i'"
    if "i < n" "i' < n" "t < unat sz" for i i' t using elem_block [OF ok that] .
  have dis: "\<not> in_block p2 (unat sz) a" if "in_block p1 (unat sz) a" for a
  proof -
    define t where "t = unat (a - p1)"
    have "a = p1 + of_nat t" "t < unat sz" using that by (simp_all add: t_def in_block_def)
    then show ?thesis using blk [of "Suc j" j t] j by (simp add: p1_def p2_def)
  qed
  have m': "m' = (\<lambda>a. if in_block p1 (unat sz) a then m (p2 + (a - p1))
      else if in_block p2 (unat sz) a then m (p1 + (a - p2)) else m a)"
    unfolding m'_def using swap_loop_eq [OF lt, of p1 0 p2 m, unfolded add_0_right] dis by blast
  have el: "m' (b + of_nat i * sz + of_nat t) =
      (if i = j then m (p2 + of_nat t) else if i = Suc j then m (p1 + of_nat t) else m (b + of_nat i * sz + of_nat t))"
    if "i < n" "t < unat sz" for i t
    using blk [of j i t] blk [of "Suc j" i t] that j unfolding m' p1_def p2_def by (auto simp: add.commute)
  show "elems m' b sz n = (elems m b sz n)[j := elems m b sz n ! Suc j, Suc j := elems m b sz n ! j]"
  proof (rule nth_equalityI)
    fix i assume "i < length (elems m' b sz n)"
    then have i: "i < n" by simp
    have "block m' (b + of_nat i * sz) (unat sz) =
        (if i = j then block m p2 (unat sz) else if i = Suc j then block m p1 (unat sz) else block m (b + of_nat i * sz) (unat sz))"
      using el [OF i] by (auto intro!: block_eqI)
    then show "elems m' b sz n ! i = (elems m b sz n)[j := elems m b sz n ! Suc j, Suc j := elems m b sz n ! j] ! i"
      using i j by (auto simp: elems_nth nth_list_update p1_def p2_def)
  qed simp
  show "same_outside b sz n m m'"
    unfolding same_outside_def m' p1_def p2_def using j by auto
qed

lemma same_outside_trans:
  "same_outside b sz n m m' \<Longrightarrow> same_outside b sz n m' m'' \<Longrightarrow> same_outside b sz n m m''"
  unfolding same_outside_def by metis

section \<open>Sorting and searching\<close>

text \<open>A comparison function of the caller that looks at nothing but the two elements.\<close>

definition compares_elems :: "compar \<Rightarrow> u64 \<Rightarrow> (u8 list \<Rightarrow> u8 list \<Rightarrow> int) \<Rightarrow> bool" where
  "compares_elems cmp sz c \<longleftrightarrow> (\<forall>p q m. cmp p q m = c (block m p (unat sz)) (block m q (unat sz)))"

lemma qsort_step_eq:
  assumes cmp: "compares_elems cmp sz c" and ok: "array_ok b sz n" and j: "Suc j < n"
  shows "elems (qsort_step cmp b sz (of_nat j) m) b sz n = bubble_step c j (elems m b sz n)"
    and "same_outside b sz n m (qsort_step cmp b sz (of_nat j) m)"
proof -
  have j1: "(of_nat j :: u64) + 1 = of_nat (Suc j)" by (simp add: add.commute)
  have c: "cmp (b + of_nat j * sz) (b + of_nat (Suc j) * sz) m = c (elems m b sz n ! j) (elems m b sz n ! Suc j)"
    using cmp j by (simp add: compares_elems_def elems_nth)
  note sw = swap_elems [OF ok j, of m]
  show "elems (qsort_step cmp b sz (of_nat j) m) b sz n = bubble_step c j (elems m b sz n)"
    unfolding qsort_step_def Let_def j1 c bubble_step_def using sw(1) by simp
  show "same_outside b sz n m (qsort_step cmp b sz (of_nat j) m)"
    unfolding qsort_step_def Let_def j1 c using sw(2) by (simp add: same_outside_def)
qed

lemma qsort_inner_eq:
  assumes cmp: "compares_elems cmp sz c" and ok: "array_ok b sz n" and "j + k < n"
  shows "elems (qsort_inner cmp b sz k (of_nat j) m) b sz n = bubble_inner c k j (elems m b sz n) \<and>
    same_outside b sz n m (qsort_inner cmp b sz k (of_nat j) m)"
  using assms(3)
proof (induction k arbitrary: j m)
  case 0
  then show ?case by (simp add: same_outside_def)
next
  case (Suc k)
  have "Suc j < n" using Suc.prems by simp
  note step = qsort_step_eq [OF cmp ok this, of m]
  have "(of_nat j :: u64) + 1 = of_nat (j + 1)" by simp
  then show ?case
    using Suc.IH [of "j + 1" "qsort_step cmp b sz (of_nat j) m"] Suc.prems step
    by (auto simp: add.commute intro: same_outside_trans)
qed

lemma qsort_outer_eq:
  assumes cmp: "compares_elems cmp sz c" and ok: "array_ok b sz (unat nmemb)" and "i + k < unat nmemb"
  shows "elems (qsort_outer cmp b nmemb sz k (of_nat i) m) b sz (unat nmemb) =
      bubble_outer c k i (elems m b sz (unat nmemb)) \<and>
    same_outside b sz (unat nmemb) m (qsort_outer cmp b nmemb sz k (of_nat i) m)"
  using assms(3)
proof (induction k arbitrary: i m)
  case 0
  then show ?case by (simp add: same_outside_def)
next
  case (Suc k)
  have "unat (of_nat i :: u64) = i" using Suc.prems unat_lt_2p [of nmemb] by (simp add: unat_of_nat_small)
  then have n: "unat (nmemb - of_nat i - 1) = unat nmemb - i - 1"
    using Suc.prems by (simp add: unat_minus_no_wrap)
  have "(of_nat i :: u64) + 1 = of_nat (i + 1)" by simp
  then show ?case
    using Suc.IH [of "i + 1" "qsort_inner cmp b sz (unat (nmemb - of_nat i - 1)) 0 m"] Suc.prems n
      qsort_inner_eq [OF cmp ok, of 0 "unat nmemb - i - 1" m]
    by (auto simp: add.commute intro: same_outside_trans)
qed

text \<open>
  C16: \<^verbatim>\<open>qsort\<close> sorts: for a comparison function that is a total preorder on the contents of the
  elements, the array ends up as a permutation of its elements in ascending order, the elements that compare
  equal to any given one keep their order (the sort is stable), and no byte outside the array changes.
\<close>

theorem qsort_correct:
  fixes m :: bytes
  assumes c: "comparison c" and cmp: "compares_elems cmp sz c" and ok: "array_ok base sz (unat nmemb)"
  defines "m' \<equiv> qsort base nmemb sz cmp m"
  shows "mset (elems m' base sz (unat nmemb)) = mset (elems m base sz (unat nmemb)) \<and>
    sorted_wrt (\<lambda>x y. c x y \<le> 0) (elems m' base sz (unat nmemb)) \<and>
    (\<forall>x. filter (like c x) (elems m' base sz (unat nmemb)) = filter (like c x) (elems m base sz (unat nmemb))) \<and>
    same_outside base sz (unat nmemb) m m'"
proof (cases "nmemb \<le> 1")
  case True
  then have "unat nmemb \<le> 1" by (simp add: word_le_nat_alt)
  then have "sorted_wrt (\<lambda>x y. c x y \<le> 0) (elems m base sz (unat nmemb))"
    by (simp add: sorted_wrt_iff_nth_less)
  then show ?thesis using True by (simp add: m'_def qsort_def same_outside_def)
next
  case False
  then have n: "1 < unat nmemb" by (simp add: word_le_nat_alt)
  then have k: "unat (nmemb - 1) = unat nmemb - 1" by (simp add: unat_minus_no_wrap)
  let ?xs = "elems m base sz (unat nmemb)"
  have el: "elems m' base sz (unat nmemb) = bubble_outer c (unat nmemb - 1) 0 ?xs"
    and out: "same_outside base sz (unat nmemb) m m'"
    using qsort_outer_eq [OF cmp ok, of 0 "unat nmemb - 1" m] n False k by (simp_all add: m'_def qsort_def)
  have "sorted_from c (length ?xs - 0) ?xs" by (simp add: sorted_from_def)
  from bubble_outer_facts [OF c _ this, of "unat nmemb - 1"] n
  have "mset (bubble_outer c (unat nmemb - 1) 0 ?xs) = mset ?xs"
    "sorted_from c 1 (bubble_outer c (unat nmemb - 1) 0 ?xs)" by simp_all
  then show ?thesis using out bubble_outer_stable [OF c, of 0 "unat nmemb - 1" ?xs] n unfolding el
    by (auto simp: sorted_wrt_iff_nth_less sorted_from_def)
qed

lemma bsearch_loop_eq:
  assumes mono: "\<And>i j. i \<le> j \<Longrightarrow> j < n \<Longrightarrow> cmp (b + of_nat i * sz) < 0 \<Longrightarrow> cmp (b + of_nat j * sz) < (0 :: int)"
    "\<And>i j. i \<le> j \<Longrightarrow> j < n \<Longrightarrow> 0 < cmp (b + of_nat j * sz) \<Longrightarrow> 0 < cmp (b + of_nat i * sz)"
  shows "unat right \<le> n \<Longrightarrow> (\<And>i. i < unat left \<Longrightarrow> 0 < cmp (b + of_nat i * sz)) \<Longrightarrow>
    (\<And>i. unat right \<le> i \<Longrightarrow> i < n \<Longrightarrow> cmp (b + of_nat i * sz) < 0) \<Longrightarrow>
    (\<exists>i < n. bsearch_loop cmp b sz left right = b + of_nat i * sz \<and> cmp (b + of_nat i * sz) = 0) \<or>
    bsearch_loop cmp b sz left right = NULL \<and> (\<forall>i < n. cmp (b + of_nat i * sz) \<noteq> 0)"
proof (induction "unat right - unat left" arbitrary: left right rule: less_induct)
  case less
  show ?case
  proof (cases "left < right")
    case False
    then have "cmp (b + of_nat i * sz) \<noteq> 0" if "i < n" for i
      using less.prems(2) [of i] less.prems(3) [of i] that by (fastforce simp: word_less_nat_alt)
    then show ?thesis using False by (simp add: bsearch_loop.simps [of cmp b sz left])
  next
    case True
    define mid where "mid = left + (right - left) div 2"
    note md = bsearch_mid [OF True, folded mid_def]
    define p where "p = b + mid * sz"
    have p: "p = b + of_nat (unat mid) * sz" by (simp add: p_def)
    have eq: "bsearch_loop cmp b sz left right = (if cmp p = 0 then p
        else if cmp p < 0 then bsearch_loop cmp b sz left mid else bsearch_loop cmp b sz (mid + 1) right)"
      using True by (subst bsearch_loop.simps) (simp add: Let_def mid_def p_def)
    consider "cmp p = 0" | "cmp p < 0" | "0 < cmp p" by linarith
    then show ?thesis
    proof cases
      case 1
      then have "bsearch_loop cmp b sz left right = b + of_nat (unat mid) * sz \<and> cmp (b + of_nat (unat mid) * sz) = 0"
        by (simp add: eq p)
      then show ?thesis using md(3) less.prems(1) by (meson less_le_trans)
    next
      case 2
      have "unat mid - unat left < unat right - unat left" using md(2,3) by simp
      from less.hyps [OF this] show ?thesis
        using 2 p md(3) less.prems(1,2) mono(1) [of "unat mid"] by (simp add: eq)
    next
      case 3
      have "unat right - unat (mid + 1) < unat right - unat left" using md(2,3,4) by linarith
      moreover have "0 < cmp (b + of_nat i * sz)" if "i < unat (mid + 1)" for i
        using mono(2) [of i "unat mid"] 3 p md(3,4) less.prems(1) that by simp
      ultimately show ?thesis using less.hyps [of right "mid + 1"] 3 less.prems(1,3) by (simp add: eq)
    qed
  qed
qed

text \<open>
  \<^verbatim>\<open>bsearch\<close> ends, and finds an element equal to the key or, when there is none,
  returns null, in an array on which the comparison with the key changes sign at most once:
  elements larger than the key are followed by larger ones and smaller ones are preceded
  by smaller ones. The midpoint does not overflow for any number of elements.
\<close>

theorem bsearch_correct:
  assumes "\<And>i j. i \<le> j \<Longrightarrow> j < unat nmemb \<Longrightarrow> cmp key (b + of_nat i * sz) m < 0 \<Longrightarrow> cmp key (b + of_nat j * sz) m < 0"
    and "\<And>i j. i \<le> j \<Longrightarrow> j < unat nmemb \<Longrightarrow> 0 < cmp key (b + of_nat j * sz) m \<Longrightarrow> 0 < cmp key (b + of_nat i * sz) m"
  shows "(\<exists>i < unat nmemb. bsearch key b nmemb sz cmp m = b + of_nat i * sz \<and> cmp key (b + of_nat i * sz) m = 0) \<or>
    bsearch key b nmemb sz cmp m = NULL \<and> (\<forall>i < unat nmemb. cmp key (b + of_nat i * sz) m \<noteq> 0)"
  unfolding bsearch_def
  by (rule bsearch_loop_eq [where n = "unat nmemb" and cmp = "\<lambda>p. cmp key p m"]) (use assms in auto)

text \<open>An array of four bytes, compared by their value.\<close>

definition byte_compar :: compar where
  "byte_compar p q m = byte_diff (m p) (m q)"

definition demo_array :: bytes where
  "demo_array = put_bytes 0x1000 [3, 1, 2, 1] (\<lambda>_. 0)"

theorem qsort_correct_witness:
  "sorted_wrt (\<lambda>x y. byte_diff (hd x) (hd y) \<le> 0) (elems (qsort 0x1000 4 1 byte_compar demo_array) 0x1000 1 4)"
proof -
  have "comparison (\<lambda>x y. byte_diff (hd x) (hd y))" by (auto simp: comparison_def byte_diff_def)
  moreover have "compares_elems byte_compar 1 (\<lambda>x y. byte_diff (hd x) (hd y))"
    by (simp add: compares_elems_def byte_compar_def block_def)
  moreover have "array_ok 0x1000 1 (unat (4 :: u64))" by (simp add: array_ok_def)
  ultimately show ?thesis using qsort_correct [of _ byte_compar 1 "0x1000" 4 demo_array] by simp
qed

end
