(* ===== verification/Environ.thy ===== *)
theory Environ
  imports Prelude
begin

text \<open>
  The environment of \<^verbatim>\<open>userland/libc/src/stdlib/stdlib.c\<close>: two static arrays of strings and a
  counter. A slot holds at most \<open>MAX_ENV_SIZE - 1\<close> bytes and its terminator, so \<^verbatim>\<open>strncpy\<close> into a slot keeps
  that many bytes. Strings that may be null are options; \<^verbatim>\<open>strcmp(a, b) == 0\<close> is equality of
  strings.
\<close>

definition MAX_ENV_VARS :: nat where "MAX_ENV_VARS = 128"
definition MAX_ENV_SIZE :: nat where "MAX_ENV_SIZE = 4096"

record libc_env =
  env_names :: "nat \<Rightarrow> cstr"
  env_values :: "nat \<Rightarrow> cstr"
  g_env_count :: nat

definition EQ_SIGN :: u8 where "EQ_SIGN = 61"

text \<open>\<open>strncpy(slot, s, MAX_ENV_SIZE - 1); slot[MAX_ENV_SIZE - 1] = 0;\<close>\<close>

definition slot :: "cstr \<Rightarrow> cstr" where
  "slot s = take (MAX_ENV_SIZE - 1) s"

text \<open>The search loop: the first index from \<open>i\<close> on with the name, with \<open>k\<close> entries left.\<close>

fun env_find :: "libc_env \<Rightarrow> cstr \<Rightarrow> nat \<Rightarrow> nat \<Rightarrow> nat option" where
  "env_find e name i 0 = None"
| "env_find e name i (Suc k) = (if env_names e i = name then Some i else env_find e name (i + 1) k)"

definition getenv :: "cstr option \<Rightarrow> libc_env \<Rightarrow> cstr option" where
  "getenv name e =
     (case name of None \<Rightarrow> None
      | Some n \<Rightarrow> map_option (env_values e) (env_find e n 0 (g_env_count e)))"

definition setenv :: "cstr option \<Rightarrow> cstr option \<Rightarrow> bool \<Rightarrow> libc_env \<Rightarrow> int \<times> libc_env" where
  "setenv name value overwrite e =
     (case (name, value) of
        (Some n, Some v) \<Rightarrow>
          if n = [] \<or> EQ_SIGN \<in> set n then (- 1, e)
          else (case env_find e n 0 (g_env_count e) of
              Some i \<Rightarrow> (0, if overwrite then e\<lparr>env_values := (env_values e)(i := slot v)\<rparr> else e)
            | None \<Rightarrow>
                if g_env_count e \<ge> MAX_ENV_VARS then (- 1, e)
                else (0, e\<lparr>env_names := (env_names e)(g_env_count e := slot n),
                           env_values := (env_values e)(g_env_count e := slot v),
                           g_env_count := g_env_count e + 1\<rparr>))
      | _ \<Rightarrow> (- 1, e))"

definition unsetenv :: "cstr option \<Rightarrow> libc_env \<Rightarrow> int \<times> libc_env" where
  "unsetenv name e =
     (case name of None \<Rightarrow> (- 1, e)
      | Some n \<Rightarrow>
          if n = [] \<or> EQ_SIGN \<in> set n then (- 1, e)
          else (case env_find e n 0 (g_env_count e) of
              None \<Rightarrow> (0, e)
            | Some i \<Rightarrow>
                let l = g_env_count e - 1;
                    e1 = (if i < l
                          then e\<lparr>env_names := (env_names e)(i := env_names e l),
                                 env_values := (env_values e)(i := env_values e l)\<rparr>
                          else e)
                in (0, e1\<lparr>g_env_count := l\<rparr>)))"

definition clearenv :: "libc_env \<Rightarrow> int \<times> libc_env" where
  "clearenv e = (0, e\<lparr>g_env_count := 0\<rparr>)"

definition putenv :: "cstr option \<Rightarrow> libc_env \<Rightarrow> int \<times> libc_env" where
  "putenv str e =
     (case str of None \<Rightarrow> (- 1, e)
      | Some s \<Rightarrow>
          if EQ_SIGN \<notin> set s then unsetenv (Some s) e
          else let name = takeWhile (\<lambda>c. c \<noteq> EQ_SIGN) s;
                   nlen = length name
               in if nlen = 0 \<or> nlen \<ge> MAX_ENV_SIZE then (- 1, e)
                  else setenv (Some name) (Some (drop (nlen + 1) s)) True e)"

text \<open>The cursor, and the name and value it returns.\<close>

definition env_iter :: "int \<Rightarrow> libc_env \<Rightarrow> (int \<times> cstr \<times> cstr) option" where
  "env_iter cookie e =
     (if cookie < 0 \<or> cookie \<ge> int (g_env_count e) then None
      else Some (cookie + 1, env_names e (nat cookie), env_values e (nat cookie)))"

definition env_count :: "libc_env \<Rightarrow> nat" where
  "env_count e = g_env_count e"

text \<open>The strings of \<^verbatim>\<open>envp\<close> up to its null pointer; \<open>None\<close> for a null \<^verbatim>\<open>envp\<close>.\<close>

fun init_loop :: "cstr list \<Rightarrow> libc_env \<Rightarrow> libc_env" where
  "init_loop [] e = e"
| "init_loop (s # ss) e =
     (if g_env_count e < MAX_ENV_VARS
      then if EQ_SIGN \<notin> set s then init_loop ss e
           else let name = takeWhile (\<lambda>c. c \<noteq> EQ_SIGN) s;
                    nlen = length name
                in if nlen = 0 \<or> nlen \<ge> MAX_ENV_SIZE then init_loop ss e
                   else init_loop ss
                     (e\<lparr>env_names := (env_names e)(g_env_count e := name),
                        env_values := (env_values e)(g_env_count e := slot (drop (nlen + 1) s)),
                        g_env_count := g_env_count e + 1\<rparr>)
      else e)"

definition libc_init_environ :: "cstr list option \<Rightarrow> libc_env \<Rightarrow> libc_env" where
  "libc_init_environ envp e =
     (let e1 = e\<lparr>g_env_count := 0\<rparr> in case envp of None \<Rightarrow> e1 | Some ss \<Rightarrow> init_loop ss e1)"

section \<open>The environment as a map\<close>

definition env_pairs :: "libc_env \<Rightarrow> (cstr \<times> cstr) list" where
  "env_pairs e = map (\<lambda>i. (env_names e i, env_values e i)) [0..<g_env_count e]"

definition env_map :: "libc_env \<Rightarrow> cstr \<rightharpoonup> cstr" where
  "env_map e = map_of (env_pairs e)"

text \<open>No name twice, no more entries than slots, and names that fit.\<close>

definition env_ok :: "libc_env \<Rightarrow> bool" where
  "env_ok e \<longleftrightarrow> g_env_count e \<le> MAX_ENV_VARS \<and> distinct (map fst (env_pairs e)) \<and>
     (\<forall>n \<in> fst ` set (env_pairs e). n \<noteq> [] \<and> EQ_SIGN \<notin> set n \<and> length n < MAX_ENV_SIZE)"

lemma length_env_pairs [simp]: "length (env_pairs e) = g_env_count e"
  by (simp add: env_pairs_def)

lemma env_pairs_nth [simp]: "i < g_env_count e \<Longrightarrow> env_pairs e ! i = (env_names e i, env_values e i)"
  by (simp add: env_pairs_def)

lemma env_find_None:
  "env_find e n i k = None \<longleftrightarrow> (\<forall>j. i \<le> j \<and> j < i + k \<longrightarrow> env_names e j \<noteq> n)"
proof (induction k arbitrary: i)
  case (Suc k)
  have "(\<forall>j. i \<le> j \<and> j < i + Suc k \<longrightarrow> env_names e j \<noteq> n) \<longleftrightarrow>
      env_names e i \<noteq> n \<and> (\<forall>j. i + 1 \<le> j \<and> j < i + 1 + k \<longrightarrow> env_names e j \<noteq> n)"
    (is "?l \<longleftrightarrow> ?r")
  proof
    assume r: ?r
    show ?l
    proof (intro allI impI)
      fix j assume "i \<le> j \<and> j < i + Suc k"
      then show "env_names e j \<noteq> n" using r by (cases "j = i") auto
    qed
  qed auto
  then show ?case using Suc.IH [of "i + 1"] by simp
qed auto

lemma env_find_Some:
  "env_find e n i k = Some j \<Longrightarrow> i \<le> j \<and> j < i + k \<and> env_names e j = n"
  by (induction k arbitrary: i) (force split: if_splits)+

lemma env_ok_iff:
  "env_ok e \<longleftrightarrow> g_env_count e \<le> MAX_ENV_VARS \<and>
     (\<forall>i < g_env_count e. \<forall>j < g_env_count e. env_names e i = env_names e j \<longrightarrow> i = j) \<and>
     (\<forall>i < g_env_count e. env_names e i \<noteq> [] \<and> EQ_SIGN \<notin> set (env_names e i) \<and> length (env_names e i) < MAX_ENV_SIZE)"
  by (auto simp: env_ok_def env_pairs_def distinct_conv_nth)

lemma env_map_entry: "env_ok e \<Longrightarrow> i < g_env_count e \<Longrightarrow> env_map e (env_names e i) = Some (env_values e i)"
  by (auto simp: env_map_def env_ok_def env_pairs_def intro!: map_of_is_SomeI)

lemma env_map_None: "(\<And>i. i < g_env_count e \<Longrightarrow> env_names e i \<noteq> k) \<Longrightarrow> env_map e k = None"
  by (fastforce simp: env_map_def env_pairs_def map_of_eq_None_iff)

lemma env_mapI:
  assumes "env_ok e" and "\<And>i. i < g_env_count e \<Longrightarrow> M (env_names e i) = Some (env_values e i)"
    and "\<And>k. (\<And>i. i < g_env_count e \<Longrightarrow> env_names e i \<noteq> k) \<Longrightarrow> M k = None"
  shows "env_map e = M"
proof
  fix k
  show "env_map e k = M k"
  proof (cases "\<exists>i < g_env_count e. env_names e i = k")
    case True
    then show ?thesis using env_map_entry [OF assms(1)] assms(2) by force
  next
    case False
    then show ?thesis using env_map_None [of e k] assms(3) [of k] by auto
  qed
qed

lemma env_find_map:
  assumes "env_ok e"
  shows "env_find e n 0 (g_env_count e) = Some i \<Longrightarrow> i < g_env_count e \<and> env_names e i = n \<and> env_map e n = Some (env_values e i)"
    and "env_find e n 0 (g_env_count e) = None \<Longrightarrow> env_map e n = None \<and> (\<forall>i < g_env_count e. env_names e i \<noteq> n)"
proof -
  show "i < g_env_count e \<and> env_names e i = n \<and> env_map e n = Some (env_values e i)"
    if "env_find e n 0 (g_env_count e) = Some i"
    using env_find_Some [OF that] env_map_entry [OF assms, of i] by auto
  show "env_map e n = None \<and> (\<forall>i < g_env_count e. env_names e i \<noteq> n)"
    if "env_find e n 0 (g_env_count e) = None"
    using that env_map_None [of e n] by (simp add: env_find_None)
qed

definition valid_name :: "cstr \<Rightarrow> bool" where
  "valid_name n \<longleftrightarrow> n \<noteq> [] \<and> EQ_SIGN \<notin> set n \<and> length n < MAX_ENV_SIZE"

lemma slot_short: "length n < MAX_ENV_SIZE \<Longrightarrow> slot n = n"
  by (simp add: slot_def)

lemma setenv_new:
  fixes v :: cstr
  assumes ok: "env_ok e" and n: "valid_name n" and new: "\<forall>i < g_env_count e. env_names e i \<noteq> n"
    and room: "g_env_count e < MAX_ENV_VARS"
  defines "e' \<equiv> e\<lparr>env_names := (env_names e)(g_env_count e := n), env_values := (env_values e)(g_env_count e := v),
    g_env_count := g_env_count e + 1\<rparr>"
  shows "env_ok e' \<and> env_map e' = (env_map e)(n \<mapsto> v)"
proof
  show ok': "env_ok e'"
    using ok n new room unfolding env_ok_iff valid_name_def e'_def by (auto simp: less_Suc_eq)
  show "env_map e' = (env_map e)(n \<mapsto> v)"
  proof (rule env_mapI [OF ok'])
    fix i assume "i < g_env_count e'"
    then show "((env_map e)(n \<mapsto> v)) (env_names e' i) = Some (env_values e' i)"
      using new env_map_entry [OF ok, of i] by (auto simp: e'_def less_Suc_eq)
  next
    fix k assume k: "\<And>i. i < g_env_count e' \<Longrightarrow> env_names e' i \<noteq> k"
    have "env_names e i \<noteq> k" if "i < g_env_count e" for i using k [of i] that by (simp add: e'_def)
    then show "((env_map e)(n \<mapsto> v)) k = None"
      using k [of "g_env_count e"] env_map_None [of e k] by (auto simp: e'_def)
  qed
qed

lemma setenv_replace:
  fixes v :: cstr
  assumes ok: "env_ok e" and i: "i < g_env_count e"
  defines "e' \<equiv> e\<lparr>env_values := (env_values e)(i := v)\<rparr>"
  shows "env_ok e' \<and> env_map e' = (env_map e)(env_names e i \<mapsto> v)"
proof
  show ok': "env_ok e'" using ok by (simp add: env_ok_iff e'_def)
  show "env_map e' = (env_map e)(env_names e i \<mapsto> v)"
  proof (rule env_mapI [OF ok'])
    fix j assume "j < g_env_count e'"
    then show "((env_map e)(env_names e i \<mapsto> v)) (env_names e' j) = Some (env_values e' j)"
      using ok i env_map_entry [OF ok, of j] by (auto simp: e'_def env_ok_iff)
  qed (use i env_map_None [of e] in \<open>auto simp: e'_def\<close>)
qed

lemma unsetenv_found:
  assumes ok: "env_ok e" and i: "i < g_env_count e"
  defines "l \<equiv> g_env_count e - 1"
  defines "e' \<equiv> (if i < l then e\<lparr>env_names := (env_names e)(i := env_names e l),
      env_values := (env_values e)(i := env_values e l)\<rparr> else e)\<lparr>g_env_count := l\<rparr>"
  shows "env_ok e' \<and> env_map e' = (env_map e)(env_names e i := None)"
proof
  define f where "f j = (if j = i then l else j)" for j
  have l: "l < g_env_count e" "i \<le> l" using i by (auto simp: l_def)
  have names: "env_names e' j = env_names e (f j)" "env_values e' j = env_values e (f j)" if "j < l" for j
    using that by (simp_all add: e'_def f_def)
  have cnt: "g_env_count e' = l" by (simp add: e'_def)
  have f: "f j < g_env_count e" "f j \<noteq> i" if "j < l" for j using that l by (auto simp: f_def)
  have f_inj: "a = b" if "f a = f b" "a < l" "b < l" for a b using that by (auto simp: f_def split: if_splits)
  have inj: "\<And>a b. a < g_env_count e \<Longrightarrow> b < g_env_count e \<Longrightarrow> env_names e a = env_names e b \<Longrightarrow> a = b"
    and good: "\<And>a. a < g_env_count e \<Longrightarrow> env_names e a \<noteq> [] \<and> EQ_SIGN \<notin> set (env_names e a) \<and> length (env_names e a) < MAX_ENV_SIZE"
    and "g_env_count e \<le> MAX_ENV_VARS"
    using ok by (auto simp: env_ok_iff)
  then show ok': "env_ok e'" unfolding env_ok_iff cnt using names f f_inj l(1) by simp
  show "env_map e' = (env_map e)(env_names e i := None)"
  proof (rule env_mapI [OF ok', unfolded cnt])
    fix j assume j: "j < l"
    then have "env_names e (f j) \<noteq> env_names e i" using inj [OF f(1) i] f(2) by blast
    then show "((env_map e)(env_names e i := None)) (env_names e' j) = Some (env_values e' j)"
      using names [OF j] env_map_entry [OF ok f(1) [OF j]] by simp
  next
    fix k assume k: "\<And>j. j < l \<Longrightarrow> env_names e' j \<noteq> k"
    have "env_names e a \<noteq> k" if "a < g_env_count e" "k \<noteq> env_names e i" for a
    proof (cases "a = i")
      case False
      have "\<exists>j < l. f j = a"
      proof (cases "a = l")
        case True
        then show ?thesis using False l(2) by (intro exI [of _ i]) (simp add: f_def)
      next
        case al: False
        then show ?thesis using False that(1) by (intro exI [of _ a]) (simp add: f_def l_def)
      qed
      then obtain j where "j < l" "f j = a" by blast
      then show ?thesis using k [of j] names(1) [of j] by simp
    qed (use that in simp)
    then show "((env_map e)(env_names e i := None)) k = None" using env_map_None [of e k] by auto
  qed
qed

text \<open>
  C18: The environment is a map from names to values. From a state with distinct names, \<^verbatim>\<open>getenv\<close>
  is lookup; \<^verbatim>\<open>setenv\<close> of a valid name updates the map with the value cut to its slot, keeps an
  existing value when it must not overwrite, and fails without effect when a new name finds all 128
  slots taken; \<^verbatim>\<open>unsetenv\<close> removes the name; \<^verbatim>\<open>putenv\<close> of \<open>n=v\<close> sets \<open>n\<close> to \<open>v\<close> and of \<open>n\<close> alone
  removes \<open>n\<close>; \<^verbatim>\<open>clearenv\<close> leaves the empty map; each keeps the names distinct. A valid name is not empty, has
  no equals sign and is shorter than a slot. Names that are empty or have an equals sign, null names and values, and
  a \<^verbatim>\<open>putenv\<close> string that starts with an equals sign are refused with -1 and no effect.
\<close>

theorem environment_is_map:
  assumes ok: "env_ok e" and n: "valid_name n"
  shows "getenv (Some n) e = env_map e n \<and>
    (\<exists>r e'. setenv (Some n) (Some v) ow e = (r, e') \<and> env_ok e' \<and>
      (if env_map e n = None \<and> g_env_count e = MAX_ENV_VARS then r = - 1 \<and> e' = e
       else r = 0 \<and> env_map e' = (if env_map e n \<noteq> None \<and> \<not> ow then env_map e else (env_map e)(n \<mapsto> slot v)))) \<and>
    (\<exists>e'. unsetenv (Some n) e = (0, e') \<and> env_ok e' \<and> env_map e' = (env_map e)(n := None)) \<and>
    putenv (Some (n @ EQ_SIGN # v)) e = setenv (Some n) (Some v) True e \<and>
    putenv (Some n) e = unsetenv (Some n) e \<and>
    (\<exists>e'. clearenv e = (0, e') \<and> env_ok e' \<and> env_map e' = (\<lambda>_. None)) \<and>
    (\<forall>m. m = [] \<or> EQ_SIGN \<in> set m \<longrightarrow> setenv (Some m) w ow e = (- 1, e) \<and> unsetenv (Some m) e = (- 1, e)) \<and>
    getenv None e = None \<and> setenv None w ow e = (- 1, e) \<and> setenv (Some n) None ow e = (- 1, e) \<and> unsetenv None e = (- 1, e) \<and>
    putenv None e = (- 1, e) \<and> putenv (Some (EQ_SIGN # v)) e = (- 1, e)"
proof (intro conjI)
  note find = env_find_map [OF ok, of n]
  have vn: "n \<noteq> []" "EQ_SIGN \<notin> set n" "slot n = n" "length n < MAX_ENV_SIZE" using n slot_short by (auto simp: valid_name_def)
  have cnt: "g_env_count e \<le> MAX_ENV_VARS" using ok by (simp add: env_ok_iff)
  show "getenv (Some n) e = env_map e n"
    using find by (cases "env_find e n 0 (g_env_count e)") (auto simp: getenv_def)
  show "\<exists>r e'. setenv (Some n) (Some v) ow e = (r, e') \<and> env_ok e' \<and>
      (if env_map e n = None \<and> g_env_count e = MAX_ENV_VARS then r = - 1 \<and> e' = e
       else r = 0 \<and> env_map e' = (if env_map e n \<noteq> None \<and> \<not> ow then env_map e else (env_map e)(n \<mapsto> slot v)))"
  proof (cases "env_find e n 0 (g_env_count e)")
    case None
    note nf = find(2) [OF None]
    show ?thesis
    proof (cases "g_env_count e < MAX_ENV_VARS")
      case True
      then show ?thesis using None nf vn setenv_new [OF ok n _ True, of "slot v"] by (simp add: setenv_def)
    next
      case False
      then have "g_env_count e = MAX_ENV_VARS" using cnt by simp
      then show ?thesis using None nf vn ok by (simp add: setenv_def)
    qed
  next
    case (Some i)
    note sf = find(1) [OF Some]
    then show ?thesis using Some vn ok setenv_replace [OF ok, of i "slot v"] by (simp add: setenv_def)
  qed
  show "\<exists>e'. unsetenv (Some n) e = (0, e') \<and> env_ok e' \<and> env_map e' = (env_map e)(n := None)"
  proof (cases "env_find e n 0 (g_env_count e)")
    case None
    then show ?thesis using find(2) vn ok by (auto simp: unsetenv_def)
  next
    case (Some i)
    then show ?thesis using find(1) [OF Some] vn unsetenv_found [OF ok, of i]
      by (auto simp: unsetenv_def Let_def split: if_splits)
  qed
  have "takeWhile (\<lambda>c. c \<noteq> EQ_SIGN) (n @ EQ_SIGN # v) = n" using vn(2) by (subst takeWhile_append2) auto
  then show "putenv (Some (n @ EQ_SIGN # v)) e = setenv (Some n) (Some v) True e"
    using vn by (simp add: putenv_def)
  show "putenv (Some n) e = unsetenv (Some n) e" using vn(2) by (simp add: putenv_def)
  show "\<exists>e'. clearenv e = (0, e') \<and> env_ok e' \<and> env_map e' = (\<lambda>_. None)"
    by (simp add: clearenv_def env_ok_def env_map_def env_pairs_def)
qed (auto simp: getenv_def setenv_def unsetenv_def putenv_def split: option.splits)

definition empty_env :: libc_env where
  "empty_env = \<lparr>env_names = \<lambda>_. [], env_values = \<lambda>_. [], g_env_count = 0\<rparr>"

theorem environment_is_map_witness:
  "\<exists>e'. setenv (Some [72]) (Some [47]) False empty_env = (0, e') \<and> env_map e' [72] = Some [47]"
proof -
  have "env_ok empty_env" "valid_name [72]"
    by (simp_all add: empty_env_def env_ok_iff valid_name_def EQ_SIGN_def MAX_ENV_SIZE_def)
  moreover have "env_map empty_env [72] = None" "g_env_count empty_env \<noteq> MAX_ENV_VARS"
    by (simp_all add: empty_env_def env_map_def env_pairs_def MAX_ENV_VARS_def)
  ultimately show ?thesis
    using environment_is_map [of empty_env "[72]" "[47]" False "Some [47]"] by (auto simp: slot_def MAX_ENV_SIZE_def)
qed

end
