(* ===== verification/Realpath.thy ===== *)
theory Realpath
  imports Prelude
begin

text \<open>
  \<^verbatim>\<open>normalize_path\<close> and \<^verbatim>\<open>realpath\<close> of \<^verbatim>\<open>userland/libc/src/stdlib/stdlib.c\<close>. The output buffer is
  the list of its bytes with whatever it holds at first; its length is \<^verbatim>\<open>out_size\<close>, and
  \<^verbatim>\<open>out_len\<close> is an index into it. The current directory, which \<^verbatim>\<open>realpath\<close> asks the system for, is an
  argument.
\<close>

definition SLASH :: u8 where "SLASH = 47"
definition DOT :: u8 where "DOT = 46"

text \<open>The next segment: at most 63 bytes up to the next slash, and what follows it.\<close>

definition segment :: "cstr \<Rightarrow> cstr" where
  "segment s = take 63 (takeWhile (\<lambda>c. c \<noteq> SLASH) s)"

text \<open>\<open>while (out_len > 1 && out[out_len - 1] != '/') out_len--;\<close>\<close>

fun step_back :: "u8 list \<Rightarrow> nat \<Rightarrow> nat" where
  "step_back out 0 = 0"
| "step_back out (Suc n) = (if Suc n > 1 \<and> out ! n \<noteq> SLASH then step_back out n else Suc n)"

text \<open>\<open>for (s = 0; s < seg_len; ++s) out[out_len++] = segment[s];\<close>\<close>

fun put_segment :: "cstr \<Rightarrow> u8 list \<Rightarrow> nat \<Rightarrow> u8 list" where
  "put_segment [] out len = out"
| "put_segment (c # cs) out len = put_segment cs (out[len := c]) (len + 1)"

text \<open>The main loop over the rest of the input; \<open>None\<close> where it returns -1.\<close>

function norm_loop :: "cstr \<Rightarrow> u8 list \<Rightarrow> nat \<Rightarrow> (u8 list \<times> nat) option" where
  "norm_loop s out len =
     (if s = [] then Some (out, len)
      else
        let s1 = dropWhile (\<lambda>c. c = SLASH) s in
        if s1 = [] then Some (out, len)
        else
          let seg = segment s1; rest = drop (length seg) s1 in
          if seg = [] \<or> seg = [DOT] then norm_loop rest out len
          else if seg = [DOT, DOT]
          then let len1 = (if len > 1 then step_back out (len - 1) else len)
               in norm_loop rest (out[len1 := 0]) len1
          else
            let slash = len > 1 \<and> out ! (len - 1) \<noteq> SLASH;
                len1 = (if slash then len + 1 else len);
                out1 = (if slash then out[len := SLASH] else out)
            in if slash \<and> len + 1 \<ge> length out then None
               else if len1 + length seg + 1 \<ge> length out then None
               else let out2 = put_segment seg out1 len1; len2 = len1 + length seg
                    in norm_loop rest (out2[len2 := 0]) len2)"
  by pat_completeness auto

lemma segment_nonempty: "s \<noteq> [] \<Longrightarrow> hd s \<noteq> SLASH \<Longrightarrow> segment s \<noteq> []"
  by (cases s) (auto simp: segment_def)

lemma segment_shrinks:
  assumes "dropWhile (\<lambda>c. c = SLASH) s \<noteq> []"
  shows "length (drop (length (segment (dropWhile (\<lambda>c. c = SLASH) s))) (dropWhile (\<lambda>c. c = SLASH) s)) < length s"
proof -
  define d where "d = dropWhile (\<lambda>c. c = SLASH) s"
  have d: "d \<noteq> []" "length d \<le> length s" using assms length_dropWhile_le by (auto simp: d_def)
  have "segment d \<noteq> []" using segment_nonempty [OF d(1)] hd_dropWhile [OF assms] by (simp add: d_def)
  then have "0 < length (segment d)" "0 < length d" using d(1) by simp_all
  then show ?thesis using d(2) unfolding d_def [symmetric] length_drop by linarith
qed

termination norm_loop
  by (relation "measure (\<lambda>(s, out, len). length s)") (simp_all only: in_measure case_prod_conv wf_measure segment_shrinks not_False_eq_True)

declare norm_loop.simps [simp del]

definition normalize_path :: "cstr \<Rightarrow> u8 list \<Rightarrow> u8 list option" where
  "normalize_path s out =
     (if length out < 2 then None
      else map_option
        (\<lambda>(out1, len). if len > 1 \<and> out1 ! (len - 1) = SLASH then out1[len - 1 := 0] else out1)
        (norm_loop s (out[0 := SLASH]) 1))"

datatype errno = EINVAL | ENOMEM

text \<open>The C string in a buffer; \<open>None\<close> when the buffer has no zero, so that reading it runs past its end.\<close>

definition C_string :: "u8 list \<Rightarrow> cstr option" where
  "C_string buf = (if 0 \<in> set buf then Some (takeWhile (\<lambda>c. c \<noteq> 0) buf) else None)"

text \<open>
  \<^verbatim>\<open>realpath\<close>: the result is the string copied out of the local buffer \<^verbatim>\<open>norm\<close>, whose
  initial contents are an argument, as are the current directory and whether \<^verbatim>\<open>malloc\<close> succeeds
  (where it is called). \<open>None\<close> is a call that reads past its buffer.
\<close>

definition realpath :: "cstr option \<Rightarrow> u8 list \<Rightarrow> bool \<Rightarrow> cstr option \<Rightarrow> (errno + cstr) option" where
  "realpath cwd norm malloc_ok path =
     (case path of None \<Rightarrow> Some (Inl EINVAL)
      | Some p \<Rightarrow>
          let tmp =
            (if p \<noteq> [] \<and> hd p = SLASH then Inr (take 511 p)
             else case cwd of None \<Rightarrow> Inl EINVAL
               | Some d \<Rightarrow>
                   if length d + 1 \<ge> 512 then Inl ENOMEM
                   else let d1 = (if d = [] \<or> last d \<noteq> SLASH then d @ [SLASH] else d)
                        in if length d1 + length p + 1 \<ge> 512 then Inl ENOMEM else Inr (d1 @ p))
          in case tmp of Inl e \<Rightarrow> Some (Inl e)
             | Inr t \<Rightarrow>
                 (case normalize_path t norm of None \<Rightarrow> Some (Inl ENOMEM)
                  | Some out \<Rightarrow> map_option (\<lambda>r. if malloc_ok then Inr r else Inl ENOMEM) (C_string out)))"

section \<open>The specification\<close>

text \<open>The components of a path, the stack they leave and the path of a stack.\<close>

function components :: "cstr \<Rightarrow> cstr list" where
  "components s =
     (let s1 = dropWhile (\<lambda>c. c = SLASH) s in
      if s1 = [] then []
      else takeWhile (\<lambda>c. c \<noteq> SLASH) s1 # components (dropWhile (\<lambda>c. c \<noteq> SLASH) s1))"
  by pat_completeness auto
termination
proof (relation "measure length", goal_cases)
  case (2 s s1)
  have "hd s1 \<noteq> SLASH" using 2 hd_dropWhile [of "\<lambda>c. c = SLASH" s] by auto
  then have "length (dropWhile (\<lambda>c. c \<noteq> SLASH) s1) < length s1"
    using 2(2) length_dropWhile_le [of "\<lambda>c. c \<noteq> SLASH" "tl s1"] by (cases s1) auto
  then show ?case using 2(1) length_dropWhile_le [of "\<lambda>c. c = SLASH" s] by simp
qed simp

declare components.simps [simp del]

definition walk_step :: "cstr list \<Rightarrow> cstr \<Rightarrow> cstr list" where
  "walk_step st c = (if c = [DOT] then st else if c = [DOT, DOT] then butlast st else st @ [c])"

definition path_of :: "cstr list \<Rightarrow> cstr" where
  "path_of st = concat (map (\<lambda>c. SLASH # c) st)"

definition canonical :: "cstr \<Rightarrow> cstr" where
  "canonical s = (let st = foldl walk_step [] (components s) in if st = [] then [SLASH] else path_of st)"

section \<open>The buffer as a stack of components\<close>

definition comp_ok :: "cstr \<Rightarrow> bool" where
  "comp_ok c \<longleftrightarrow> c \<noteq> [] \<and> SLASH \<notin> set c"

definition buf_ok :: "u8 list \<Rightarrow> nat \<Rightarrow> cstr list \<Rightarrow> bool" where
  "buf_ok out len st \<longleftrightarrow> len < length out \<and> (\<forall>c \<in> set st. comp_ok c) \<and>
     (if st = [] then take len out = [SLASH]
      else take len out = path_of st \<or> take len out = path_of st @ [SLASH])"

lemma path_of_snoc [simp]: "path_of (st @ [c]) = path_of st @ SLASH # c"
  by (simp add: path_of_def)

lemma path_of_Nil [simp]: "path_of [] = []"
  by (simp add: path_of_def)

lemma length_put_segment [simp]: "length (put_segment c out len) = length out"
  by (induction c arbitrary: out len) simp_all

lemma take_put_segment:
  "len + length c \<le> length out \<Longrightarrow> take (len + length c) (put_segment c out len) = take len out @ c"
proof (induction c arbitrary: out len)
  case (Cons x c)
  have "take (len + 1 + length c) (put_segment c (out[len := x]) (len + 1)) = take (len + 1) (out[len := x]) @ c"
    by (rule Cons.IH) (use Cons.prems in simp)
  moreover have "take (len + 1) (out[len := x]) = take len out @ [x]"
    using Cons.prems by (simp add: take_Suc_conv_app_nth)
  ultimately show ?case by simp
qed simp

lemma step_back_eq:
  assumes "k < n" and "out ! k = SLASH" and "\<And>i. k < i \<Longrightarrow> i < n \<Longrightarrow> out ! i \<noteq> SLASH"
  shows "step_back out n = k + 1"
  using assms
proof (induction n)
  case (Suc n)
  then show ?case by (cases "k = n") auto
qed simp

lemma nth_take_append:
  assumes "take len out = xs @ ys" and "length xs \<le> i" and "i < length xs + length ys"
  shows "out ! i = ys ! (i - length xs)"
proof -
  have "length xs + length ys \<le> len" using assms(1) by (metis length_append length_take min.cobounded2)
  then have "out ! i = take len out ! i" using assms(3) by simp
  then show ?thesis using assms by (simp add: nth_append)
qed

text \<open>Removing the last component.\<close>

lemma buf_pop:
  assumes ok: "buf_ok out len (st @ [c])"
  defines "len1 \<equiv> (if len > 1 then step_back out (len - 1) else len)"
  shows "buf_ok (out[len1 := 0]) len1 st" and "len1 < len"
proof -
  have c: "c \<noteq> []" "SLASH \<notin> set c" and len: "len < length out"
    using ok by (auto simp: buf_ok_def comp_ok_def)
  let ?k = "length (path_of st)"
  obtain tl where tl: "take len out = path_of st @ (SLASH # c) @ tl" "tl = [] \<or> tl = [SLASH]"
    using ok by (auto simp: buf_ok_def split: if_splits)
  have ln: "len = ?k + 1 + length c + length tl"
    using arg_cong [OF tl(1), of length] len by simp
  have at: "out ! i = (SLASH # c) ! (i - ?k)" if "?k \<le> i" "i < ?k + 1 + length c" for i
    using nth_take_append [of len out "path_of st" "(SLASH # c) @ tl" i] tl(1) that
    by (auto simp: nth_append nth_Cons' split: if_splits)
  have "step_back out (len - 1) = ?k + 1"
  proof (rule step_back_eq)
    show "?k < len - 1" using ln c(1) by (cases c) auto
    show "out ! ?k = SLASH" using at [of ?k] by simp
    show "out ! i \<noteq> SLASH" if "?k < i" "i < len - 1" for i
    proof -
      have "i < ?k + 1 + length c" using that ln tl(2) by auto
      then have "out ! i = c ! (i - ?k - 1)" "i - ?k - 1 < length c" using at [of i] that(1) by (auto simp: nth_Cons')
      then show ?thesis using c(2) by (metis nth_mem)
    qed
  qed
  then have l1: "len1 = ?k + 1" using ln c(1) by (cases c) (auto simp: len1_def)
  then show "len1 < len" using ln c(1) by (cases c) auto
  have "take (?k + 1) out = take (?k + 1) (take len out)" using ln by simp
  then have "take (?k + 1) out = path_of st @ [SLASH]" unfolding tl(1) by simp
  then show "buf_ok (out[len1 := 0]) len1 st"
    using ok ln len by (auto simp: buf_ok_def l1)
qed

text \<open>Appending a component.\<close>

lemma buf_last:
  assumes ok: "buf_ok out len st"
  shows "len > 1 \<and> out ! (len - 1) \<noteq> SLASH \<longleftrightarrow> st \<noteq> [] \<and> take len out = path_of st"
proof (cases st rule: rev_cases)
  case Nil
  then have "length (take len out) = 1" using ok by (simp add: buf_ok_def)
  then show ?thesis using Nil ok by (auto simp: buf_ok_def)
next
  case (snoc st' c)
  have c: "c \<noteq> []" "SLASH \<notin> set c" and len: "len < length out"
    using ok snoc by (auto simp: buf_ok_def comp_ok_def)
  have l: "length (take len out) = len" using len by simp
  have last: "out ! (len - 1) = last (take len out)" if "take len out \<noteq> []"
    using that len by (simp add: last_conv_nth)
  consider "take len out = path_of st" | "take len out = path_of st @ [SLASH]"
    using ok snoc by (auto simp: buf_ok_def)
  then show ?thesis
  proof cases
    case 1
    then have "1 < len" using l snoc c(1) by (cases c) auto
    moreover have "last (take len out) \<noteq> SLASH" using 1 snoc c by (metis last_ConsR last_appendR last_in_set list.distinct(1) path_of_snoc)
    ultimately show ?thesis using 1 last snoc by auto
  next
    case 2
    then have "out ! (len - 1) = SLASH" using last by simp
    then show ?thesis using 2 by simp
  qed
qed

lemma buf_push:
  assumes ok: "buf_ok out len st" and c: "comp_ok c"
  defines "slash \<equiv> len > 1 \<and> out ! (len - 1) \<noteq> SLASH"
  defines "len1 \<equiv> (if slash then len + 1 else len)" and "out1 \<equiv> (if slash then out[len := SLASH] else out)"
  assumes room: "len1 + length c < length out"
  shows "buf_ok ((put_segment c out1 len1)[len1 + length c := 0]) (len1 + length c) (st @ [c])"
proof -
  have "len \<le> len1" "length out1 = length out" by (auto simp: len1_def out1_def)
  have "take (len1 + length c) (put_segment c out1 len1) = take len1 out1 @ c"
    by (rule take_put_segment) (use room in \<open>simp add: out1_def\<close>)
  moreover have "take len1 out1 = path_of st @ [SLASH]"
  proof (cases slash)
    case True
    then show ?thesis using buf_last [OF ok] ok room
      by (simp add: slash_def len1_def out1_def take_Suc_conv_app_nth buf_ok_def)
  next
    case False
    then show ?thesis using buf_last [OF ok] ok
      by (auto simp: slash_def len1_def out1_def buf_ok_def split: if_splits)
  qed
  ultimately show ?thesis using ok c room by (simp add: buf_ok_def out1_def)
qed

lemma norm_loop_eq:
  assumes "buf_ok out len st" and "st = [] \<or> s = [] \<or> hd s = SLASH" and "len + length s + 1 < length out"
    and "\<forall>c \<in> set (components s). length c \<le> 63"
  shows "\<exists>out' len'. norm_loop s out len = Some (out', len') \<and> length out' = length out \<and>
    buf_ok out' len' (foldl walk_step st (components s)) \<and>
    (out ! len = 0 \<or> (\<exists>c \<in> set (components s). c \<noteq> [DOT]) \<longrightarrow> out' ! len' = 0)"
  using assms
proof (induction "length s" arbitrary: s out len st rule: less_induct)
  case less
  define s1 where "s1 = dropWhile (\<lambda>c. c = SLASH) s"
  show ?case
  proof (cases "s1 = []")
    case True
    then have "components s = []" "norm_loop s out len = Some (out, len)"
      by (simp_all add: components.simps [of s] norm_loop.simps [of s] s1_def Let_def)
    then show ?thesis using less.prems(1) by simp
  next
    case False
    define c where "c = takeWhile (\<lambda>c. c \<noteq> SLASH) s1"
    define r where "r = dropWhile (\<lambda>c. c \<noteq> SLASH) s1"
    have comps: "components s = c # components r"
      using False by (subst components.simps) (simp add: s1_def c_def r_def Let_def)
    have seg: "segment s1 = c" using less.prems(4) comps by (simp add: segment_def c_def)
    have rest: "drop (length c) s1 = r" by (simp add: c_def r_def dropWhile_eq_drop)
    have "s \<noteq> []" using False by (auto simp: s1_def)
    have cok: "comp_ok c"
    proof -
      have "hd s1 \<noteq> SLASH" unfolding s1_def by (rule hd_dropWhile) (use False s1_def in simp)
      then show ?thesis using False set_takeWhileD [of SLASH "\<lambda>c. c \<noteq> SLASH" s1]
        by (cases s1) (auto simp: comp_ok_def c_def)
    qed
    have cr: "c @ r = s1" by (simp add: c_def r_def)
    have lens: "length c + length r = length s1" "length s1 \<le> length s"
      using arg_cong [OF cr, of length] length_dropWhile_le [of "\<lambda>c. c = SLASH" s] by (simp_all add: s1_def)
    have lt: "length s1 < length s" if "st \<noteq> []"
      using less.prems(2) that \<open>s \<noteq> []\<close> length_dropWhile_le [of "\<lambda>c. c = SLASH" "tl s"]
      by (cases s) (auto simp: s1_def)
    have lr: "length r < length s" using lens(1,2) cok by (cases c) (auto simp: comp_ok_def)
    have hr: "r = [] \<or> hd r = SLASH" unfolding r_def using hd_dropWhile [of "\<lambda>c. c \<noteq> SLASH" s1] by auto
    have eq: "norm_loop s out len =
        (if c = [DOT] then norm_loop r out len
         else if c = [DOT, DOT]
         then let len1 = (if len > 1 then step_back out (len - 1) else len) in norm_loop r (out[len1 := 0]) len1
         else
           let slash = len > 1 \<and> out ! (len - 1) \<noteq> SLASH;
               len1 = (if slash then len + 1 else len);
               out1 = (if slash then out[len := SLASH] else out)
           in if slash \<and> len + 1 \<ge> length out then None
              else if len1 + length c + 1 \<ge> length out then None
              else norm_loop r ((put_segment c out1 len1)[len1 + length c := 0]) (len1 + length c))"
    proof -
      have "c \<noteq> []" using cok by (simp add: comp_ok_def)
      then show ?thesis
        unfolding norm_loop.simps [of s out len] s1_def [symmetric] Let_def seg rest
        by (simp only: \<open>s \<noteq> []\<close> False if_False simp_thms)
    qed
    note IH = less.hyps [OF lr]
    have small: "\<forall>c \<in> set (components r). length c \<le> 63" using less.prems(4) comps by simp
    consider "c = [DOT]" | "c = [DOT, DOT]" | "c \<noteq> [DOT]" "c \<noteq> [DOT, DOT]" by blast
    then show ?thesis
    proof cases
      case 1
      then show ?thesis using IH [OF less.prems(1) _ _ small] hr less.prems(3) lr by (auto simp: eq comps walk_step_def)
    next
      case 2
      define len1 where "len1 = (if len > 1 then step_back out (len - 1) else len)"
      have b: "buf_ok (out[len1 := 0]) len1 (butlast st)" "len1 \<le> len"
      proof (atomize (full), cases st rule: rev_cases)
        case Nil
        then have "length (take len out) = 1" using less.prems(1) by (simp add: buf_ok_def)
        then show "buf_ok (out[len1 := 0]) len1 (butlast st) \<and> len1 \<le> len"
          using Nil less.prems(1) by (auto simp: buf_ok_def len1_def)
      next
        case (snoc st' d)
        then show "buf_ok (out[len1 := 0]) len1 (butlast st) \<and> len1 \<le> len"
          using buf_pop [of out len st' d] less.prems(1) by (auto simp: len1_def)
      qed
      have "len1 < length out" using b(1) by (simp add: buf_ok_def)
      moreover have "norm_loop s out len = norm_loop r (out[len1 := 0]) len1"
        unfolding eq Let_def len1_def [symmetric] using 2 by simp
      moreover have "walk_step st c = butlast st" "c \<noteq> [DOT]" using 2 by (simp_all add: walk_step_def)
      ultimately show ?thesis
        using IH [OF b(1) _ _ small] hr less.prems(3) lr b(2) by (auto simp: comps)
    next
      case 3
      define slash where "slash \<longleftrightarrow> len > 1 \<and> out ! (len - 1) \<noteq> SLASH"
      define len1 where "len1 = (if slash then len + 1 else len)"
      define out1 where "out1 = (if slash then out[len := SLASH] else out)"
      have ns: "slash \<Longrightarrow> st \<noteq> []" using buf_last [OF less.prems(1)] by (auto simp: slash_def)
      have fit: "len1 + length c + length r \<le> len + length s"
        using lens lt ns by (cases slash) (auto simp: len1_def)
      have room: "len1 + length c + 1 < length out" using fit less.prems(3) by simp
      have push: "buf_ok ((put_segment c out1 len1)[len1 + length c := 0]) (len1 + length c) (st @ [c])"
        using buf_push [OF less.prems(1) cok] room by (simp add: len1_def out1_def slash_def)
      have lo: "length out1 = length out" by (simp add: out1_def)
      have "\<not> (slash \<and> len + 1 \<ge> length out)" using room by (auto simp: len1_def)
      then have "norm_loop s out len = norm_loop r ((put_segment c out1 len1)[len1 + length c := 0]) (len1 + length c)"
        unfolding eq Let_def slash_def [symmetric] len1_def [symmetric] out1_def [symmetric] using 3 room by auto
      then show ?thesis
        using IH [OF push _ _ small] hr fit less.prems(3) 3 lo room by (auto simp: comps walk_step_def)
    qed
  qed
qed

section \<open>Correctness\<close>

lemma C_string_at:
  assumes "take n buf = xs" and "n < length buf" and "buf ! n = 0" and "0 \<notin> set xs"
  shows "C_string buf = Some xs"
proof -
  have buf: "buf = xs @ 0 # drop (Suc n) buf" using assms id_take_nth_drop [of n buf] by simp
  have "takeWhile (\<lambda>c. c \<noteq> 0) (xs @ 0 # drop (Suc n) buf) = xs" using assms(4) by (subst takeWhile_append2) auto
  then show ?thesis using buf assms(2,3) unfolding C_string_def by (metis nth_mem)
qed

lemma set_components: "c \<in> set (components s) \<Longrightarrow> set c \<subseteq> set s"
proof (induction s rule: components.induct)
  case (1 s)
  then show ?case
    by (auto simp: components.simps [of s] Let_def split: if_splits dest: set_dropWhileD set_takeWhileD)
qed

lemma walk_subset: "set (foldl walk_step st cs) \<subseteq> set st \<union> set cs"
proof (induction cs arbitrary: st)
  case (Cons c cs)
  have "set (walk_step st c) \<subseteq> insert c (set st)" by (auto simp: walk_step_def dest: in_set_butlastD)
  with Cons.IH [of "walk_step st c"] show ?case by auto
qed simp

lemma normalize_done:
  assumes len: "2 \<le> length out" and lp: "norm_loop s (out[0 := SLASH]) 1 = Some (out', n)"
    and b: "buf_ok out' n st" and z: "out' ! n = 0" and nz': "0 \<notin> set (path_of st)"
  shows "\<exists>out'. normalize_path s out = Some out' \<and> C_string out' = Some (if st = [] then [SLASH] else path_of st)"
proof -
  have n: "n < length out'" using b by (simp add: buf_ok_def)
  have eq: "normalize_path s out = Some (if n > 1 \<and> out' ! (n - 1) = SLASH then out'[n - 1 := 0] else out')"
    using len lp by (simp add: normalize_path_def)
  show ?thesis
  proof (cases "n > 1 \<and> out' ! (n - 1) = SLASH")
    case True
    have "st \<noteq> []"
    proof
      assume "st = []"
      then have "length (take n out') = 1" using b by (simp add: buf_ok_def)
      then show False using True n by simp
    qed
    moreover from this have "take n out' = path_of st @ [SLASH]" using b buf_last [OF b] True by (auto simp: buf_ok_def)
    then have "take (n - 1) out' = path_of st" using True n by (metis One_nat_def butlast_snoc butlast_take less_imp_le)
    then have "C_string (out'[n - 1 := 0]) = Some (path_of st)" using n True nz'
      by (intro C_string_at [where n = "n - 1"]) auto
    ultimately show ?thesis using True by (simp add: eq)
  next
    case False
    have np: "take n out' \<noteq> path_of st @ [SLASH]" if "st \<noteq> []"
    proof
      assume e: "take n out' = path_of st @ [SLASH]"
      have "n = length (path_of st) + 1" using arg_cong [OF e, of length] n by simp
      moreover have "path_of st \<noteq> []" using that by (auto simp: path_of_def)
      ultimately show False using False nth_take_append [OF e, of "n - 1"] by simp
    qed
    then have "take n out' = (if st = [] then [SLASH] else path_of st)"
      using b by (auto simp: buf_ok_def split: if_splits)
    then have "C_string out' = Some (if st = [] then [SLASH] else path_of st)"
      using n z nz' by (intro C_string_at) (auto simp: SLASH_def)
    then show ?thesis using False by (auto simp: eq Let_def)
  qed
qed

lemma normalize_path_eq:
  assumes len: "length s + 2 < length out" and small: "\<forall>c \<in> set (components s). length c \<le> 63"
    and nz: "0 \<notin> set s" and some: "\<exists>c \<in> set (components s). c \<noteq> [DOT]"
  shows "\<exists>out'. normalize_path s out = Some out' \<and> C_string out' = Some (canonical s)"
proof -
  let ?st = "foldl walk_step [] (components s)"
  have "buf_ok (out[0 := SLASH]) 1 []" using len by (cases out) (auto simp: buf_ok_def)
  from norm_loop_eq [OF this _ _ small] obtain out' n where
    lp: "norm_loop s (out[0 := SLASH]) 1 = Some (out', n)" and b: "buf_ok out' n ?st" and z: "out' ! n = 0"
    using len some by auto
  have nz': "0 \<notin> set (path_of ?st)"
  proof
    assume "0 \<in> set (path_of ?st)"
    then obtain c where "c \<in> set ?st" "0 \<in> set c"
      by (auto simp: path_of_def SLASH_def split: if_splits)
    moreover from this have "c \<in> set (components s)" using walk_subset [of "[]" "components s"] by auto
    ultimately show False using set_components [of c s] nz by blast
  qed
  from normalize_done [OF _ lp b z nz'] show ?thesis using len by (auto simp: canonical_def Let_def)
qed

text \<open>A slash ends a component, so one slash more or less changes nothing.\<close>

lemma components_Nil [simp]: "components [] = []"
  by (simp add: components.simps)

lemma components_slash [simp]: "components (SLASH # s) = components s"
  by (subst (1 2) components.simps) simp

lemma components_append: "components (xs @ SLASH # ys) = components xs @ components ys"
proof (induction xs rule: components.induct)
  case (1 xs)
  define x1 where "x1 = dropWhile (\<lambda>c. c = SLASH) xs"
  show ?case
  proof (cases "x1 = []")
    case True
    then have "dropWhile (\<lambda>c. c = SLASH) (xs @ SLASH # ys) = dropWhile (\<lambda>c. c = SLASH) ys" by (auto simp: x1_def dropWhile_append)
    then have "components (xs @ SLASH # ys) = components ys" by (subst (1 2) components.simps) simp
    moreover have "components xs = []" using True by (subst components.simps) (simp add: x1_def)
    ultimately show ?thesis by simp
  next
    case False
    then have d: "dropWhile (\<lambda>c. c = SLASH) (xs @ SLASH # ys) = x1 @ SLASH # ys" by (auto simp: x1_def dropWhile_append)
    let ?c = "takeWhile (\<lambda>c. c \<noteq> SLASH) x1" and ?r = "dropWhile (\<lambda>c. c \<noteq> SLASH) x1"
    have "components (xs @ SLASH # ys) = ?c # components (?r @ SLASH # ys)"
    proof (cases "SLASH \<in> set x1")
      case True
      then show ?thesis using d False
        by (subst components.simps) (simp add: takeWhile_append1 [of SLASH] dropWhile_append1 [of SLASH] Let_def)
    next
      case False
      then have "takeWhile (\<lambda>c. c \<noteq> SLASH) (x1 @ SLASH # ys) = x1" "dropWhile (\<lambda>c. c \<noteq> SLASH) (x1 @ SLASH # ys) = SLASH # ys"
        "?c = x1" "?r = []" by (induction x1) auto
      then have w: "takeWhile (\<lambda>c. c \<noteq> SLASH) (x1 @ SLASH # ys) = x1" "dropWhile (\<lambda>c. c \<noteq> SLASH) (x1 @ SLASH # ys) = SLASH # ys"
        and cr: "?c = x1" "?r = []" by blast+
      have "components (xs @ SLASH # ys) = x1 # components (SLASH # ys)"
        unfolding components.simps [of "xs @ SLASH # ys"] d Let_def w by simp
      then show ?thesis unfolding cr by simp
    qed
    then have "components (xs @ SLASH # ys) = ?c # components ?r @ components ys" using 1 [OF x1_def False] by simp
    moreover have "components xs = ?c # components ?r" using False by (subst components.simps) (simp add: x1_def Let_def)
    ultimately show ?thesis by simp
  qed
qed

text \<open>The path that \<^verbatim>\<open>realpath\<close> normalises, with the current directory \<open>d\<close> in front of a relative one.\<close>

definition absolute :: "cstr \<Rightarrow> bool" where
  "absolute p \<longleftrightarrow> p \<noteq> [] \<and> hd p = SLASH"

definition full_path :: "cstr \<Rightarrow> cstr \<Rightarrow> cstr" where
  "full_path d p = (if absolute p then p else d @ SLASH # p)"

lemma joined_components:
  "components ((if d = [] \<or> last d \<noteq> SLASH then d @ [SLASH] else d) @ p) = components (d @ SLASH # p)"
proof (cases "d = [] \<or> last d \<noteq> SLASH")
  case False
  then obtain d' where "d = d' @ [SLASH]" by (metis append_butlast_last_id)
  then show ?thesis using components_append [of d' p] components_append [of "d' @ [SLASH]" p] components_append [of d' "[]"] by simp
qed auto

text \<open>
  C21: \<^verbatim>\<open>realpath\<close> returns the canonical form of the path, taken from the current directory when it is
  relative: empty and \<open>.\<close> components dropped, each \<open>..\<close> removing the component before it and staying at the
  root, the rest joined with single slashes. This holds when the whole path has at most 508 bytes, a
  component other than \<open>.\<close>, and no component of more than 63 bytes, whatever the local buffer holds. A failed
  allocation gives ENOMEM; a null path, and a relative one when the current directory is unknown, EINVAL.
\<close>

theorem realpath_canonical:
  assumes cwd: "absolute p \<or> cwd = Some d" and len: "length (full_path d p) \<le> 508" and nz: "0 \<notin> set (full_path d p)"
    and small: "\<forall>c \<in> set (components (full_path d p)). length c \<le> 63"
    and some: "\<exists>c \<in> set (components (full_path d p)). c \<noteq> [DOT]" and norm: "length norm = 512"
  shows "realpath cwd norm True (Some p) = Some (Inr (canonical (full_path d p))) \<and>
    realpath cwd norm False (Some p) = Some (Inl ENOMEM) \<and>
    (\<not> absolute p \<longrightarrow> realpath None norm b (Some p) = Some (Inl EINVAL)) \<and> realpath cwd norm b None = Some (Inl EINVAL)"
proof -
  define t where "t = (if absolute p then p else (if d = [] \<or> last d \<noteq> SLASH then d @ [SLASH] else d) @ p)"
  have comps: "components t = components (full_path d p)" by (simp add: t_def full_path_def joined_components)
  have lt: "length t \<le> length (full_path d p)" and set: "set t \<subseteq> set (full_path d p)" by (auto simp: t_def full_path_def)
  have run: "realpath cwd norm ok (Some p) = (case normalize_path t norm of None \<Rightarrow> Some (Inl ENOMEM)
      | Some out \<Rightarrow> map_option (\<lambda>r. if ok then Inr r else Inl ENOMEM) (C_string out))" for ok
    using cwd len by (auto simp: realpath_def t_def full_path_def absolute_def)
  have "length t + 2 < length norm" "0 \<notin> set t" using len lt norm nz set by auto
  from normalize_path_eq [OF this(1) _ this(2)] obtain out where
    "normalize_path t norm = Some out" "C_string out = Some (canonical t)" using small some comps by auto
  moreover have "canonical t = canonical (full_path d p)" by (simp add: canonical_def comps)
  ultimately show ?thesis by (simp add: run) (auto simp: realpath_def absolute_def)
qed

theorem realpath_canonical_witness:
  "realpath (Some [47, 97]) (replicate 512 0xFF) True (Some [46, 46, 47, 47, 98, 47]) = Some (Inr [47, 98])"
proof -
  have f: "full_path [47, 97] [46, 46, 47, 47, 98, 47] = [47, 97, 47, 46, 46, 47, 47, 98, 47]"
    by (simp add: full_path_def absolute_def SLASH_def)
  have c: "components [47, 97, 47, 46, 46, 47, 47, 98, 47] = [[97], [46, 46], [98]]"
    by (simp add: components.simps SLASH_def)
  have "canonical [47, 97, 47, 46, 46, 47, 47, 98, 47] = [47, 98]"
    by (simp add: canonical_def c walk_step_def DOT_def path_of_def SLASH_def)
  then show ?thesis
    using realpath_canonical [of "[46, 46, 47, 47, 98, 47]" "Some [47, 97]" "[47, 97]" "replicate 512 0xFF" True]
    by (simp add: f c DOT_def)
qed

text \<open>One round of the loop that appends a segment.\<close>

lemma norm_loop_push:
  assumes ok: "buf_ok out len st" and s1: "s1 = dropWhile (\<lambda>c. c = SLASH) s" "s1 \<noteq> []" and seg: "seg = segment s1"
    and dots: "seg \<noteq> [DOT]" "seg \<noteq> [DOT, DOT]" and room: "len + length seg + 2 < length out"
  obtains out' len' where "norm_loop s out len = norm_loop (drop (length seg) s1) out' len'" and "buf_ok out' len' (st @ [seg])"
    and "out' ! len' = 0" and "length out' = length out" and "len' \<le> len + length seg + 1"
proof -
  define slash where "slash \<longleftrightarrow> len > 1 \<and> out ! (len - 1) \<noteq> SLASH"
  define len1 where "len1 = (if slash then len + 1 else len)"
  define out1 where "out1 = (if slash then out[len := SLASH] else out)"
  have hd: "hd s1 \<noteq> SLASH" using hd_dropWhile [of "\<lambda>c. c = SLASH" s] s1 by simp
  have ne: "seg \<noteq> []" using segment_nonempty [OF s1(2) hd] seg by simp
  have cok: "comp_ok seg" using ne by (auto simp: comp_ok_def seg segment_def dest: in_set_takeD set_takeWhileD)
  have l1: "len1 \<le> len + 1" by (simp add: len1_def)
  have "norm_loop s out len = norm_loop (drop (length seg) s1) ((put_segment seg out1 len1)[len1 + length seg := 0]) (len1 + length seg)"
    unfolding norm_loop.simps [of s out len] s1(1) [symmetric] seg [symmetric] Let_def slash_def [symmetric] len1_def [symmetric] out1_def [symmetric]
    using s1 ne dots room l1 by auto
  moreover have "buf_ok ((put_segment seg out1 len1)[len1 + length seg := 0]) (len1 + length seg) (st @ [seg])"
    using buf_push [OF ok cok] room l1 by (simp add: len1_def out1_def slash_def)
  moreover have "((put_segment seg out1 len1)[len1 + length seg := 0]) ! (len1 + length seg) = 0"
    "length ((put_segment seg out1 len1)[len1 + length seg := 0]) = length out"
    using room l1 by (simp_all add: out1_def)
  ultimately show ?thesis using that l1 by simp
qed

text \<open>
  C38: Two kinds of paths that \<^verbatim>\<open>realpath\<close> gets wrong. For the root, and any path of slashes, the buffer is
  never terminated: the result is a slash and what the buffer held before, and a buffer without a zero is
  read past its end. A component of 64 to 126 bytes is cut in two, with a slash between the parts.
\<close>

theorem realpath_defects:
  assumes norm: "length norm = 512" and p: "\<forall>c \<in> set p. c = SLASH" "p \<noteq> []"
    and c: "63 < length c" "length c \<le> 126" "SLASH \<notin> set c" "0 \<notin> set c" "drop 63 c \<noteq> [DOT]" "drop 63 c \<noteq> [DOT, DOT]"
  shows "realpath cwd norm True (Some p) =
      (if 0 \<in> set (tl norm) then Some (Inr (SLASH # takeWhile (\<lambda>x. x \<noteq> 0) (tl norm))) else None) \<and>
    realpath cwd norm True (Some (SLASH # c)) = Some (Inr (SLASH # take 63 c @ SLASH # drop 63 c))"
proof
  have hd: "hd p = SLASH" using p by simp
  obtain x norm' where n: "norm = x # norm'" using norm by (cases norm) auto
  have dt: "dropWhile (\<lambda>c. c = SLASH) (take 511 p) = []" using p by (auto dest: in_set_takeD)
  have "normalize_path (take 511 p) norm = Some (norm[0 := SLASH])"
    using norm p(2) dt by (simp add: normalize_path_def norm_loop.simps)
  then show "realpath cwd norm True (Some p) =
      (if 0 \<in> set (tl norm) then Some (Inr (SLASH # takeWhile (\<lambda>x. x \<noteq> 0) (tl norm))) else None)"
    using p(2) hd n by (simp add: realpath_def C_string_def SLASH_def)
next
  let ?a = "take 63 c" and ?b = "drop 63 c"
  have b0: "buf_ok (norm[0 := SLASH]) 1 []" using norm by (cases norm) (auto simp: buf_ok_def)
  have tw: "takeWhile (\<lambda>x. x \<noteq> SLASH) c = c" "takeWhile (\<lambda>x. x \<noteq> SLASH) ?b = ?b"
    using c(3) by (auto simp: takeWhile_eq_all_conv dest: in_set_dropD)
  have noslash: "dropWhile (\<lambda>x. x = SLASH) xs = xs" if "SLASH \<notin> set xs" for xs using that by (cases xs) auto
  have dw: "dropWhile (\<lambda>x. x = SLASH) (SLASH # c) = c" "dropWhile (\<lambda>x. x = SLASH) ?b = ?b"
    using c(3) in_set_dropD [of SLASH 63 c] noslash by auto
  have seg: "segment c = ?a" "segment ?b = ?b" using c(2) by (simp_all add: segment_def tw)
  have la: "length ?a = 63" using c(1) by simp
  have a: "?a \<noteq> [DOT]" "?a \<noteq> [DOT, DOT]" using arg_cong [of ?a _ length] la by fastforce+
  have "c \<noteq> []" "?b \<noteq> []" using c(1) by auto
  have r1: "1 + length ?a + 2 < length (norm[0 := SLASH])" using norm la by simp
  obtain o1 l1 where 1: "norm_loop (SLASH # c) (norm[0 := SLASH]) 1 = norm_loop (drop (length ?a) c) o1 l1" "buf_ok o1 l1 ([] @ [?a])"
      "length o1 = length (norm[0 := SLASH])" "l1 \<le> 1 + length ?a + 1"
    by (rule norm_loop_push [OF b0 dw(1) [symmetric] \<open>c \<noteq> []\<close> seg(1) [symmetric] a r1])
  have r2: "l1 + length ?b + 2 < length o1" using 1(3,4) la norm c(2) by simp
  obtain o2 l2 where 2: "norm_loop ?b o1 l1 = norm_loop (drop (length ?b) ?b) o2 l2" "buf_ok o2 l2 (([] @ [?a]) @ [?b])" "o2 ! l2 = 0"
    by (rule norm_loop_push [OF 1(2) dw(2) [symmetric] \<open>?b \<noteq> []\<close> seg(2) [symmetric] c(5,6) r2])
  have st: "path_of [?a, ?b] = SLASH # ?a @ SLASH # ?b" by (simp add: path_of_def)
  have "0 \<notin> set (path_of [?a, ?b])" using c(4) by (auto simp: st SLASH_def dest: in_set_takeD in_set_dropD)
  moreover have "norm_loop (SLASH # c) (norm[0 := SLASH]) 1 = Some (o2, l2)" using 1(1) 2(1) la by (simp add: norm_loop.simps [of "[]"])
  ultimately obtain out where "normalize_path (SLASH # c) norm = Some out" "C_string out = Some (SLASH # ?a @ SLASH # ?b)"
    using normalize_done [OF _ _ 2(2,3), of norm "SLASH # c"] norm st by auto
  then show "realpath cwd norm True (Some (SLASH # c)) = Some (Inr (SLASH # ?a @ SLASH # ?b))" using c(2) by (simp add: realpath_def)
qed

theorem realpath_defects_witness:
  "realpath None (replicate 512 0xFF) True (Some [SLASH]) = None \<and>
   realpath None (replicate 512 0xFF) True (Some (SLASH # replicate 64 97)) = Some (Inr (SLASH # replicate 63 97 @ [SLASH, 97]))"
proof -
  have c: "take 63 (replicate 64 (97 :: u8)) = replicate 63 97" "drop 63 (replicate 64 (97 :: u8)) = [97]" by simp_all
  show ?thesis using realpath_defects [of "replicate 512 0xFF" "[SLASH]" "replicate 64 97" None] unfolding c
    by (simp add: SLASH_def DOT_def)
qed

end
