(* ===== verification/Calendar.thy ===== *)
theory Calendar
  imports Prelude "HOL-Library.Signed_Division"
begin

text \<open>
  Calendar time in \<^verbatim>\<open>userland/libc/src/time/time.c\<close>: \<^verbatim>\<open>gmtime_r\<close>, \<^verbatim>\<open>mktime\<close> and the formatting of
  \<^verbatim>\<open>asctime_r\<close>. \<^verbatim>\<open>int\<close> and \<^verbatim>\<open>time_t\<close> are mathematical integers; the conversion of the number of
  days to \<^verbatim>\<open>int\<close> is written out, as it is the one that cuts a large time.
  A \<^verbatim>\<open>char\<close> is an 8-bit word. There is no time zone, \<^verbatim>\<open>localtime_r\<close> is \<^verbatim>\<open>gmtime_r\<close>.
\<close>

definition mon_days :: "bool \<Rightarrow> int list" where
  "mon_days leap =
     (if leap then [31, 29, 31, 30, 31, 30, 31, 31, 30, 31, 30, 31]
      else [31, 28, 31, 30, 31, 30, 31, 31, 30, 31, 30, 31])"

definition is_leap :: "int \<Rightarrow> bool" where
  "is_leap year \<longleftrightarrow> (year mod 4 = 0 \<and> year mod 100 \<noteq> 0) \<or> year mod 400 = 0"

record tm =
  tm_sec :: int
  tm_min :: int
  tm_hour :: int
  tm_mday :: int
  tm_mon :: int
  tm_year :: int
  tm_wday :: int
  tm_yday :: int
  tm_isdst :: int

definition year_days :: "int \<Rightarrow> int" where
  "year_days year = (if is_leap year then 366 else 365)"

lemma year_days_pos: "365 \<le> year_days y" "year_days y \<le> 366"
  by (simp_all add: year_days_def)

text \<open>The loop over the years: the year and the day in it.\<close>

function year_loop :: "int \<Rightarrow> int \<Rightarrow> int \<times> int" where
  "year_loop year days =
     (if days < year_days year then (year, days) else year_loop (year + 1) (days - year_days year))"
  by pat_completeness auto
termination
proof (relation "measure (\<lambda>(year, days). nat days)", goal_cases)
  case (2 year days)
  then show ?case using year_days_pos(1) [of year] by simp
qed simp

declare year_loop.simps [simp del]

text \<open>The loop over the first eleven months, with \<open>k\<close> of them left.\<close>

fun month_loop :: "bool \<Rightarrow> nat \<Rightarrow> nat \<Rightarrow> int \<Rightarrow> nat \<times> int" where
  "month_loop leap 0 mon days = (mon, days)"
| "month_loop leap (Suc k) mon days =
     (if days < mon_days leap ! mon then (mon, days)
      else month_loop leap k (mon + 1) (days - mon_days leap ! mon))"

text \<open>\<open>(int)x\<close> for a 64-bit \<open>x\<close>.\<close>

definition to_int :: "int \<Rightarrow> int" where
  "to_int x = sint (of_int x :: u32)"

definition gmtime_r :: "int \<Rightarrow> tm" where
  "gmtime_r timep =
     (let t = (if timep < 0 then 0 else timep);
          days = to_int (t div 86400);
          rem0 = to_int (t mod 86400);
          wday = (days + 4) smod 7;
          (year, yday) = year_loop 1970 days;
          leap = is_leap year;
          (mon, mday) = month_loop leap 11 0 yday
      in \<lparr>tm_sec = rem0 smod 3600 smod 60, tm_min = rem0 smod 3600 sdiv 60, tm_hour = rem0 sdiv 3600,
          tm_mday = mday + 1, tm_mon = int mon, tm_year = year - 1900,
          tm_wday = (if wday < 0 then wday + 7 else wday), tm_yday = yday, tm_isdst = 0\<rparr>)"

definition localtime_r :: "int \<Rightarrow> tm" where
  "localtime_r timep = gmtime_r timep"

definition mktime :: "tm \<Rightarrow> int \<times> tm" where
  "mktime tm =
     (let year = tm_year tm + 1900;
          mon = tm_mon tm;
          t1 = (\<Sum>y \<leftarrow> [1970..year - 1]. year_days y);
          leap = is_leap year;
          t2 = t1 + (\<Sum>m \<leftarrow> [0..<nat mon]. mon_days leap ! m);
          t3 = t2 + (tm_mday tm - 1);
          t = t3 * 86400 + tm_hour tm * 3600 + tm_min tm * 60 + tm_sec tm;
          check = gmtime_r t
      in (t, tm\<lparr>tm_wday := tm_wday check, tm_yday := tm_yday check, tm_isdst := 0\<rparr>))"

section \<open>Formatting\<close>

definition wday_name :: "u8 list list" where
  "wday_name = [[83, 117, 110], [77, 111, 110], [84, 117, 101], [87, 101, 100], [84, 104, 117],
                [70, 114, 105], [83, 97, 116]]"

definition mon_name :: "u8 list list" where
  "mon_name = [[74, 97, 110], [70, 101, 98], [77, 97, 114], [65, 112, 114], [77, 97, 121], [74, 117, 110],
               [74, 117, 108], [65, 117, 103], [83, 101, 112], [79, 99, 116], [78, 111, 118], [68, 101, 99]]"

definition digit_byte :: "int \<Rightarrow> u8" where
  "digit_byte n = of_int (48 + n)"

definition put2 :: "int \<Rightarrow> u8 list" where
  "put2 n = [digit_byte ((n sdiv 10) smod 10), digit_byte (n smod 10)]"

text \<open>The 26 bytes that \<^verbatim>\<open>asctime_r\<close> stores.\<close>

definition asctime_r :: "tm \<Rightarrow> u8 list" where
  "asctime_r tm =
     (let wday = tm_wday tm mod 8; mon = tm_mon tm mod 16;
          wday = (if wday \<ge> 7 then 0 else wday);
          mon = (if mon \<ge> 12 then 0 else mon);
          year = tm_year tm + 1900
      in wday_name ! nat wday @ [32] @ mon_name ! nat mon @ [32] @ put2 (tm_mday tm) @ [32] @
         put2 (tm_hour tm) @ [58] @ put2 (tm_min tm) @ [58] @ put2 (tm_sec tm) @ [32] @
         [digit_byte ((year sdiv 1000) smod 10), digit_byte ((year sdiv 100) smod 10),
          digit_byte ((year sdiv 10) smod 10), digit_byte (year smod 10), 10, 0])"

definition ctime_r :: "int \<Rightarrow> u8 list" where
  "ctime_r t = asctime_r (localtime_r t)"

section \<open>Days and years\<close>

lemma year_loop_inv:
  "0 \<le> days \<Longrightarrow> year_loop y days = (year, yday) \<Longrightarrow>
   y \<le> year \<and> days = (\<Sum>i \<leftarrow> [y..year - 1]. year_days i) + yday \<and> 0 \<le> yday \<and> yday < year_days year"
proof (induction y days rule: year_loop.induct)
  case (1 y days)
  show ?case
  proof (cases "days < year_days y")
    case True
    then show ?thesis using "1.prems" by (auto simp: year_loop.simps [of y])
  next
    case False
    then have "y + 1 \<le> year \<and> days - year_days y = (\<Sum>i \<leftarrow> [y + 1..year - 1]. year_days i) + yday \<and>
        0 \<le> yday \<and> yday < year_days year"
      using "1.IH" "1.prems" by (simp add: year_loop.simps [of y])
    moreover from this have "[y..year - 1] = y # [y + 1..year - 1]" by (simp add: upto_rec1)
    ultimately show ?thesis by simp
  qed
qed

lemma year_loop_sum:
  assumes "0 \<le> yday" and "yday < year_days year"
  shows "y \<le> year \<Longrightarrow> year_loop y ((\<Sum>i \<leftarrow> [y..year - 1]. year_days i) + yday) = (year, yday)"
proof (induction "nat (year - y)" arbitrary: y)
  case 0
  then show ?case using assms by (simp add: year_loop.simps [of y])
next
  case (Suc n)
  have "[y..year - 1] = y # [y + 1..year - 1]" using Suc.hyps(2) by (simp add: upto_rec1)
  moreover have "0 \<le> (\<Sum>i \<leftarrow> [y + 1..year - 1]. year_days i)"
    by (rule sum_list_nonneg) (auto simp: year_days_def)
  moreover have "year_loop (y + 1) ((\<Sum>i \<leftarrow> [y + 1..year - 1]. year_days i) + yday) = (year, yday)"
    using Suc by (intro Suc.hyps(1)) auto
  ultimately show ?case using assms(1) by (simp add: year_loop.simps [of y])
qed

lemma month_loop_inv:
  assumes "mon + k = 11" and "0 \<le> days" and "days < (\<Sum>m \<leftarrow> [mon..<12]. mon_days leap ! m)"
    and "month_loop leap k mon days = (mon', mday)"
  shows "mon \<le> mon' \<and> mon' < 12 \<and> days = (\<Sum>m \<leftarrow> [mon..<mon']. mon_days leap ! m) + mday \<and>
    0 \<le> mday \<and> mday < mon_days leap ! mon'"
  using assms
proof (induction leap k mon days rule: month_loop.induct)
  case (1 leap mon days)
  then show ?case by (auto simp: upt_rec)
next
  case (2 leap k mon days)
  show ?case
  proof (cases "days < mon_days leap ! mon")
    case True
    then show ?thesis using 2 by auto
  next
    case False
    have "[mon..<12] = mon # [mon + 1..<12]" using "2.prems"(1) by (simp add: upt_conv_Cons)
    then have "mon + 1 \<le> mon' \<and> mon' < 12 \<and>
        days - mon_days leap ! mon = (\<Sum>m \<leftarrow> [mon + 1..<mon']. mon_days leap ! m) + mday \<and>
        0 \<le> mday \<and> mday < mon_days leap ! mon'"
      using False "2.prems" by (intro "2.IH") auto
    moreover from this have "[mon..<mon'] = mon # [mon + 1..<mon']" by (simp add: upt_conv_Cons)
    ultimately show ?thesis by simp
  qed
qed

lemma mon_days_pos: "m < 12 \<Longrightarrow> 28 \<le> mon_days leap ! m"
  by (auto simp: mon_days_def less_Suc_eq numeral_eq_Suc)

lemma month_loop_sum:
  assumes "mon + k = 11" and "mon \<le> mon'" and "mon' < 12" and "0 \<le> mday" and "mday < mon_days leap ! mon'"
  shows "month_loop leap k mon ((\<Sum>m \<leftarrow> [mon..<mon']. mon_days leap ! m) + mday) = (mon', mday)"
  using assms
proof (induction k arbitrary: mon)
  case (Suc k)
  show ?case
  proof (cases "mon = mon'")
    case False
    then have "[mon..<mon'] = mon # [mon + 1..<mon']" using Suc.prems(2) by (simp add: upt_conv_Cons)
    moreover have "0 \<le> (\<Sum>m \<leftarrow> [mon + 1..<mon']. mon_days leap ! m)"
    proof (rule sum_list_nonneg)
      fix x assume "x \<in> set (map ((!) (mon_days leap)) [mon + 1..<mon'])"
      then obtain j where "x = mon_days leap ! j" "j < mon'" by auto
      then show "0 \<le> x" using mon_days_pos [of j leap] Suc.prems(3) by simp
    qed
    moreover have "month_loop leap k (mon + 1) ((\<Sum>m \<leftarrow> [mon + 1..<mon']. mon_days leap ! m) + mday) = (mon', mday)"
      by (rule Suc.IH) (use Suc.prems False in simp_all)
    ultimately show ?thesis using Suc.prems(4) by simp
  qed (use Suc.prems in simp)
qed (use assms in simp)

lemma year_months: "year_days y = (\<Sum>m \<leftarrow> [0..<12]. mon_days (is_leap y) ! m)"
  by (simp add: year_days_def mon_days_def upt_rec)

lemma sdiv_nonneg: "0 \<le> a \<Longrightarrow> 0 < b \<Longrightarrow> (a :: int) sdiv b = a div b \<and> a smod b = a mod b"
  by (cases "a = 0") (simp_all add: signed_divide_int_def signed_modulo_int_def sgn_mult minus_div_mult_eq_mod)

lemma to_int_small: "0 \<le> x \<Longrightarrow> x < 2 ^ 31 \<Longrightarrow> to_int x = x"
  by (simp add: to_int_def sint_sbintrunc' signed_take_bit_int_eq_self)

text \<open>What \<^verbatim>\<open>gmtime_r\<close> computes for a time it does not cut.\<close>

definition in_range :: "int \<Rightarrow> bool" where
  "in_range t \<longleftrightarrow> 0 \<le> t \<and> t div 86400 < 2 ^ 31 - 4"

lemma gmtime_r_eq:
  assumes "in_range t"
  obtains year yday mon mday where
    "gmtime_r t = \<lparr>tm_sec = t mod 60, tm_min = t mod 3600 div 60, tm_hour = t mod 86400 div 3600,
      tm_mday = mday + 1, tm_mon = int mon, tm_year = year - 1900,
      tm_wday = (t div 86400 + 4) mod 7, tm_yday = yday, tm_isdst = 0\<rparr>"
    and "year_loop 1970 (t div 86400) = (year, yday)" and "month_loop (is_leap year) 11 0 yday = (mon, mday)"
proof -
  obtain year yday where y: "year_loop 1970 (t div 86400) = (year, yday)" by force
  obtain mon mday where m: "month_loop (is_leap year) 11 0 yday = (mon, mday)" by force
  have t: "0 \<le> t" and d: "to_int (t div 86400) = t div 86400" and r: "to_int (t mod 86400) = t mod 86400"
    using assms by (auto simp: in_range_def intro!: to_int_small)
  have "gmtime_r t = \<lparr>tm_sec = t mod 60, tm_min = t mod 3600 div 60, tm_hour = t mod 86400 div 3600,
      tm_mday = mday + 1, tm_mon = int mon, tm_year = year - 1900,
      tm_wday = (t div 86400 + 4) mod 7, tm_yday = yday, tm_isdst = 0\<rparr>"
    using t by (simp add: gmtime_r_def Let_def d r y m sdiv_nonneg pos_imp_zdiv_nonneg_iff mod_mod_cancel)
  then show ?thesis using y m by (rule that)
qed

lemma gmtime_r_parts:
  assumes "in_range t" and "year_loop 1970 (t div 86400) = (year, yday)"
    and "month_loop (is_leap year) 11 0 yday = (mon, mday)"
  shows "1970 \<le> year" "mon < 12" "0 \<le> mday" "mday < mon_days (is_leap year) ! mon"
    "t div 86400 = (\<Sum>y \<leftarrow> [1970..year - 1]. year_days y) + ((\<Sum>m \<leftarrow> [0..<mon]. mon_days (is_leap year) ! m) + mday)"
proof -
  have y: "1970 \<le> year \<and> t div 86400 = (\<Sum>i \<leftarrow> [1970..year - 1]. year_days i) + yday \<and> 0 \<le> yday \<and> yday < year_days year"
    using year_loop_inv [OF _ assms(2)] assms(1) by (simp add: in_range_def pos_imp_zdiv_nonneg_iff)
  then have "0 \<le> mon \<and> mon < 12 \<and> yday = (\<Sum>m \<leftarrow> [0..<mon]. mon_days (is_leap year) ! m) + mday \<and>
      0 \<le> mday \<and> mday < mon_days (is_leap year) ! mon"
    using assms(3) year_months [of year] by (intro month_loop_inv [where k = 11]) auto
  with y show "1970 \<le> year" "mon < 12" "0 \<le> mday" "mday < mon_days (is_leap year) ! mon"
    "t div 86400 = (\<Sum>y \<leftarrow> [1970..year - 1]. year_days y) + ((\<Sum>m \<leftarrow> [0..<mon]. mon_days (is_leap year) ! m) + mday)"
    by simp_all
qed

section \<open>The two conversions are inverse\<close>

lemma fst_mktime:
  "fst (mktime \<lparr>tm_sec = s, tm_min = mi, tm_hour = h, tm_mday = d + 1, tm_mon = int mon, tm_year = year - 1900,
      tm_wday = w, tm_yday = yd, tm_isdst = i\<rparr>) =
     ((\<Sum>y \<leftarrow> [1970..year - 1]. year_days y) + (\<Sum>m \<leftarrow> [0..<mon]. mon_days (is_leap year) ! m) + d) * 86400 +
     h * 3600 + mi * 60 + s"
  by (simp add: mktime_def Let_def)

lemma snd_mktime:
  "snd (mktime tm) = tm\<lparr>tm_wday := tm_wday (gmtime_r (fst (mktime tm))),
     tm_yday := tm_yday (gmtime_r (fst (mktime tm))), tm_isdst := 0\<rparr>"
  by (simp add: mktime_def Let_def)

lemma mktime_same:
  assumes "fst (mktime (gmtime_r t)) = t" and "tm_isdst (gmtime_r t) = 0"
  shows "mktime (gmtime_r t) = (t, gmtime_r t)"
  using snd_mktime [of "gmtime_r t"] assms by (cases "mktime (gmtime_r t)") (cases "gmtime_r t"; simp)

lemma mktime_gmtime:
  assumes "in_range t"
  shows "mktime (gmtime_r t) = (t, gmtime_r t)"
proof (rule gmtime_r_eq [OF assms])
  fix year yday mon mday
  assume g: "gmtime_r t = \<lparr>tm_sec = t mod 60, tm_min = t mod 3600 div 60, tm_hour = t mod 86400 div 3600,
      tm_mday = mday + 1, tm_mon = int mon, tm_year = year - 1900,
      tm_wday = (t div 86400 + 4) mod 7, tm_yday = yday, tm_isdst = 0\<rparr>"
    and y: "year_loop 1970 (t div 86400) = (year, yday)" and m: "month_loop (is_leap year) 11 0 yday = (mon, mday)"
  have "t mod 86400 div 3600 * 3600 + t mod 3600 div 60 * 60 + t mod 60 = t mod 86400"
    using div_mult_mod_eq [of "t mod 86400" 3600] div_mult_mod_eq [of "t mod 3600" 60]
      mod_mod_cancel [of 3600 86400 t] mod_mod_cancel [of 60 3600 t] by simp
  then have "(t div 86400) * 86400 + t mod 86400 div 3600 * 3600 + t mod 3600 div 60 * 60 + t mod 60 = t"
    using div_mult_mod_eq [of t 86400] by linarith
  moreover have "(\<Sum>y \<leftarrow> [1970..year - 1]. year_days y) + (\<Sum>m \<leftarrow> [0..<mon]. mon_days (is_leap year) ! m) + mday = t div 86400"
    using gmtime_r_parts(5) [OF assms y m] by simp
  ultimately have "fst (mktime (gmtime_r t)) = t" by (simp only: g fst_mktime)
  then show ?thesis by (rule mktime_same) (simp_all only: g tm.simps)
qed

text \<open>A broken-down time with all fields in range.\<close>

definition valid_tm :: "tm \<Rightarrow> bool" where
  "valid_tm tm \<longleftrightarrow> 70 \<le> tm_year tm \<and> 0 \<le> tm_mon tm \<and> tm_mon tm < 12 \<and> 1 \<le> tm_mday tm \<and>
     tm_mday tm \<le> mon_days (is_leap (tm_year tm + 1900)) ! nat (tm_mon tm) \<and>
     0 \<le> tm_hour tm \<and> tm_hour tm < 24 \<and> 0 \<le> tm_min tm \<and> tm_min tm < 60 \<and> 0 \<le> tm_sec tm \<and> tm_sec tm < 60"

lemma div_lt_bound: "0 < (b :: int) \<Longrightarrow> x < c * b \<Longrightarrow> x div b < c"
proof (rule ccontr)
  assume "0 < b" "x < c * b" "\<not> x div b < c"
  then have "c * b \<le> x div b * b" by (intro mult_right_mono) simp_all
  also have "\<dots> \<le> x" using pos_mod_sign [OF \<open>0 < b\<close>, of x] div_mult_mod_eq [of x b] by linarith
  finally show False using \<open>x < c * b\<close> by simp
qed

lemma gmtime_valid:
  assumes "in_range t"
  shows "valid_tm (gmtime_r t)" and "0 \<le> tm_wday (gmtime_r t)" and "tm_wday (gmtime_r t) < 7"
    and "0 \<le> tm_yday (gmtime_r t)" and "tm_yday (gmtime_r t) < 366"
proof -
  obtain year yday mon mday where
    g: "gmtime_r t = \<lparr>tm_sec = t mod 60, tm_min = t mod 3600 div 60, tm_hour = t mod 86400 div 3600,
      tm_mday = mday + 1, tm_mon = int mon, tm_year = year - 1900,
      tm_wday = (t div 86400 + 4) mod 7, tm_yday = yday, tm_isdst = 0\<rparr>"
    and y: "year_loop 1970 (t div 86400) = (year, yday)" and m: "month_loop (is_leap year) 11 0 yday = (mon, mday)"
    by (rule gmtime_r_eq [OF assms])
  have "t mod 86400 < 86400" "t mod 3600 < 3600" "0 \<le> t mod 86400" "0 \<le> t mod 3600" by simp_all
  then have "t mod 86400 div 3600 < 24" "t mod 3600 div 60 < 60"
    by (auto intro!: div_lt_bound)
  then show "valid_tm (gmtime_r t)" using gmtime_r_parts [OF assms y m]
    by (simp add: g valid_tm_def pos_imp_zdiv_nonneg_iff)
  show "0 \<le> tm_wday (gmtime_r t)" "tm_wday (gmtime_r t) < 7" by (simp_all add: g)
  have "0 \<le> yday \<and> yday < year_days year"
    using year_loop_inv [OF _ y] assms by (simp add: in_range_def pos_imp_zdiv_nonneg_iff)
  then show "0 \<le> tm_yday (gmtime_r t)" "tm_yday (gmtime_r t) < 366"
    using year_days_pos(2) [of year] by (simp_all add: g)
qed

lemma clock_parts:
  assumes "0 \<le> h" "h < 24" "0 \<le> mi" "mi < 60" "0 \<le> s" "s < (60 :: int)" and t: "t = d * 86400 + h * 3600 + mi * 60 + s"
  shows "t div 86400 = d" "t mod 86400 div 3600 = h" "t mod 3600 div 60 = mi" "t mod 60 = s"
proof -
  show "t div 86400 = d" by (rule int_div_pos_eq [of _ _ _ "h * 3600 + mi * 60 + s"]) (use assms in linarith)+
  have "t mod 86400 = h * 3600 + mi * 60 + s" by (rule int_mod_pos_eq [of _ _ d]) (use assms in linarith)+
  then show "t mod 86400 div 3600 = h" by (intro int_div_pos_eq [of _ _ _ "mi * 60 + s"]) (use assms in linarith)+
  have "t mod 3600 = mi * 60 + s" by (rule int_mod_pos_eq [of _ _ "d * 24 + h"]) (use assms in \<open>simp_all add: distrib_left\<close>)
  then show "t mod 3600 div 60 = mi" by (intro int_div_pos_eq [of _ _ _ s]) (use assms in linarith)+
  show "t mod 60 = s" by (rule int_mod_pos_eq [of _ _ "d * 1440 + h * 60 + mi"]) (use assms in \<open>simp_all add: distrib_left\<close>)
qed

lemma yday_bound:
  assumes "mon < 12" and "0 \<le> d" and "d < mon_days (is_leap year) ! mon"
  shows "0 \<le> (\<Sum>m \<leftarrow> [0..<mon]. mon_days (is_leap year) ! m) + d"
    and "(\<Sum>m \<leftarrow> [0..<mon]. mon_days (is_leap year) ! m) + d < year_days year"
proof -
  have nn: "j \<le> 12 \<Longrightarrow> 0 \<le> (\<Sum>m \<leftarrow> [i..<j]. mon_days (is_leap year) ! m)" for i j
  proof (rule sum_list_nonneg)
    fix x assume "j \<le> 12" and "x \<in> set (map ((!) (mon_days (is_leap year))) [i..<j])"
    then obtain k where "x = mon_days (is_leap year) ! k" "k < 12" by auto
    then show "0 \<le> x" using mon_days_pos [of k "is_leap year"] by simp
  qed
  show "0 \<le> (\<Sum>m \<leftarrow> [0..<mon]. mon_days (is_leap year) ! m) + d" using nn [of mon 0] assms by simp
  have "[0..<12] = [0..<mon] @ mon # [Suc mon..<12]"
    using assms(1) upt_add_eq_append [of 0 mon "12 - mon"] by (simp add: upt_conv_Cons)
  then show "(\<Sum>m \<leftarrow> [0..<mon]. mon_days (is_leap year) ! m) + d < year_days year"
    using nn [of 12 "Suc mon"] assms(3) by (simp add: year_months del: upt_Suc)
qed

lemma gmtime_mktime:
  assumes v: "valid_tm tm" and r: "in_range (fst (mktime tm))"
  shows "gmtime_r (fst (mktime tm)) = snd (mktime tm)"
proof -
  define year d mon where "year = tm_year tm + 1900" and "d = tm_mday tm - 1" and "mon = nat (tm_mon tm)"
  let ?t = "fst (mktime tm)"
  let ?M = "\<Sum>m \<leftarrow> [0..<mon]. mon_days (is_leap year) ! m"
  have tm: "tm = \<lparr>tm_sec = tm_sec tm, tm_min = tm_min tm, tm_hour = tm_hour tm, tm_mday = d + 1, tm_mon = int mon,
      tm_year = year - 1900, tm_wday = tm_wday tm, tm_yday = tm_yday tm, tm_isdst = tm_isdst tm\<rparr>"
    using v by (simp add: year_def d_def mon_def valid_tm_def)
  have b: "1970 \<le> year" "mon < 12" "0 \<le> d" "d < mon_days (is_leap year) ! mon"
    using v by (auto simp: year_def d_def mon_def valid_tm_def nat_less_iff)
  have "?t = ((\<Sum>y \<leftarrow> [1970..year - 1]. year_days y) + ?M + d) * 86400 + tm_hour tm * 3600 + tm_min tm * 60 + tm_sec tm"
    by (subst tm) (rule fst_mktime)
  note c = clock_parts [OF _ _ _ _ _ _ this]
  have y: "year_loop 1970 (?t div 86400) = (year, ?M + d)"
    using year_loop_sum [OF yday_bound [OF b(2-4)] b(1)] c(1) v by (simp add: valid_tm_def add.assoc)
  have m: "month_loop (is_leap year) 11 0 (?M + d) = (mon, d)" using b by (intro month_loop_sum) simp_all
  show ?thesis
  proof (rule gmtime_r_eq [OF r])
    fix year' yday mon' mday
    assume g: "gmtime_r ?t = \<lparr>tm_sec = ?t mod 60, tm_min = ?t mod 3600 div 60, tm_hour = ?t mod 86400 div 3600,
        tm_mday = mday + 1, tm_mon = int mon', tm_year = year' - 1900,
        tm_wday = (?t div 86400 + 4) mod 7, tm_yday = yday, tm_isdst = 0\<rparr>"
      and "year_loop 1970 (?t div 86400) = (year', yday)" and "month_loop (is_leap year') 11 0 yday = (mon', mday)"
    then have e: "year' = year" "mon' = mon" "mday = d" using y m by auto
    have f: "?t mod 86400 div 3600 = tm_hour tm" "?t mod 3600 div 60 = tm_min tm" "?t mod 60 = tm_sec tm"
      using c v by (simp_all add: valid_tm_def)
    show ?thesis by (subst snd_mktime, subst (2) tm) (simp add: g e f)
  qed
qed

text \<open>C17: \<^verbatim>\<open>gmtime_r\<close> and \<^verbatim>\<open>mktime\<close> are inverse to each other: a time that fits the
  day counter is broken down into fields that are all in range, with the weekday and the day of the year, and
  \<^verbatim>\<open>mktime\<close> gives back exactly that time and changes no field; and a broken-down time with valid
  fields whose time fits the day counter is what \<^verbatim>\<open>gmtime_r\<close> computes from the time
  \<^verbatim>\<open>mktime\<close> returns, up to the derived fields that \<^verbatim>\<open>mktime\<close> fills in.  A negative
  time is read as the epoch.\<close>

theorem calendar_round_trip:
  "(in_range t \<longrightarrow> mktime (gmtime_r t) = (t, gmtime_r t) \<and> valid_tm (gmtime_r t) \<and>
      tm_wday (gmtime_r t) \<in> {0..6} \<and> tm_yday (gmtime_r t) \<in> {0..365}) \<and>
   (valid_tm tm \<and> in_range (fst (mktime tm)) \<longrightarrow> gmtime_r (fst (mktime tm)) = snd (mktime tm)) \<and>
   (t < 0 \<longrightarrow> gmtime_r t = gmtime_r 0)"
proof (intro conjI impI)
  show "t < 0 \<Longrightarrow> gmtime_r t = gmtime_r 0" by (simp add: gmtime_r_def)
qed (use mktime_gmtime gmtime_valid [of t] gmtime_mktime in auto)

theorem calendar_round_trip_witness:
  "mktime (gmtime_r 86399) = (86399, gmtime_r 86399) \<and>
   gmtime_r (fst (mktime (gmtime_r 951868800))) = snd (mktime (gmtime_r 951868800)) \<and>
   gmtime_r (- 5) = gmtime_r 0 \<and>
   ctime_r 951868800 = [87, 101, 100, 32, 77, 97, 114, 32, 48, 49, 32, 48, 48, 58, 48, 48, 58, 48, 48, 32, 50, 48, 48, 48, 10, 0]"
proof -
  have "in_range 86399" by (simp add: in_range_def)
  moreover have "valid_tm (gmtime_r 951868800)" "in_range (fst (mktime (gmtime_r 951868800)))" by code_simp+
  moreover have "ctime_r 951868800 =
    [87, 101, 100, 32, 77, 97, 114, 32, 48, 49, 32, 48, 48, 58, 48, 48, 58, 48, 48, 32, 50, 48, 48, 48, 10, 0]" by code_simp
  ultimately show ?thesis
    using calendar_round_trip [of 86399 "gmtime_r 951868800"] calendar_round_trip [of "- 5"] by simp
qed

end
