(* ===== verification/Spec2Isabelle.thy ===== *)
theory Spec2Isabelle
  imports Translate Heap Dcache Icache Scheduler Pipes StringSearch Strerror Strtol Qsort Environ Realpath Calendar
begin

text \<open>
  A verification development for LikeOS-64, a small x86-64 operating system written in C. It covers parts of
  the kernel (memory management, the caches of the file system, the scheduler, pipes) and of the C library. A C
  function is a HOL function on an explicit state; a struct is a record, an enumeration a datatype, an
  integer a word of its width, except that tick counts, numbers of processors, calendar fields and the counts of pipe
  ends are plain numbers. A value that the code does not define (a signed overflow in \<^verbatim>\<open>strtol\<close>, a read past the
  buffer in \<^verbatim>\<open>realpath\<close>) is \<open>None\<close>. Objects that the code links by pointers live in stores indexed by address, so
  that aliasing is visible. What the sources only call (\<^verbatim>\<open>kalloc\<close>, \<^verbatim>\<open>malloc\<close>, the FAT lookup, comparison
  functions) is an argument of the model.

  \<^bold>\<open>Shared.\<close> \<open>Prelude\<close> has the types and facts on words and lists; \<open>Links\<close> chains and rings of pointers;
  \<open>Bytes\<close> byte memory with \<^verbatim>\<open>mm_memset\<close> and \<^verbatim>\<open>mm_memcpy\<close>; \<open>Allocator\<close> the contract of an allocator, as a locale
  whose lemmas speak of what a client holds.

  \<^bold>\<open>Memory\<close> (\<^verbatim>\<open>kernel/mm/memory.c\<close>). \<open>Physmem\<close> models the bitmap allocator and the reference counts of pages:
  allocation returns a free page exactly when there is one, and the counters agree with the bitmap. \<open>Cow\<close>
  models the copy of a page table at fork and the write fault: the fault succeeds exactly when a page is
  free, and gives the writer a private copy. \<open>Paging\<close>, \<open>PtPool\<close> and \<open>Translate\<close> model the four-level tables;
  the specification is the walk of the processor (\<open>mmu\<close>). Mapping changes the translation of one page, takes user
  access from the other pages of a 2 MiB page it splits, and fails only when no page is left for a table. \<open>Heap\<close> models the first-fit heap for DMA: areas a client holds
  never overlap. The locale \<open>page_source\<close> is interpreted for the bitmap allocator and for the page-table pool,
  the locale \<open>allocator\<close> for the DMA heap.

  \<^bold>\<open>File system caches\<close> (\<^verbatim>\<open>kernel/fs/dcache.c\<close>, \<^verbatim>\<open>kernel/fs/icache.c\<close>). \<open>Dcache\<close> refines the dentry cache to a
  list of entries in order of use, \<open>Icache\<close> the inode cache to a map with a list of unused inodes; allocation may fail. Both prove
  what goes wrong: the race between eviction and lookup, the removal of an inode in use, and the loop that
  never ends when every inode is in use.

  \<^bold>\<open>Scheduler\<close> (\<^verbatim>\<open>kernel/ke/sched.c\<close>). \<open>Sched\<close> has the definitions; \<open>RunQueue\<close> refines the linked run queues to
  lists; \<open>Scheduling\<close> says which task a call runs next; \<open>Wakeup\<close> covers blocking and wake-ups;
  \<open>Interleaving\<close> has the step relation \<open>sys_step\<close> of all processors; \<open>Balance\<close> covers load balancing and turns;
  \<open>Scheduler\<close> states the properties. A state of \<open>sys_step\<close> has, besides the scheduler, how far the wake-up of each
  processor has got and which processors have yet to enter the scheduler after a yield. Each step is one
  section under a lock or one unlocked group of writes: a wake-up scans the task list entry by entry and queues
  the tasks one by one, and other processors act in between. The section that picks the next task is one step with
  the switch of stacks that follows it. A run of the steps of one call without interruption is the call
  itself (\<open>yield_alone\<close>, \<open>wake_alone\<close>, \<open>scan_alone\<close>, \<open>enqueue_alone\<close>). Two
  properties show defects: a wake-up of more than 16 tasks loses the others, and load balancing can make two
  processors run one task. The invariant is therefore stated for wake-ups of at most 16 tasks and without
  load balancing.

  \<^bold>\<open>Pipes\<close> (\<^verbatim>\<open>kernel/ke/pipe.c\<close>, the transfers of \<^verbatim>\<open>kernel/ke/syscall.c\<close>). \<open>Pipe\<close> has the definitions and refines
  the ring buffer to a queue of bytes, \<open>PipeEnds\<close> counts the open ends, \<open>Pipes\<close> states the properties: bytes come
  out as they went in, a reader returns exactly when there is something to return and its sleeps end, a pipe is freed
  with its last end. A wake-up of the channel is only logged here; what it does is the subject of \<open>Wakeup\<close>.

  \<^bold>\<open>C library\<close> (\<^verbatim>\<open>userland/libc/src\<close>). \<open>Ctype\<close>, \<open>CString\<close>, \<open>StringCopy\<close> and \<open>StringSearch\<close> model characters and
  strings on byte memory, \<open>Strerror\<close> the message tables, \<open>Strtol\<close> number parsing, \<open>Qsort\<close> sorting and searching,
  \<open>Environ\<close> the environment, \<open>Realpath\<close> path normalisation, \<open>Calendar\<close> the conversion between seconds and
  calendar time.

  \<^bold>\<open>Loops and bounds.\<close> A loop along pointers or up to a terminator is a partial function whose value is \<open>None\<close>
  when it does not end; the properties state that it returns \<open>Some\<close> value. Counted loops are total functions.
  There is no fuel, except in \<open>strtok_all\<close>, which repeats a call at most as often as its argument says; the
  property uses one more than the length of the string, as each token takes a character. Bounds in hypotheses
  are those of the code: 16 tasks to wake, 4095 entries kept beside a new one in the dentry cache, 2048
  inodes, 65535 owners of a page, 512 bytes for a path.

  \<^bold>\<open>Not modelled.\<close> Translation buffers, the effects of weak memory order, and time. Interleaving is modelled only
  between the steps named above. Device drivers, boot, interrupt entry and the switch of stacks are outside
  because their meaning lies in hardware or assembly. FAT32, the page cache and the VFS interleave with block
  I/O. Of the scheduler, task creation and removal, thread groups, timed sleep and load averages are missing.
  The slab allocator, futexes, signals, terminals, system calls, the ELF loaders, the network stack,
  the rest of the C library (floating point, \<^verbatim>\<open>strftime\<close>, buffered I/O, threads) and the user programs are not
  covered by this development.
\<close>

end
